(* ===== verification/Prelude.thy ===== *)
theory Prelude
  imports Main "HOL-Library.Word"
begin

text \<open>
  Shared vocabulary of the orchestrator's verification: Go's machine integers, instants
  and durations, error values with their wrapping chain, the iteration order of a Go map,
  and the lemma collections the component theories add to.

  \<^item> \<open>int64\<close> (Go's \<open>int64\<close> and, on the 64-bit targets the program is built for,
    \<open>int\<close>) and \<open>int32\<close> are words; \<open>sint\<close> reads them as signed numbers.
  \<^item> \<open>gotime\<close> is \<open>time.Time\<close>: nanoseconds since the zero \<open>Time\<close>; \<open>duration\<close>
    is \<open>time.Duration\<close>. \<open>time_Sub\<close> saturates, as \<open>Time.Sub\<close> does.
  \<^item> \<open>go_error\<close> is the \<open>error\<close> interface: sentinel values (compared by identity),
    formatted texts, and \<open>%w\<close> wrapping; a nil error is \<open>None\<close>.
  \<^item> A Go map is a HOL map; \<open>range\<close> over it visits the keys in an order the language
    leaves open, so a function that ranges takes the order as a list argument.
\<close>

section \<open>Lemma collections\<close>

named_theorems store_simps \<open>what a job store operation does to the abstract store\<close>
named_theorems keeps_wf \<open>operations that keep a component's invariant\<close>

section \<open>Machine integers, bytes\<close>

type_synonym byte = "8 word"
type_synonym bytes = "byte list"
type_synonym int64 = "64 word"
type_synonym int32 = "32 word"

section \<open>Instants and durations\<close>

type_synonym gotime = int
type_synonym duration = int

definition IsZero :: "gotime \<Rightarrow> bool" where
  "IsZero t \<longleftrightarrow> t = 0"

definition minDuration :: duration where
  "minDuration = - (2 ^ 63)"

definition maxDuration :: duration where
  "maxDuration = 2 ^ 63 - 1"

definition time_Sub :: "gotime \<Rightarrow> gotime \<Rightarrow> duration" where
  "time_Sub t u = max minDuration (min maxDuration (t - u))"

definition Millisecond :: duration where
  "Millisecond = 1000000"

definition Second :: duration where
  "Second = 1000 * Millisecond"

text \<open>The instants \<open>Time.MarshalJSON\<close> accepts: the years 0 to 9999 (year 1 starts at 0).\<close>

definition time_ok :: "gotime \<Rightarrow> bool" where
  "time_ok t \<longleftrightarrow> - (366 * 86400 * Second) \<le> t \<and> t < 3652059 * 86400 * Second"

section \<open>Error values\<close>

datatype sentinel =
    ErrSkipTransition
  | ErrNoWorkersAvailable
  | ErrAllWorkersExhausted
  | ErrJobAlreadyTerminal
  | ErrNotLeader
  | External string

datatype go_error =
    Sentinel sentinel
  | Text string
  | Wrapf string go_error string

fun sentinel_text :: "sentinel \<Rightarrow> string" where
  "sentinel_text ErrSkipTransition = ''skip transition''"
| "sentinel_text ErrNoWorkersAvailable = ''no alive workers available''"
| "sentinel_text ErrAllWorkersExhausted = ''all alive workers refused or unreachable''"
| "sentinel_text ErrJobAlreadyTerminal = ''job already in terminal state''"
| "sentinel_text ErrNotLeader = ''not the raft leader''"
| "sentinel_text (External s) = s"

fun err_Error :: "go_error \<Rightarrow> string" where
  "err_Error (Sentinel s) = sentinel_text s"
| "err_Error (Text s) = s"
| "err_Error (Wrapf pre e post) = pre @ err_Error e @ post"

fun errors_Is :: "go_error \<Rightarrow> sentinel \<Rightarrow> bool" where
  "errors_Is (Sentinel s) t = (s = t)"
| "errors_Is (Text s) t = False"
| "errors_Is (Wrapf pre e post) t = errors_Is e t"

type_synonym 'a result = "go_error + 'a"

definition rbind :: "'a result \<Rightarrow> ('a \<Rightarrow> 'b result) \<Rightarrow> 'b result" where
  "rbind x f = (case x of Inl e \<Rightarrow> Inl e | Inr a \<Rightarrow> f a)"

section \<open>Formatting\<close>

fun show_nat :: "nat \<Rightarrow> string" where
  "show_nat n = (if n < 10 then [char_of (48 + n)] else show_nat (n div 10) @ [char_of (48 + n mod 10)])"

declare show_nat.simps [simp del]

definition show_int :: "int \<Rightarrow> string" where
  "show_int i = (if i < 0 then ''-'' @ show_nat (nat (- i)) else show_nat (nat i))"

section \<open>Binary length\<close>

fun bitlen :: "nat \<Rightarrow> nat" where
  "bitlen n = (if n = 0 then 0 else Suc (bitlen (n div 2)))"

declare bitlen.simps [simp del]

section \<open>Iteration order of a map\<close>

definition range_order :: "('k \<rightharpoonup> 'v) \<Rightarrow> 'k list \<Rightarrow> bool" where
  "range_order m ks \<longleftrightarrow> distinct ks \<and> set ks = dom m"

section \<open>Shared lemmas\<close>

lemma rbind_simps [simp]:
  "rbind (Inl e) f = Inl e"
  "rbind (Inr a) f = f a"
  by (simp_all add: rbind_def)

lemma rbind_eq_Inr: "rbind x f = Inr b \<longleftrightarrow> (\<exists>a. x = Inr a \<and> f a = Inr b)"
  by (cases x) auto

lemma sint_bounds64: "- (2 ^ 63) \<le> sint (x :: int64) \<and> sint x < 2 ^ 63"
  using sint_ge [of x] sint_lt [of x] by simp

lemma sint_Suc64:
  assumes "sint (x :: int64) < 2 ^ 63 - 1"
  shows "sint (x + 1) = sint x + 1"
proof -
  have "sint (x + 1) = signed_take_bit 63 (sint x + 1)"
    by (simp add: sint_word_add)
  also have "\<dots> = sint x + 1"
    using assms sint_bounds64 [of x] by (subst signed_take_bit_int_eq_self_iff) linarith
  finally show ?thesis .
qed

lemma sint_sum64:
  assumes "- (2 ^ 63) \<le> sint (x :: int64) + sint y" "sint x + sint y < 2 ^ 63"
  shows "sint (x + y) = sint x + sint y"
proof -
  have "sint (x + y) = signed_take_bit 63 (sint x + sint y)" by (simp add: sint_word_add)
  also have "\<dots> = sint x + sint y" using assms by (subst signed_take_bit_int_eq_self_iff) linarith
  finally show ?thesis .
qed

lemma range_order_dom: "range_order m ks \<Longrightarrow> k \<in> set ks \<longleftrightarrow> (\<exists>v. m k = Some v)"
  by (auto simp: range_order_def)

lemma map_of_rev_distinct: "distinct (map fst xs) \<Longrightarrow> map_of (rev xs) = map_of xs"
  by (simp add: map_of_inject_set rev_map flip: rev_map)

lemma count_list_distinct: "distinct xs \<Longrightarrow> count_list xs x = (if x \<in> set xs then 1 else 0)"
  by (induction xs) auto

lemma time_Sub_mono: "t \<le> t' \<Longrightarrow> time_Sub t u \<le> time_Sub t' u"
  by (auto simp: time_Sub_def)

lemma time_Sub_exact: "minDuration \<le> t - u \<Longrightarrow> t - u \<le> maxDuration \<Longrightarrow> time_Sub t u = t - u"
  by (simp add: time_Sub_def)

end
