(* ===== verification/Job_Record.thy ===== *)
theory Job_Record
  imports Prelude
begin

text \<open>
  The job record of \<open>job_store.go\<close> and its JSON form. A byte slice written to the
  database is represented by what it encodes (\<open>blob\<close>): a JSON document or raw bytes.
  A JSON document is a tree; base64 strings and RFC 3339 timestamps keep the value they
  denote. \<open>Marshal\<close> follows the struct tags (field names, \<open>omitempty\<close>) and fails on a
  year outside 0..9999; \<open>Unmarshal\<close> leaves absent fields at their zero value and reports
  a value of the wrong kind. Strings are the bytes of valid UTF-8 text, which is what
  protobuf string fields and UUIDs hold.
\<close>

section \<open>Data\<close>

datatype json =
    JNull
  | JStr string
  | JNum int
  | JB64 bytes
  | JTime gotime
  | JArr "json list"
  | JObj "(string \<times> json) list"

datatype blob = Json json | Raw string

type_synonym JobStatus = string

definition StatusPending :: JobStatus where "StatusPending = ''PENDING''"
definition StatusRunning :: JobStatus where "StatusRunning = ''RUNNING''"
definition StatusDone :: JobStatus where "StatusDone = ''DONE''"
definition StatusFailed :: JobStatus where "StatusFailed = ''FAILED''"

record JobRecord =
  ID :: string
  Status :: JobStatus
  WorkerID :: string
  FunctionName :: string
  FunctionBytes :: bytes
  ArgsBytes :: bytes
  ResultBytes :: bytes
  ColdStartMs :: int64
  ExecutionMs :: int64
  IdempotencyKey :: string
  CreatedAt :: gotime
  UpdatedAt :: gotime
  RetryCount :: int64
  Error :: string
  Version :: int64

text \<open>Go's zero value of the struct.\<close>

definition zeroJob :: JobRecord where
  "zeroJob = \<lparr>ID = [], Status = [], WorkerID = [], FunctionName = [], FunctionBytes = [],
     ArgsBytes = [], ResultBytes = [], ColdStartMs = 0, ExecutionMs = 0, IdempotencyKey = [],
     CreatedAt = 0, UpdatedAt = 0, RetryCount = 0, Error = [], Version = 0\<rparr>"

definition terminal :: "JobRecord \<Rightarrow> bool" where
  "terminal r \<longleftrightarrow> Status r = StatusDone \<or> Status r = StatusFailed"

definition unfinished :: "JobRecord \<Rightarrow> bool" where
  "unfinished r \<longleftrightarrow> Status r = StatusPending \<or> Status r = StatusRunning"

section \<open>encoding/json on the struct\<close>

definition omitempty :: "bool \<Rightarrow> string \<Rightarrow> json \<Rightarrow> (string \<times> json) list" where
  "omitempty isempty k v = (if isempty then [] else [(k, v)])"

definition json_int :: "int64 \<Rightarrow> json" where
  "json_int w = JNum (sint w)"

definition job_fields :: "JobRecord \<Rightarrow> (string \<times> json) list" where
  "job_fields r =
     [(''id'', JStr (ID r)), (''status'', JStr (Status r))] @
     omitempty (WorkerID r = []) ''worker_id'' (JStr (WorkerID r)) @
     [(''function_name'', JStr (FunctionName r))] @
     omitempty (FunctionBytes r = []) ''function_bytes'' (JB64 (FunctionBytes r)) @
     omitempty (ArgsBytes r = []) ''args_bytes'' (JB64 (ArgsBytes r)) @
     omitempty (ResultBytes r = []) ''result_bytes'' (JB64 (ResultBytes r)) @
     omitempty (ColdStartMs r = 0) ''cold_start_ms'' (json_int (ColdStartMs r)) @
     omitempty (ExecutionMs r = 0) ''execution_ms'' (json_int (ExecutionMs r)) @
     omitempty (IdempotencyKey r = []) ''idempotency_key'' (JStr (IdempotencyKey r)) @
     [(''created_at'', JTime (CreatedAt r)), (''updated_at'', JTime (UpdatedAt r)),
      (''retry_count'', json_int (RetryCount r))] @
     omitempty (Error r = []) ''error'' (JStr (Error r)) @
     omitempty (Version r = 0) ''version'' (json_int (Version r))"

definition Marshal :: "JobRecord \<Rightarrow> json result" where
  "Marshal r =
     (if time_ok (CreatedAt r) \<and> time_ok (UpdatedAt r) then Inr (JObj (job_fields r))
      else Inl (Text ''Time.MarshalJSON: year outside of range [0,9999]''))"

definition type_error :: "string \<Rightarrow> go_error" where
  "type_error k = Text (''json: cannot unmarshal value into Go struct field '' @ k)"

definition field :: "(string \<times> json) list \<Rightarrow> string \<Rightarrow> (json \<Rightarrow> 'a option) \<Rightarrow> 'a \<Rightarrow> 'a result" where
  "field kvs k dec z =
     (case map_of kvs k of
        None \<Rightarrow> Inr z
      | Some v \<Rightarrow> (if v = JNull then Inr z
                   else case dec v of None \<Rightarrow> Inl (type_error k) | Some a \<Rightarrow> Inr a))"

fun dec_str :: "json \<Rightarrow> string option" where
  "dec_str (JStr s) = Some s"
| "dec_str _ = None"

fun dec_bytes :: "json \<Rightarrow> bytes option" where
  "dec_bytes (JB64 b) = Some b"
| "dec_bytes _ = None"

fun dec_time :: "json \<Rightarrow> gotime option" where
  "dec_time (JTime t) = (if time_ok t then Some t else None)"
| "dec_time _ = None"

fun dec_int64 :: "json \<Rightarrow> int64 option" where
  "dec_int64 (JNum n) = (if - (2 ^ 63) \<le> n \<and> n < 2 ^ 63 then Some (word_of_int n) else None)"
| "dec_int64 _ = None"

definition Unmarshal_fields :: "(string \<times> json) list \<Rightarrow> JobRecord result" where
  "Unmarshal_fields kvs =
     rbind (field kvs ''id'' dec_str []) (\<lambda>i.
     rbind (field kvs ''status'' dec_str []) (\<lambda>st.
     rbind (field kvs ''worker_id'' dec_str []) (\<lambda>w.
     rbind (field kvs ''function_name'' dec_str []) (\<lambda>fname.
     rbind (field kvs ''function_bytes'' dec_bytes []) (\<lambda>fb.
     rbind (field kvs ''args_bytes'' dec_bytes []) (\<lambda>ab.
     rbind (field kvs ''result_bytes'' dec_bytes []) (\<lambda>rb.
     rbind (field kvs ''cold_start_ms'' dec_int64 0) (\<lambda>cold.
     rbind (field kvs ''execution_ms'' dec_int64 0) (\<lambda>exec.
     rbind (field kvs ''idempotency_key'' dec_str []) (\<lambda>ik.
     rbind (field kvs ''created_at'' dec_time 0) (\<lambda>c.
     rbind (field kvs ''updated_at'' dec_time 0) (\<lambda>u.
     rbind (field kvs ''retry_count'' dec_int64 0) (\<lambda>rc.
     rbind (field kvs ''error'' dec_str []) (\<lambda>e.
     rbind (field kvs ''version'' dec_int64 0) (\<lambda>v.
     Inr \<lparr>ID = i, Status = st, WorkerID = w, FunctionName = fname, FunctionBytes = fb,
       ArgsBytes = ab, ResultBytes = rb, ColdStartMs = cold, ExecutionMs = exec,
       IdempotencyKey = ik, CreatedAt = c, UpdatedAt = u, RetryCount = rc, Error = e,
       Version = v\<rparr>)))))))))))))))"

fun Unmarshal :: "blob \<Rightarrow> JobRecord result" where
  "Unmarshal (Json (JObj kvs)) = Unmarshal_fields kvs"
| "Unmarshal (Json JNull) = Inr zeroJob"
| "Unmarshal (Json _) = Inl (type_error ''JobRecord'')"
| "Unmarshal (Raw s) = Inl (Text ''invalid character'')"

section \<open>Lemmas\<close>

lemma status_distinct [simp]:
  "StatusPending \<noteq> StatusRunning" "StatusRunning \<noteq> StatusPending"
  "StatusPending \<noteq> StatusDone" "StatusDone \<noteq> StatusPending"
  "StatusPending \<noteq> StatusFailed" "StatusFailed \<noteq> StatusPending"
  "StatusRunning \<noteq> StatusDone" "StatusDone \<noteq> StatusRunning"
  "StatusRunning \<noteq> StatusFailed" "StatusFailed \<noteq> StatusRunning"
  "StatusDone \<noteq> StatusFailed" "StatusFailed \<noteq> StatusDone"
  by (simp_all add: StatusPending_def StatusRunning_def StatusDone_def StatusFailed_def)

lemma unfinished_not_terminal: "unfinished r \<Longrightarrow> \<not> terminal r"
  by (auto simp: unfinished_def terminal_def)

lemma map_of_omitempty:
  "map_of (omitempty b k v @ kvs) k' = (if k' = k \<and> \<not> b then Some v else map_of kvs k')"
  by (simp add: omitempty_def)

lemma map_of_omitempty_last:
  "map_of (omitempty b k v) k' = (if k' = k \<and> \<not> b then Some v else None)"
  by (simp add: omitempty_def)

lemma dec_int64_json_int [simp]: "dec_int64 (json_int w) = Some w"
  using sint_bounds64 [of w] by (simp add: json_int_def)

lemma json_int_not_null [simp]: "json_int w \<noteq> JNull"
  by (simp add: json_int_def)

lemma Marshal_eq_Inr:
  "Marshal r = Inr j \<longleftrightarrow> time_ok (CreatedAt r) \<and> time_ok (UpdatedAt r) \<and> j = JObj (job_fields r)"
  by (auto simp: Marshal_def)

lemma map_of_job_fields:
  "map_of (job_fields r) ''id'' = Some (JStr (ID r))"
  "map_of (job_fields r) ''status'' = Some (JStr (Status r))"
  "map_of (job_fields r) ''worker_id'' = (if WorkerID r = [] then None else Some (JStr (WorkerID r)))"
  "map_of (job_fields r) ''function_name'' = Some (JStr (FunctionName r))"
  "map_of (job_fields r) ''function_bytes'' = (if FunctionBytes r = [] then None else Some (JB64 (FunctionBytes r)))"
  "map_of (job_fields r) ''args_bytes'' = (if ArgsBytes r = [] then None else Some (JB64 (ArgsBytes r)))"
  "map_of (job_fields r) ''result_bytes'' = (if ResultBytes r = [] then None else Some (JB64 (ResultBytes r)))"
  "map_of (job_fields r) ''cold_start_ms'' = (if ColdStartMs r = 0 then None else Some (json_int (ColdStartMs r)))"
  "map_of (job_fields r) ''execution_ms'' = (if ExecutionMs r = 0 then None else Some (json_int (ExecutionMs r)))"
  "map_of (job_fields r) ''idempotency_key'' = (if IdempotencyKey r = [] then None else Some (JStr (IdempotencyKey r)))"
  "map_of (job_fields r) ''created_at'' = Some (JTime (CreatedAt r))"
  "map_of (job_fields r) ''updated_at'' = Some (JTime (UpdatedAt r))"
  "map_of (job_fields r) ''retry_count'' = Some (json_int (RetryCount r))"
  "map_of (job_fields r) ''error'' = (if Error r = [] then None else Some (JStr (Error r)))"
  "map_of (job_fields r) ''version'' = (if Version r = 0 then None else Some (json_int (Version r)))"
  by (simp_all add: job_fields_def map_of_omitempty map_of_omitempty_last del: map_of_append)

lemma Unmarshal_Marshal [simp]: "Marshal r = Inr j \<Longrightarrow> Unmarshal (Json j) = Inr r"
  by (auto simp: Marshal_eq_Inr Unmarshal_fields_def field_def map_of_job_fields)

lemma dec_time_field_ok: "field kvs k dec_time 0 = Inr t \<Longrightarrow> time_ok t"
  by (auto simp: field_def time_ok_def Second_def Millisecond_def elim!: dec_time.elims
      split: option.splits if_splits)

lemma Unmarshal_times_ok:
  assumes "Unmarshal b = Inr r"
  shows "time_ok (CreatedAt r)" and "time_ok (UpdatedAt r)"
  using assms
  by (cases b rule: Unmarshal.cases;
      auto simp: Unmarshal_fields_def rbind_eq_Inr zeroJob_def time_ok_def Second_def Millisecond_def
        dest: dec_time_field_ok)+

section \<open>Properties\<close>

text \<open>
  C39: the JSON form of a job record is faithful. A record whose timestamps lie in the years
  0 to 9999 marshals, and what it marshals to reads back as the same record, every field
  and every omitted zero value included; any other record is refused.
\<close>
theorem job_json_roundtrip:
  "case Marshal r of
     Inr j \<Rightarrow> Unmarshal (Json j) = Inr r
   | Inl e \<Rightarrow> \<not> (time_ok (CreatedAt r) \<and> time_ok (UpdatedAt r))"
proof (cases "Marshal r")
  case (Inl e)
  then show ?thesis by (auto simp: Marshal_def split: if_splits)
next
  case (Inr j)
  then show ?thesis using Unmarshal_Marshal by simp
qed

end
