(* ===== verification/Bolt_API.thy ===== *)
theory Bolt_API
  imports Job_Record "HOL-Library.List_Lexorder" "HOL-Library.Char_ord"
begin

text \<open>
  The embedded database \<open>go.etcd.io/bbolt\<close>, a third-party package: its operations are a
  parameter (the record \<open>bolt_api\<close>, over an opaque database type) and what its
  documentation promises is the locale \<open>bolt_db\<close>. \<open>bolt_live\<close> adds that operations do
  not fail for an environmental reason (closed handle, full disk, a key outside the
  documented size, a bucket that is missing: the code deletes only buckets that
  \<open>NewBoltStore\<close> created). \<open>bolt_Update\<close> and \<open>bolt_View\<close> are the documented reading of the
  managed transactions: the closure runs on the transaction, an error rolls back, no error
  commits. A closure's captured variables are a value threaded through: they keep what the
  closure assigned even when the commit fails afterwards.

  \<open>mem_bolt\<close> is an in-memory database that satisfies the laws; it instantiates the
  parameter in concrete evaluations.
\<close>

record 'db bolt_api =
  bolt_Open :: "string \<Rightarrow> 'db result"
  bolt_Close :: "'db \<Rightarrow> go_error option"
  bolt_Begin :: "bool \<Rightarrow> 'db \<Rightarrow> 'db result"
  bolt_Commit :: "'db \<Rightarrow> 'db \<Rightarrow> 'db result"
  bolt_Get :: "'db \<Rightarrow> string \<Rightarrow> string \<Rightarrow> blob option"
  bolt_Put :: "'db \<Rightarrow> string \<Rightarrow> string \<Rightarrow> blob \<Rightarrow> 'db result"
  bolt_ForEach :: "'db \<Rightarrow> string \<Rightarrow> (string \<times> blob) list"
  bolt_CreateBucketIfNotExists :: "'db \<Rightarrow> string \<Rightarrow> 'db result"
  bolt_CreateBucket :: "'db \<Rightarrow> string \<Rightarrow> 'db result"
  bolt_DeleteBucket :: "'db \<Rightarrow> string \<Rightarrow> 'db result"

definition MaxKeySize :: nat where
  "MaxKeySize = 32768"

definition bolt_Update ::
  "'db bolt_api \<Rightarrow> ('db \<Rightarrow> 'db \<times> 'c \<times> go_error option) \<Rightarrow> 'c \<Rightarrow> 'db \<Rightarrow> 'db \<times> 'c \<times> go_error option" where
  "bolt_Update B f c0 db =
     (case bolt_Begin B True db of
        Inl e \<Rightarrow> (db, c0, Some e)
      | Inr tx \<Rightarrow>
          (case f tx of (tx', c, err) \<Rightarrow>
             (case err of
                Some e \<Rightarrow> (db, c, Some e)
              | None \<Rightarrow> (case bolt_Commit B db tx' of
                           Inl e \<Rightarrow> (db, c, Some e)
                         | Inr db' \<Rightarrow> (db', c, None)))))"

definition bolt_View ::
  "'db bolt_api \<Rightarrow> ('db \<Rightarrow> 'c \<times> go_error option) \<Rightarrow> 'c \<Rightarrow> 'db \<Rightarrow> 'c \<times> go_error option" where
  "bolt_View B f c0 db =
     (case bolt_Begin B False db of Inl e \<Rightarrow> (c0, Some e) | Inr tx \<Rightarrow> f tx)"

section \<open>The in-memory database\<close>

type_synonym mem_db = "string \<Rightarrow> (string \<times> blob) list"

definition mem_Put :: "mem_db \<Rightarrow> string \<Rightarrow> string \<Rightarrow> blob \<Rightarrow> mem_db result" where
  "mem_Put db b k v =
     (if k = [] then Inl (Sentinel (External ''key required''))
      else if MaxKeySize < length k then Inl (Sentinel (External ''key too large''))
      else Inr (db(b := (k, v) # db b)))"

definition mem_ForEach :: "mem_db \<Rightarrow> string \<Rightarrow> (string \<times> blob) list" where
  "mem_ForEach db b = map (\<lambda>k. (k, the (map_of (db b) k))) (sort (remdups (map fst (db b))))"

definition mem_bolt :: "mem_db bolt_api" where
  "mem_bolt = \<lparr>bolt_Open = (\<lambda>_. Inr (\<lambda>_. [])), bolt_Close = (\<lambda>_. None),
     bolt_Begin = (\<lambda>_ db. Inr db), bolt_Commit = (\<lambda>_ tx. Inr tx),
     bolt_Get = (\<lambda>db b k. map_of (db b) k), bolt_Put = mem_Put, bolt_ForEach = mem_ForEach,
     bolt_CreateBucketIfNotExists = (\<lambda>db b. Inr db),
     bolt_CreateBucket = (\<lambda>db b. Inr (db(b := []))),
     bolt_DeleteBucket = (\<lambda>db b. Inr (db(b := [])))\<rparr>"

section \<open>What the package promises\<close>

locale bolt_db =
  fixes B :: "'db bolt_api"
  assumes Begin_Get: "bolt_Begin B w db = Inr tx \<Longrightarrow> bolt_Get B tx = bolt_Get B db"
    and Commit_Get: "bolt_Commit B db tx = Inr db' \<Longrightarrow> bolt_Get B db' = bolt_Get B tx"
    and Put_Get: "bolt_Put B tx b k v = Inr tx' \<Longrightarrow>
      bolt_Get B tx' b' k' = (if b' = b \<and> k' = k then Some v else bolt_Get B tx b' k')"
    and Put_key: "bolt_Put B tx b k v = Inr tx' \<Longrightarrow> k \<noteq> [] \<and> length k \<le> MaxKeySize"
    and ForEach_Get: "map_of (bolt_ForEach B db b) = bolt_Get B db b"
    and ForEach_sorted: "sorted (map fst (bolt_ForEach B db b)) \<and> distinct (map fst (bolt_ForEach B db b))"
    and DeleteBucket_Get: "bolt_DeleteBucket B tx b = Inr tx' \<Longrightarrow>
      bolt_Get B tx' b' k = (if b' = b then None else bolt_Get B tx b' k)"
    and CreateBucket_Get: "bolt_CreateBucket B tx b = Inr tx' \<Longrightarrow>
      bolt_Get B tx' b' k = (if b' = b then None else bolt_Get B tx b' k)"
    and CreateBucketIfNotExists_Get:
      "bolt_CreateBucketIfNotExists B tx b = Inr tx' \<Longrightarrow> bolt_Get B tx' = bolt_Get B tx"
begin

lemma Update_cases:
  assumes "bolt_Update B f c0 db = (db', c, err)"
  obtains (not_begun) e where "db' = db" "c = c0" "err = Some e"
  | (rolled_back) tx tx' e where "bolt_Get B tx = bolt_Get B db" "f tx = (tx', c, Some e)"
      "db' = db" "err = Some e"
  | (commit_failed) tx tx' e where "bolt_Get B tx = bolt_Get B db" "f tx = (tx', c, None)"
      "db' = db" "err = Some e"
  | (committed) tx tx' where "bolt_Get B tx = bolt_Get B db" "f tx = (tx', c, None)"
      "bolt_Get B db' = bolt_Get B tx'" "err = None"
  using assms
  by (fastforce simp: bolt_Update_def dest: Begin_Get Commit_Get split: sum.splits prod.splits option.splits)

lemma View_cases:
  assumes "bolt_View B f c0 db = (c, err)"
  obtains (not_begun) e where "c = c0" "err = Some e"
  | (ran) tx where "bolt_Get B tx = bolt_Get B db" "f tx = (c, err)"
  using assms by (auto simp: bolt_View_def dest: Begin_Get split: sum.splits)

lemma finite_bucket: "finite (dom (bolt_Get B db b))"
  by (metis ForEach_Get finite_dom_map_of)

text \<open>\<open>ForEach\<close> visits the pairs of the bucket in the order of their keys.\<close>

lemma ForEach_eq:
  "bolt_ForEach B db b =
     map (\<lambda>k. (k, the (bolt_Get B db b k))) (sorted_list_of_set (dom (bolt_Get B db b)))"
proof -
  let ?l = "bolt_ForEach B db b"
  have keys: "map fst ?l = sorted_list_of_set (dom (bolt_Get B db b))"
    using ForEach_sorted [of db b] ForEach_Get [of db b, symmetric]
    by (simp add: dom_map_of_conv_image_fst sorted_list_of_set.idem_if_sorted_distinct
        flip: set_map)
  have "?l = map (\<lambda>k. (k, the (map_of ?l k))) (map fst ?l)"
    using ForEach_sorted [of db b] by (auto simp: map_idI intro!: map_idI [symmetric])
  then show ?thesis by (simp only: keys ForEach_Get)
qed

end

locale bolt_live = bolt_db +
  assumes Begin_live: "\<exists>tx. bolt_Begin B w db = Inr tx"
    and Commit_live: "\<exists>db'. bolt_Commit B db tx = Inr db'"
    and Put_live: "k \<noteq> [] \<Longrightarrow> length k \<le> MaxKeySize \<Longrightarrow> \<exists>tx'. bolt_Put B tx b k v = Inr tx'"
    and DeleteBucket_live: "\<exists>tx'. bolt_DeleteBucket B tx b = Inr tx'"
    and CreateBucket_live: "\<exists>tx'. bolt_CreateBucket B tx b = Inr tx'"
begin

lemma Update_live:
  assumes "bolt_Update B f c0 db = (db', c, err)"
  obtains tx tx' where "bolt_Get B tx = bolt_Get B db" "f tx = (tx', c, err)"
    "err = None \<longrightarrow> bolt_Get B db' = bolt_Get B tx'" "err \<noteq> None \<longrightarrow> db' = db"
proof -
  obtain tx where tx: "bolt_Begin B True db = Inr tx" using Begin_live by blast
  obtain tx' c' e' where f: "f tx = (tx', c', e')" by (cases "f tx") auto
  obtain db'' where "bolt_Commit B db tx' = Inr db''" using Commit_live by blast
  with assms tx f that [of tx tx'] show thesis
    by (auto simp: bolt_Update_def Begin_Get Commit_Get split: option.splits)
qed

lemma View_live:
  assumes "bolt_View B f c0 db = (c, err)"
  obtains tx where "bolt_Get B tx = bolt_Get B db" "f tx = (c, err)"
proof -
  obtain tx where "bolt_Begin B False db = Inr tx" using Begin_live by blast
  with assms that [of tx] show thesis by (auto simp: bolt_View_def Begin_Get)
qed

end

interpretation mb: bolt_live mem_bolt
proof (unfold_locales, goal_cases)
  case (5 db b)
  have "map_of (map (\<lambda>k. (k, the (map_of (db b) k))) xs) k
      = (if k \<in> set xs then Some (the (map_of (db b) k)) else None)" for xs k
    by (induction xs) auto
  then show ?case
    by (auto simp: mem_bolt_def mem_ForEach_def fun_eq_iff map_of_eq_None_iff)
      (metis domD domIff dom_map_of_conv_image_fst option.collapse)+
next
  case (6 db b)
  then show ?case by (simp add: mem_bolt_def mem_ForEach_def comp_def)
qed (auto simp: mem_bolt_def mem_Put_def split: if_splits)

end
