(* ===== verification/Store_Interface.thy ===== *)
theory Store_Interface
  imports Bolt_API
begin

text \<open>
  The \<open>Store\<close> interface of \<open>job_store.go\<close>: a Go interface value is a record of its
  methods over the implementation's state. \<open>time.Now\<close> is an argument. A mutator closure is
  a pure function of the record it is given; the last component of a \<open>Transition\<close> is the
  list of records the mutator was run on, from which a caller that assigns captured
  variables in the closure recovers them.

  The abstract store is two finite maps, jobs by ID and job IDs by idempotency key, with
  one specification per method (\<open>spec_\<close>). \<open>fallible_store\<close> is the contract every
  implementation meets: an operation has its specified effect or reports an error and
  leaves the store as it was. \<open>reliable_store\<close> adds that it does not fail by itself.
\<close>

section \<open>The interface\<close>

type_synonym mutator = "JobRecord \<Rightarrow> JobRecord result"

record 'st Store =
  PutJob :: "gotime \<Rightarrow> JobRecord \<Rightarrow> 'st \<Rightarrow> 'st \<times> go_error option"
  GetJob :: "string \<Rightarrow> 'st \<Rightarrow> JobRecord option result"
  Transition :: "gotime \<Rightarrow> string \<Rightarrow> mutator \<Rightarrow> 'st \<Rightarrow> 'st \<times> bool \<times> go_error option \<times> JobRecord list"
  SubmitWithIdempotency :: "gotime \<Rightarrow> JobRecord \<Rightarrow> string \<Rightarrow> 'st \<Rightarrow> 'st \<times> string \<times> bool \<times> go_error option"
  ListUnfinished :: "'st \<Rightarrow> JobRecord list \<times> go_error option"
  ListRunningOnWorker :: "string \<Rightarrow> 'st \<Rightarrow> JobRecord list \<times> go_error option"
  Ping :: "'st \<Rightarrow> go_error option"
  Close :: "'st \<Rightarrow> go_error option"

definition not_found :: "string \<Rightarrow> go_error" where
  "not_found jobID = Text (''job '' @ jobID @ '' not found'')"

text \<open>The timestamps every write through the public methods sets.\<close>

definition stamp :: "gotime \<Rightarrow> JobRecord \<Rightarrow> JobRecord" where
  "stamp now rec =
     (let rec1 = rec\<lparr>UpdatedAt := now\<rparr>
      in if IsZero (CreatedAt rec1) then rec1\<lparr>CreatedAt := UpdatedAt rec1\<rparr> else rec1)"

definition runningOn :: "string \<Rightarrow> JobRecord \<Rightarrow> bool" where
  "runningOn workerID r \<longleftrightarrow> Status r = StatusRunning \<and> WorkerID r = workerID"

section \<open>The abstract store\<close>

record abs_store =
  a_jobs :: "string \<rightharpoonup> JobRecord"
  a_idem :: "string \<rightharpoonup> string"

definition spec_PutJob :: "gotime \<Rightarrow> JobRecord \<Rightarrow> abs_store \<Rightarrow> abs_store" where
  "spec_PutJob now r a = a\<lparr>a_jobs := (a_jobs a)(ID r \<mapsto> stamp now r)\<rparr>"

definition spec_Transition ::
  "gotime \<Rightarrow> string \<Rightarrow> mutator \<Rightarrow> abs_store \<Rightarrow> abs_store \<times> bool \<times> go_error option \<times> JobRecord list" where
  "spec_Transition now jobID mutate a =
     (case a_jobs a jobID of
        None \<Rightarrow> (a, False, Some (not_found jobID), [])
      | Some r \<Rightarrow>
          (case mutate r of
             Inl e \<Rightarrow> (a, False, if e = Sentinel ErrSkipTransition then None else Some e, [r])
           | Inr r' \<Rightarrow> (a\<lparr>a_jobs := (a_jobs a)(jobID \<mapsto> stamp now r')\<rparr>, True, None, [r])))"

definition spec_Submit ::
  "gotime \<Rightarrow> JobRecord \<Rightarrow> string \<Rightarrow> abs_store \<Rightarrow> abs_store \<times> string \<times> bool \<times> go_error option" where
  "spec_Submit now rec key a =
     (case (if key = [] then None else a_idem a key) of
        Some existing \<Rightarrow> (a, existing, False, None)
      | None \<Rightarrow>
          (let rec' = stamp now (rec\<lparr>IdempotencyKey := key\<rparr>)
           in (a\<lparr>a_jobs := (a_jobs a)(ID rec' \<mapsto> rec'),
                 a_idem := (if key = [] then a_idem a else (a_idem a)(key \<mapsto> ID rec'))\<rparr>,
               ID rec', True, None)))"

text \<open>Scans of the jobs bucket come in key order.\<close>

definition spec_jobs :: "abs_store \<Rightarrow> JobRecord list" where
  "spec_jobs a = map (\<lambda>i. the (a_jobs a i)) (sorted_list_of_set (dom (a_jobs a)))"

text \<open>
  The shape of an abstract store: finitely many jobs, each filed under its own ID; every
  idempotency key is non-empty and leads to a stored job that carries it.
\<close>

definition abs_ok :: "abs_store \<Rightarrow> bool" where
  "abs_ok a \<longleftrightarrow> finite (dom (a_jobs a)) \<and> (\<forall>i r. a_jobs a i = Some r \<longrightarrow> ID r = i) \<and>
     (\<forall>k i. a_idem a k = Some i \<longrightarrow> k \<noteq> [] \<and> (\<exists>r. a_jobs a i = Some r \<and> IdempotencyKey r = k))"

text \<open>What the code's mutators never touch: identity, idempotency key and creation time.\<close>

definition mut_ok :: "mutator \<Rightarrow> bool" where
  "mut_ok f \<longleftrightarrow> (\<forall>r r'. f r = Inr r' \<longrightarrow>
     ID r' = ID r \<and> IdempotencyKey r' = IdempotencyKey r \<and> CreatedAt r' = CreatedAt r)"

section \<open>Lemmas on the abstract store\<close>

lemma stamp_simps [simp]:
  "ID (stamp now r) = ID r" "Status (stamp now r) = Status r" "WorkerID (stamp now r) = WorkerID r"
  "FunctionName (stamp now r) = FunctionName r" "FunctionBytes (stamp now r) = FunctionBytes r"
  "ArgsBytes (stamp now r) = ArgsBytes r" "ResultBytes (stamp now r) = ResultBytes r"
  "ColdStartMs (stamp now r) = ColdStartMs r" "ExecutionMs (stamp now r) = ExecutionMs r"
  "IdempotencyKey (stamp now r) = IdempotencyKey r" "RetryCount (stamp now r) = RetryCount r"
  "Error (stamp now r) = Error r" "Version (stamp now r) = Version r" "UpdatedAt (stamp now r) = now"
  by (simp_all add: stamp_def Let_def)

lemma stamp_CreatedAt: "CreatedAt (stamp now r) = (if CreatedAt r = 0 then now else CreatedAt r)"
  by (simp add: stamp_def IsZero_def Let_def)

lemma stamp_terminal [simp]:
  "terminal (stamp now r) = terminal r" "unfinished (stamp now r) = unfinished r"
  "runningOn w (stamp now r) = runningOn w r"
  by (simp_all add: terminal_def unfinished_def runningOn_def)

lemma not_found_not_skip [simp]: "not_found i \<noteq> Sentinel s" "\<not> errors_Is (not_found i) s"
  by (simp_all add: not_found_def)

lemma abs_ok_ID: "abs_ok a \<Longrightarrow> a_jobs a i = Some r \<Longrightarrow> ID r = i"
  by (auto simp: abs_ok_def)

lemma spec_Transition_abs_ok [keeps_wf]:
  assumes "abs_ok a" "mut_ok f" "spec_Transition now i f a = (a', c, e, runs)"
  shows "abs_ok a'"
  using assms
  by (fastforce simp: spec_Transition_def abs_ok_def mut_ok_def split: option.splits sum.splits if_splits)

lemma spec_Submit_abs_ok [keeps_wf]:
  assumes "abs_ok a" "a_jobs a (ID rec) = None" "spec_Submit now rec key a = (a', i, c, e)"
  shows "abs_ok a'"
  using assms
  by (fastforce simp: spec_Submit_def abs_ok_def Let_def split: option.splits if_splits)

lemma spec_Transition_other:
  "spec_Transition now i f a = (a', c, e, runs) \<Longrightarrow> j \<noteq> i \<Longrightarrow> a_jobs a' j = a_jobs a j"
  by (auto simp: spec_Transition_def split: option.splits sum.splits)

lemma set_spec_jobs: "finite (dom (a_jobs a)) \<Longrightarrow> set (spec_jobs a) = ran (a_jobs a)"
  by (force simp: spec_jobs_def ran_def dom_def image_iff)

lemma distinct_spec_jobs_ID:
  assumes "abs_ok a" shows "distinct (map ID (filter P (spec_jobs a)))"
proof -
  have "map ID (spec_jobs a) = sorted_list_of_set (dom (a_jobs a))"
    using assms by (auto simp: spec_jobs_def abs_ok_def intro!: map_idI)
  then have "distinct (map ID (spec_jobs a))" by simp
  then show ?thesis by (rule distinct_map_filter)
qed

section \<open>The contract\<close>

locale fallible_store =
  fixes S :: "'st Store" and abs :: "'st \<Rightarrow> abs_store" and inv :: "'st \<Rightarrow> bool"
  assumes abs_finite: "inv st \<Longrightarrow> finite (dom (a_jobs (abs st)))"
    and abs_ID: "inv st \<Longrightarrow> a_jobs (abs st) i = Some r \<Longrightarrow> ID r = i"
    and GetJob_fallible: "inv st \<Longrightarrow> GetJob S i st = Inr x \<Longrightarrow> x = a_jobs (abs st) i"
    and Transition_fallible: "inv st \<Longrightarrow> mut_ok f \<Longrightarrow> Transition S now i f st = (st', c, e, runs) \<Longrightarrow>
      inv st' \<and> ((abs st', c, e, runs) = spec_Transition now i f (abs st) \<or> abs st' = abs st \<and> e \<noteq> None)"
    and Submit_fallible: "inv st \<Longrightarrow> SubmitWithIdempotency S now rec key st = (st', i, c, e) \<Longrightarrow>
      inv st' \<and> ((abs st', i, c, e) = spec_Submit now rec key (abs st) \<or> abs st' = abs st \<and> e \<noteq> None)"
    and PutJob_fallible: "inv st \<Longrightarrow> PutJob S now rec st = (st', e) \<Longrightarrow>
      inv st' \<and> (if e = None then abs st' = spec_PutJob now rec (abs st) else abs st' = abs st)"
    and ListUnfinished_fallible: "inv st \<Longrightarrow> ListUnfinished S st = (l, None) \<Longrightarrow>
      l = filter unfinished (spec_jobs (abs st))"
    and ListRunningOnWorker_fallible: "inv st \<Longrightarrow> ListRunningOnWorker S w st = (l, None) \<Longrightarrow>
      l = filter (runningOn w) (spec_jobs (abs st))"

locale reliable_store = fallible_store +
  assumes GetJob_reliable: "inv st \<Longrightarrow> GetJob S i st = Inr (a_jobs (abs st) i)"
    and Transition_reliable: "inv st \<Longrightarrow> mut_ok f \<Longrightarrow> time_ok now \<Longrightarrow>
      Transition S now i f st = (st', c, e, runs) \<Longrightarrow> (abs st', c, e, runs) = spec_Transition now i f (abs st)"
    and Submit_reliable: "inv st \<Longrightarrow> time_ok now \<Longrightarrow> time_ok (CreatedAt rec) \<Longrightarrow> ID rec \<noteq> [] \<Longrightarrow>
      length (ID rec) \<le> MaxKeySize \<Longrightarrow> length key \<le> MaxKeySize \<Longrightarrow>
      SubmitWithIdempotency S now rec key st = (st', i, c, e) \<Longrightarrow>
      (abs st', i, c, e) = spec_Submit now rec key (abs st)"
    and ListUnfinished_reliable: "inv st \<Longrightarrow> snd (ListUnfinished S st) = None"
    and ListRunningOnWorker_reliable: "inv st \<Longrightarrow> snd (ListRunningOnWorker S w st) = None"


section \<open>Histories\<close>

text \<open>The calls that write, and a history of them.\<close>

datatype store_op =
    DoPut gotime JobRecord
  | DoTransition gotime string mutator
  | DoSubmit gotime JobRecord string

primrec run_op :: "'st Store \<Rightarrow> store_op \<Rightarrow> 'st \<Rightarrow> 'st" where
  "run_op S (DoPut now rec) st = fst (PutJob S now rec st)"
| "run_op S (DoTransition now i f) st = fst (Transition S now i f st)"
| "run_op S (DoSubmit now rec key) st = fst (SubmitWithIdempotency S now rec key st)"

definition op_ok :: "store_op \<Rightarrow> bool" where
  "op_ok op = (case op of DoTransition now i f \<Rightarrow> mut_ok f | _ \<Rightarrow> True)"

definition run_ops :: "'st Store \<Rightarrow> store_op list \<Rightarrow> 'st \<Rightarrow> 'st" where
  "run_ops S ops st = fold (run_op S) ops st"

lemma spec_Transition_idem [store_simps]: "a_idem (fst (spec_Transition now i f a)) = a_idem a"
  by (simp add: spec_Transition_def split: option.splits sum.splits)

lemma spec_PutJob_idem [store_simps]: "a_idem (spec_PutJob now r a) = a_idem a"
  by (simp add: spec_PutJob_def)

lemma spec_Submit_idem: "a_idem a k = Some i \<Longrightarrow> a_idem (fst (spec_Submit now rec key a)) k = Some i"
  by (auto simp: spec_Submit_def Let_def split: option.splits)

lemma spec_Submit_bound:
  "key \<noteq> [] \<Longrightarrow> a_idem a key = Some i \<Longrightarrow> spec_Submit now rec key a = (a, i, False, None)"
  by (simp add: spec_Submit_def)

context fallible_store
begin

text \<open>An idempotency key that is bound stays bound to the same job.\<close>

lemma run_op_idem:
  assumes "inv st" "op_ok op"
  shows "inv (run_op S op st) \<and> (a_idem (abs st) k = Some i \<longrightarrow> a_idem (abs (run_op S op st)) k = Some i)"
proof (cases op)
  case (DoPut now rec)
  obtain st' e where p: "PutJob S now rec st = (st', e)" by (cases "PutJob S now rec st")
  from PutJob_fallible [OF assms(1) p] p DoPut show ?thesis by (simp add: store_simps split: if_splits)
next
  case (DoTransition now j f)
  obtain st' c e runs where p: "Transition S now j f st = (st', c, e, runs)" by (cases "Transition S now j f st")
  from assms(2) DoTransition have "mut_ok f" by (simp add: op_ok_def)
  from Transition_fallible [OF assms(1) this p] have
    "inv st'" "abs st' = fst (spec_Transition now j f (abs st)) \<or> abs st' = abs st" by (metis fst_conv)+
  with p DoTransition show ?thesis by (auto simp: store_simps)
next
  case (DoSubmit now rec key)
  obtain st' j c e where p: "SubmitWithIdempotency S now rec key st = (st', j, c, e)"
    by (cases "SubmitWithIdempotency S now rec key st")
  from Submit_fallible [OF assms(1) p] have
    "inv st'" "abs st' = fst (spec_Submit now rec key (abs st)) \<or> abs st' = abs st" by (metis fst_conv)+
  with p DoSubmit show ?thesis by (auto simp: spec_Submit_idem)
qed

lemma run_ops_idem:
  assumes "inv st" "\<forall>op \<in> set ops. op_ok op"
  shows "inv (run_ops S ops st) \<and> (a_idem (abs st) k = Some i \<longrightarrow> a_idem (abs (run_ops S ops st)) k = Some i)"
  using assms
proof (induction ops arbitrary: st)
  case Nil
  then show ?case by (simp add: run_ops_def)
next
  case (Cons op ops)
  from run_op_idem [OF Cons.prems(1)] Cons.prems(2) Cons.IH [of "run_op S op st"] show ?case
    by (simp add: run_ops_def)
qed

lemma Submit_binds:
  assumes "inv st" "key \<noteq> []" "SubmitWithIdempotency S now rec key st = (st', i, c, None)"
  shows "inv st' \<and> a_idem (abs st') key = Some i"
  using Submit_fallible [OF assms(1,3)] assms(2)
  by (auto simp: spec_Submit_def Let_def split: option.splits if_splits)

text \<open>Every later submission under a key that was accepted once answers with that job.\<close>

lemma resubmit:
  assumes "inv st" "key \<noteq> []" "SubmitWithIdempotency S now rec key st = (st1, i, c, None)"
    "\<forall>op \<in> set ops. op_ok op"
    "SubmitWithIdempotency S now' rec' key (run_ops S ops st1) = (st2, i', c', e')"
  shows "abs st2 = abs (run_ops S ops st1) \<and> (e' = None \<longrightarrow> i' = i \<and> \<not> c')"
proof -
  from Submit_binds [OF assms(1,2,3)] run_ops_idem [OF _ assms(4)]
  have st: "inv (run_ops S ops st1)" "a_idem (abs (run_ops S ops st1)) key = Some i" by blast+
  from Submit_fallible [OF st(1) assms(5)] show ?thesis
    by (auto simp: spec_Submit_bound [OF assms(2) st(2)])
qed

end

end
