(* ===== verification/Bolt_Store.thy ===== *)
theory Bolt_Store
  imports Store_Interface
begin

text \<open>
  \<open>BoltStore\<close> of \<open>job_store.go\<close>, method by method, over the \<open>bolt_api\<close> parameter.
  \<open>store_abs\<close> decodes the two buckets into the abstract store and \<open>store_wf\<close> says that
  every value decodes. The methods refine the abstract specifications, so \<open>BoltStore\<close>
  meets \<open>fallible_store\<close> over any database that keeps its promises and
  \<open>reliable_store\<close> over a live one.
\<close>

section \<open>The methods\<close>

definition bucketJobs :: string where "bucketJobs = ''jobs''"
definition bucketWorkers :: string where "bucketWorkers = ''workers''"
definition bucketIdempotency :: string where "bucketIdempotency = ''idempotency''"

fun create_buckets :: "'db bolt_api \<Rightarrow> string list \<Rightarrow> 'db \<Rightarrow> 'db \<times> unit \<times> go_error option" where
  "create_buckets B [] tx = (tx, (), None)"
| "create_buckets B (name # names) tx =
     (case bolt_CreateBucketIfNotExists B tx name of
        Inl e \<Rightarrow> (tx, (), Some e)
      | Inr tx' \<Rightarrow> create_buckets B names tx')"

definition NewBoltStore :: "'db bolt_api \<Rightarrow> string \<Rightarrow> 'db result" where
  "NewBoltStore B path =
     (case bolt_Open B path of
        Inl e \<Rightarrow> Inl (Wrapf (''open boltdb at '' @ path @ '': '') e [])
      | Inr db \<Rightarrow>
          (case bolt_Update B (create_buckets B [bucketJobs, bucketWorkers, bucketIdempotency]) () db of
             (db', _, Some e) \<Rightarrow> Inl e
           | (db', _, None) \<Rightarrow> Inr db'))"

definition BoltStore_Close :: "'db bolt_api \<Rightarrow> 'db \<Rightarrow> go_error option" where
  "BoltStore_Close B db = bolt_Close B db"

definition BoltStore_Ping :: "'db bolt_api \<Rightarrow> 'db \<Rightarrow> go_error option" where
  "BoltStore_Ping B db = snd (bolt_View B (\<lambda>tx. ((), None)) () db)"

definition put_tx :: "'db bolt_api \<Rightarrow> string \<Rightarrow> string \<Rightarrow> blob \<Rightarrow> 'c \<Rightarrow> 'c \<Rightarrow> 'db \<Rightarrow> 'db \<times> 'c \<times> go_error option" where
  "put_tx B b k v bad good tx =
     (case bolt_Put B tx b k v of Inl e \<Rightarrow> (tx, bad, Some e) | Inr tx' \<Rightarrow> (tx', good, None))"

definition putJobRaw :: "'db bolt_api \<Rightarrow> JobRecord \<Rightarrow> 'db \<Rightarrow> 'db \<times> go_error option" where
  "putJobRaw B rec db =
     (case Marshal rec of
        Inl e \<Rightarrow> (db, Some e)
      | Inr buf \<Rightarrow>
          (case bolt_Update B (put_tx B bucketJobs (ID rec) (Json buf) () ()) () db of
             (db', _, err) \<Rightarrow> (db', err)))"

definition BoltStore_PutJob :: "'db bolt_api \<Rightarrow> gotime \<Rightarrow> JobRecord \<Rightarrow> 'db \<Rightarrow> 'db \<times> go_error option" where
  "BoltStore_PutJob B now rec db =
     (case Marshal (stamp now rec) of
        Inl e \<Rightarrow> (db, Some e)
      | Inr buf \<Rightarrow>
          (case bolt_Update B (put_tx B bucketJobs (ID rec) (Json buf) () ()) () db of
             (db', _, err) \<Rightarrow> (db', err)))"

definition BoltStore_GetJob :: "'db bolt_api \<Rightarrow> string \<Rightarrow> 'db \<Rightarrow> JobRecord option result" where
  "BoltStore_GetJob B i db =
     (case bolt_View B (\<lambda>tx.
             case bolt_Get B tx bucketJobs i of
               None \<Rightarrow> (None, None)
             | Some raw \<Rightarrow> (case Unmarshal raw of Inl e \<Rightarrow> (None, Some e) | Inr rec \<Rightarrow> (Some rec, None)))
           None db of
        (rec, None) \<Rightarrow> Inr rec
      | (rec, Some e) \<Rightarrow> Inl e)"

definition transition_tx ::
  "'db bolt_api \<Rightarrow> gotime \<Rightarrow> string \<Rightarrow> mutator \<Rightarrow> 'db \<Rightarrow> 'db \<times> (bool \<times> JobRecord list) \<times> go_error option" where
  "transition_tx B now jobID mutate tx =
     (case bolt_Get B tx bucketJobs jobID of
        None \<Rightarrow> (tx, (False, []), Some (not_found jobID))
      | Some raw \<Rightarrow>
          (case Unmarshal raw of
             Inl e \<Rightarrow> (tx, (False, []), Some e)
           | Inr rec \<Rightarrow>
               (case mutate rec of
                  Inl e \<Rightarrow> (tx, (False, [rec]), if e = Sentinel ErrSkipTransition then None else Some e)
                | Inr rec' \<Rightarrow>
                    (case Marshal (stamp now rec') of
                       Inl e \<Rightarrow> (tx, (False, [rec]), Some e)
                     | Inr buf \<Rightarrow>
                         put_tx B bucketJobs jobID (Json buf) (False, [rec]) (True, [rec]) tx))))"

definition BoltStore_Transition ::
  "'db bolt_api \<Rightarrow> gotime \<Rightarrow> string \<Rightarrow> mutator \<Rightarrow> 'db \<Rightarrow> 'db \<times> bool \<times> go_error option \<times> JobRecord list" where
  "BoltStore_Transition B now jobID mutate db =
     (case bolt_Update B (transition_tx B now jobID mutate) (False, []) db of
        (db', (committed, runs), err) \<Rightarrow> (db', committed, err, runs))"

text \<open>The loop body shared by the scans: decode each value, stop at the first error.\<close>

fun scan_jobs :: "(JobRecord \<Rightarrow> bool) \<Rightarrow> JobRecord list \<Rightarrow> (string \<times> blob) list \<Rightarrow> JobRecord list \<times> go_error option" where
  "scan_jobs P out [] = (out, None)"
| "scan_jobs P out ((k, v) # kvs) =
     (case Unmarshal v of
        Inl e \<Rightarrow> (out, Some e)
      | Inr rec \<Rightarrow> scan_jobs P (if P rec then out @ [rec] else out) kvs)"

definition BoltStore_ListUnfinished :: "'db bolt_api \<Rightarrow> 'db \<Rightarrow> JobRecord list \<times> go_error option" where
  "BoltStore_ListUnfinished B db =
     bolt_View B (\<lambda>tx. scan_jobs unfinished [] (bolt_ForEach B tx bucketJobs)) [] db"

definition BoltStore_ListRunningOnWorker :: "'db bolt_api \<Rightarrow> string \<Rightarrow> 'db \<Rightarrow> JobRecord list \<times> go_error option" where
  "BoltStore_ListRunningOnWorker B workerID db =
     bolt_View B (\<lambda>tx. scan_jobs (runningOn workerID) [] (bolt_ForEach B tx bucketJobs)) [] db"

text \<open>\<open>string(existing)\<close>: the idempotency bucket holds job IDs, never JSON.\<close>

fun blob_string :: "blob \<Rightarrow> string" where
  "blob_string (Raw s) = s"
| "blob_string (Json j) = []"

definition put_submit_tx ::
  "'db bolt_api \<Rightarrow> JobRecord \<Rightarrow> string \<Rightarrow> 'db \<Rightarrow> 'db \<times> (string \<times> bool) \<times> go_error option" where
  "put_submit_tx B rec key tx =
     (case Marshal rec of
        Inl e \<Rightarrow> (tx, ([], False), Some e)
      | Inr buf \<Rightarrow>
          (case bolt_Put B tx bucketJobs (ID rec) (Json buf) of
             Inl e \<Rightarrow> (tx, ([], False), Some e)
           | Inr tx1 \<Rightarrow>
               (if key \<noteq> [] then put_tx B bucketIdempotency key (Raw (ID rec)) ([], False) (ID rec, True) tx1
                else (tx1, (ID rec, True), None))))"

definition submitRaw_tx ::
  "'db bolt_api \<Rightarrow> JobRecord \<Rightarrow> string \<Rightarrow> 'db \<Rightarrow> 'db \<times> (string \<times> bool) \<times> go_error option" where
  "submitRaw_tx B rec key tx =
     (case (if key \<noteq> [] then bolt_Get B tx bucketIdempotency key else None) of
        Some existing \<Rightarrow> (tx, (blob_string existing, False), None)
      | None \<Rightarrow> put_submit_tx B rec key tx)"

definition submitRaw :: "'db bolt_api \<Rightarrow> JobRecord \<Rightarrow> string \<Rightarrow> 'db \<Rightarrow> 'db \<times> string \<times> bool \<times> go_error option" where
  "submitRaw B rec key db =
     (case bolt_Update B (submitRaw_tx B rec key) ([], False) db of
        (db', (jobID, created), err) \<Rightarrow> (db', jobID, created, err))"

definition submit_tx ::
  "'db bolt_api \<Rightarrow> gotime \<Rightarrow> JobRecord \<Rightarrow> string \<Rightarrow> 'db \<Rightarrow> 'db \<times> (string \<times> bool) \<times> go_error option" where
  "submit_tx B now rec key tx =
     (case (if key \<noteq> [] then bolt_Get B tx bucketIdempotency key else None) of
        Some existing \<Rightarrow> (tx, (blob_string existing, False), None)
      | None \<Rightarrow> put_submit_tx B (stamp now (rec\<lparr>IdempotencyKey := key\<rparr>)) key tx)"

definition BoltStore_SubmitWithIdempotency ::
  "'db bolt_api \<Rightarrow> gotime \<Rightarrow> JobRecord \<Rightarrow> string \<Rightarrow> 'db \<Rightarrow> 'db \<times> string \<times> bool \<times> go_error option" where
  "BoltStore_SubmitWithIdempotency B now rec key db =
     (case bolt_Update B (submit_tx B now rec key) ([], False) db of
        (db', (jobID, created), err) \<Rightarrow> (db', jobID, created, err))"

definition cas_tx :: "'db bolt_api \<Rightarrow> string \<Rightarrow> int64 \<Rightarrow> JobRecord \<Rightarrow> 'db \<Rightarrow> 'db \<times> bool \<times> go_error option" where
  "cas_tx B jobID expectedVersion rec tx =
     (case bolt_Get B tx bucketJobs jobID of
        None \<Rightarrow> (tx, False, Some (not_found jobID))
      | Some raw \<Rightarrow>
          (case Unmarshal raw of
             Inl e \<Rightarrow> (tx, False, Some e)
           | Inr cur \<Rightarrow>
               (if Version cur \<noteq> expectedVersion then (tx, True, None)
                else case Marshal rec of
                       Inl e \<Rightarrow> (tx, False, Some e)
                     | Inr buf \<Rightarrow> put_tx B bucketJobs jobID (Json buf) False False tx)))"

definition casPut :: "'db bolt_api \<Rightarrow> string \<Rightarrow> int64 \<Rightarrow> JobRecord \<Rightarrow> 'db \<Rightarrow> 'db \<times> bool \<times> go_error option" where
  "casPut B jobID expectedVersion rec db = bolt_Update B (cas_tx B jobID expectedVersion rec) False db"

text \<open>
  \<open>exportState\<close> and \<open>importState\<close>. The exported index is a Go map; the import ranges
  over it in an arbitrary order \<open>ks\<close>.
\<close>

definition exportState :: "'db bolt_api \<Rightarrow> 'db \<Rightarrow> JobRecord list \<times> (string \<rightharpoonup> string) \<times> go_error option" where
  "exportState B db =
     (case bolt_View B (\<lambda>tx.
             case scan_jobs (\<lambda>_. True) [] (bolt_ForEach B tx bucketJobs) of
               (jobs, Some e) \<Rightarrow> ((jobs, Map.empty), Some e)
             | (jobs, None) \<Rightarrow>
                 ((jobs, map_of (map (\<lambda>(k, v). (k, blob_string v)) (bolt_ForEach B tx bucketIdempotency))), None))
           ([], Map.empty) db of
        ((jobs, idem), err) \<Rightarrow> (jobs, idem, err))"

fun reset_buckets :: "'db bolt_api \<Rightarrow> string list \<Rightarrow> 'db \<Rightarrow> 'db result" where
  "reset_buckets B [] tx = Inr tx"
| "reset_buckets B (name # names) tx =
     rbind (bolt_DeleteBucket B tx name) (\<lambda>tx1.
     rbind (bolt_CreateBucket B tx1 name) (\<lambda>tx2.
     reset_buckets B names tx2))"

fun import_jobs :: "'db bolt_api \<Rightarrow> JobRecord list \<Rightarrow> 'db \<Rightarrow> 'db result" where
  "import_jobs B [] tx = Inr tx"
| "import_jobs B (rec # recs) tx =
     rbind (Marshal rec) (\<lambda>buf.
     rbind (bolt_Put B tx bucketJobs (ID rec) (Json buf)) (\<lambda>tx'.
     import_jobs B recs tx'))"

fun import_idem :: "'db bolt_api \<Rightarrow> (string \<rightharpoonup> string) \<Rightarrow> string list \<Rightarrow> 'db \<Rightarrow> 'db result" where
  "import_idem B idem [] tx = Inr tx"
| "import_idem B idem (k # ks) tx =
     rbind (bolt_Put B tx bucketIdempotency k (Raw (the (idem k)))) (\<lambda>tx'.
     import_idem B idem ks tx')"

definition import_tx ::
  "'db bolt_api \<Rightarrow> JobRecord list \<Rightarrow> (string \<rightharpoonup> string) \<Rightarrow> string list \<Rightarrow> 'db \<Rightarrow> 'db \<times> unit \<times> go_error option" where
  "import_tx B jobs idem ks tx =
     (case rbind (reset_buckets B [bucketJobs, bucketIdempotency] tx) (\<lambda>tx1.
           rbind (import_jobs B jobs tx1) (\<lambda>tx2. import_idem B idem ks tx2)) of
        Inl e \<Rightarrow> (tx, (), Some e)
      | Inr tx' \<Rightarrow> (tx', (), None))"

definition importState ::
  "'db bolt_api \<Rightarrow> JobRecord list \<Rightarrow> (string \<rightharpoonup> string) \<Rightarrow> string list \<Rightarrow> 'db \<Rightarrow> 'db \<times> go_error option" where
  "importState B jobs idem ks db =
     (case bolt_Update B (import_tx B jobs idem ks) () db of (db', _, err) \<Rightarrow> (db', err))"

definition BoltStore :: "'db bolt_api \<Rightarrow> 'db Store" where
  "BoltStore B = \<lparr>PutJob = BoltStore_PutJob B, GetJob = BoltStore_GetJob B,
     Transition = BoltStore_Transition B, SubmitWithIdempotency = BoltStore_SubmitWithIdempotency B,
     ListUnfinished = BoltStore_ListUnfinished B, ListRunningOnWorker = BoltStore_ListRunningOnWorker B,
     Ping = BoltStore_Ping B, Close = BoltStore_Close B\<rparr>"

section \<open>The abstract store a database stands for\<close>

definition job_at :: "(string \<Rightarrow> string \<Rightarrow> blob option) \<Rightarrow> string \<Rightarrow> JobRecord option" where
  "job_at g i = (case g bucketJobs i of None \<Rightarrow> None
     | Some v \<Rightarrow> (case Unmarshal v of Inl e \<Rightarrow> None | Inr r \<Rightarrow> Some r))"

definition contents_abs :: "(string \<Rightarrow> string \<Rightarrow> blob option) \<Rightarrow> abs_store" where
  "contents_abs g = \<lparr>a_jobs = job_at g, a_idem = (\<lambda>k. map_option blob_string (g bucketIdempotency k))\<rparr>"

definition contents_wf :: "(string \<Rightarrow> string \<Rightarrow> blob option) \<Rightarrow> bool" where
  "contents_wf g \<longleftrightarrow>
     (\<forall>i v. g bucketJobs i = Some v \<longrightarrow>
        i \<noteq> [] \<and> length i \<le> MaxKeySize \<and> (\<exists>r. Unmarshal v = Inr r \<and> ID r = i)) \<and>
     (\<forall>k v. g bucketIdempotency k = Some v \<longrightarrow> k \<noteq> [] \<and> length k \<le> MaxKeySize \<and> (\<exists>s. v = Raw s))"

definition store_abs :: "'db bolt_api \<Rightarrow> 'db \<Rightarrow> abs_store" where
  "store_abs B db = contents_abs (bolt_Get B db)"

definition store_wf :: "'db bolt_api \<Rightarrow> 'db \<Rightarrow> bool" where
  "store_wf B db \<longleftrightarrow> contents_wf (bolt_Get B db)"


section \<open>Lemmas on the decoded contents\<close>

lemma buckets_distinct [simp]: "bucketJobs \<noteq> bucketIdempotency" "bucketIdempotency \<noteq> bucketJobs"
  by (simp_all add: bucketJobs_def bucketIdempotency_def)

lemma contents_abs_simps [simp]:
  "a_jobs (contents_abs g) = job_at g"
  "a_idem (contents_abs g) k = map_option blob_string (g bucketIdempotency k)"
  by (simp_all add: contents_abs_def)

lemma contents_wf_job:
  assumes "contents_wf g" "g bucketJobs i = Some v"
  obtains r where "Unmarshal v = Inr r" "ID r = i" "i \<noteq> []" "length i \<le> MaxKeySize"
    "time_ok (CreatedAt r)" "job_at g i = Some r"
proof -
  from assms obtain r where "Unmarshal v = Inr r" "ID r = i" "i \<noteq> []" "length i \<le> MaxKeySize"
    by (auto simp: contents_wf_def)
  with that [of r] assms show thesis by (auto simp: job_at_def dest: Unmarshal_times_ok)
qed

lemma contents_wf_job_at: "contents_wf g \<Longrightarrow> job_at g i = None \<longleftrightarrow> g bucketJobs i = None"
  by (fastforce simp: contents_wf_def job_at_def split: option.splits sum.splits)

lemma contents_wf_ID: "contents_wf g \<Longrightarrow> job_at g i = Some r \<Longrightarrow> ID r = i"
  by (fastforce simp: contents_wf_def job_at_def split: option.splits sum.splits)

lemma dom_job_at: "contents_wf g \<Longrightarrow> dom (job_at g) = dom (g bucketJobs)"
  by (simp add: dom_def contents_wf_job_at)

lemma Marshal_stamp_ok:
  "time_ok now \<Longrightarrow> time_ok (CreatedAt r) \<Longrightarrow> \<exists>j. Marshal (stamp now r) = Inr j"
  by (simp add: Marshal_eq_Inr stamp_CreatedAt)

lemma scan_jobs_eq:
  assumes "\<forall>(k, v) \<in> set kvs. Unmarshal v = Inr (g k)"
  shows "scan_jobs P out kvs = (out @ filter P (map (g \<circ> fst) kvs), None)"
  using assms by (induction kvs arbitrary: out) auto

context bolt_db
begin

lemma put_job_contents:
  assumes "bolt_Put B tx bucketJobs (ID r) (Json j) = Inr tx'" "Marshal r = Inr j"
  shows "contents_abs (bolt_Get B tx') =
      (contents_abs (bolt_Get B tx))\<lparr>a_jobs := (job_at (bolt_Get B tx))(ID r \<mapsto> r)\<rparr>"
    and "contents_wf (bolt_Get B tx) \<Longrightarrow> contents_wf (bolt_Get B tx')"
  using assms Put_Get [OF assms(1)] Put_key [OF assms(1)]
  by (auto simp: contents_abs_def job_at_def fun_eq_iff contents_wf_def)

lemma put_idem_contents:
  assumes "bolt_Put B tx bucketIdempotency k (Raw s) = Inr tx'"
  shows "contents_abs (bolt_Get B tx') =
      (contents_abs (bolt_Get B tx))\<lparr>a_idem := (a_idem (contents_abs (bolt_Get B tx)))(k \<mapsto> s)\<rparr>"
    and "contents_wf (bolt_Get B tx) \<Longrightarrow> contents_wf (bolt_Get B tx')"
  using assms Put_Get [OF assms] Put_key [OF assms]
  by (auto simp: contents_abs_def job_at_def fun_eq_iff contents_wf_def)

lemma scan_jobs_contents:
  assumes "contents_wf (bolt_Get B tx)"
  shows "scan_jobs P [] (bolt_ForEach B tx bucketJobs) =
     (filter P (spec_jobs (contents_abs (bolt_Get B tx))), None)"
proof -
  let ?g = "\<lambda>k. the (job_at (bolt_Get B tx) k)"
  have "\<forall>(k, v) \<in> set (bolt_ForEach B tx bucketJobs). Unmarshal v = Inr (?g k)"
  proof clarify
    fix k v assume "(k, v) \<in> set (bolt_ForEach B tx bucketJobs)"
    then have "bolt_Get B tx bucketJobs k = Some v"
      using ForEach_sorted [of tx bucketJobs] ForEach_Get [of tx bucketJobs]
      by (metis map_of_eq_Some_iff)
    with assms show "Unmarshal v = Inr (?g k)" by (auto elim: contents_wf_job)
  qed
  note scan = scan_jobs_eq [OF this, of P "[]"]
  show ?thesis
    unfolding scan by (simp add: spec_jobs_def ForEach_eq dom_job_at [OF assms] comp_def)
qed


lemma transition_tx_spec:
  assumes wf: "contents_wf (bolt_Get B tx)" and f: "mut_ok f"
    and run: "transition_tx B now i f tx = (tx', (c, runs), e)"
  shows "e = None \<Longrightarrow> contents_wf (bolt_Get B tx') \<and>
      (contents_abs (bolt_Get B tx'), c, e, runs) = spec_Transition now i f (contents_abs (bolt_Get B tx))"
    and "e \<noteq> None \<Longrightarrow> c = False"
proof -
  { assume "e = None"
    with run obtain v where v: "bolt_Get B tx bucketJobs i = Some v"
      by (auto simp: transition_tx_def split: option.splits)
    with wf obtain r where r: "Unmarshal v = Inr r" "ID r = i" "job_at (bolt_Get B tx) i = Some r"
      by (auto elim: contents_wf_job)
    show "contents_wf (bolt_Get B tx') \<and>
      (contents_abs (bolt_Get B tx'), c, e, runs) = spec_Transition now i f (contents_abs (bolt_Get B tx))"
    proof (cases "f r")
      case (Inl err)
      with run v r wf \<open>e = None\<close> show ?thesis
        by (auto simp: transition_tx_def spec_Transition_def split: if_splits)
    next
      case (Inr r')
      then have "ID (stamp now r') = i" using f r by (simp add: mut_ok_def)
      with Inr run v r \<open>e = None\<close> obtain j where
        j: "Marshal (stamp now r') = Inr j" "bolt_Put B tx bucketJobs (ID (stamp now r')) (Json j) = Inr tx'"
           "c" "runs = [r]"
        by (auto simp: transition_tx_def put_tx_def split: sum.splits)
      from put_job_contents [OF j(2,1)] wf j Inr r \<open>e = None\<close> \<open>ID (stamp now r') = i\<close>
      show ?thesis by (simp add: spec_Transition_def)
    qed }
  show "e \<noteq> None \<Longrightarrow> c = False"
    using run by (auto simp: transition_tx_def put_tx_def split: option.splits sum.splits)
qed

lemma Transition_refines:
  assumes "store_wf B db" "mut_ok f" "BoltStore_Transition B now i f db = (db', c, e, runs)"
  shows "store_wf B db' \<and> ((store_abs B db', c, e, runs) = spec_Transition now i f (store_abs B db)
    \<or> store_abs B db' = store_abs B db \<and> e \<noteq> None)"
proof -
  from assms(3) have "bolt_Update B (transition_tx B now i f) (False, []) db = (db', (c, runs), e)"
    by (auto simp: BoltStore_Transition_def split: prod.splits)
  then show ?thesis
  proof (cases rule: Update_cases)
    case (committed tx tx')
    with transition_tx_spec(1) [of tx f now i tx' c runs None] assms show ?thesis
      by (simp add: store_wf_def store_abs_def)
  qed (use assms in auto)
qed

lemma put_submit_tx_cases:
  assumes "put_submit_tx B r key tx = (tx', (i, c), None)"
  shows "\<exists>j tx1. Marshal r = Inr j \<and> bolt_Put B tx bucketJobs (ID r) (Json j) = Inr tx1 \<and> i = ID r \<and> c \<and>
    (if key = [] then tx' = tx1 else bolt_Put B tx1 bucketIdempotency key (Raw (ID r)) = Inr tx')"
  using assms
  by (cases "key = []") (auto simp: put_submit_tx_def put_tx_def split: sum.splits)

lemma submitRaw_tx_spec:
  assumes wf: "contents_wf (bolt_Get B tx)"
    and run: "submitRaw_tx B r key tx = (tx', (i, c), None)"
  shows "contents_wf (bolt_Get B tx') \<and>
     (case (if key = [] then None else a_idem (contents_abs (bolt_Get B tx)) key) of
        Some existing \<Rightarrow> contents_abs (bolt_Get B tx') = contents_abs (bolt_Get B tx) \<and> i = existing \<and> \<not> c
      | None \<Rightarrow> contents_abs (bolt_Get B tx') =
          \<lparr>a_jobs = (job_at (bolt_Get B tx))(ID r \<mapsto> r),
           a_idem = (if key = [] then a_idem (contents_abs (bolt_Get B tx))
                     else (a_idem (contents_abs (bolt_Get B tx)))(key \<mapsto> ID r))\<rparr> \<and> i = ID r \<and> c)"
proof (cases "if key = [] then None else bolt_Get B tx bucketIdempotency key")
  case (Some v)
  with run wf show ?thesis by (auto simp: submitRaw_tx_def split: if_splits)
next
  case None
  with run have "put_submit_tx B r key tx = (tx', (i, c), None)"
    by (cases "key = []") (simp_all add: submitRaw_tx_def)
  then obtain j tx1 where j: "Marshal r = Inr j" and p1: "bolt_Put B tx bucketJobs (ID r) (Json j) = Inr tx1"
    and ic: "i = ID r" "c" and p2: "if key = [] then tx' = tx1
      else bolt_Put B tx1 bucketIdempotency key (Raw (ID r)) = Inr tx'"
    by (blast dest: put_submit_tx_cases)
  note c1 = put_job_contents [OF p1 j]
  show ?thesis
  proof (cases "key = []")
    case True
    with c1 p2 wf ic show ?thesis by (auto simp: contents_abs_def)
  next
    case False
    with p2 have "bolt_Put B tx1 bucketIdempotency key (Raw (ID r)) = Inr tx'" by simp
    note c2 = put_idem_contents [OF this]
    from False c1 c2 wf ic None show ?thesis by (auto simp: contents_abs_def)
  qed
qed

lemma submit_tx_eq: "submit_tx B now rec key = submitRaw_tx B (stamp now (rec\<lparr>IdempotencyKey := key\<rparr>)) key"
  by (simp add: fun_eq_iff submit_tx_def submitRaw_tx_def)

lemma submit_tx_spec:
  assumes "contents_wf (bolt_Get B tx)" "submit_tx B now rec key tx = (tx', (i, c), None)"
  shows "contents_wf (bolt_Get B tx') \<and>
    (contents_abs (bolt_Get B tx'), i, c, None) = spec_Submit now rec key (contents_abs (bolt_Get B tx))"
  using submitRaw_tx_spec [OF assms(1) assms(2) [unfolded submit_tx_eq]]
  by (auto simp: spec_Submit_def Let_def split: option.splits if_splits)

lemma Submit_refines:
  assumes "store_wf B db" "BoltStore_SubmitWithIdempotency B now rec key db = (db', i, c, e)"
  shows "store_wf B db' \<and> ((store_abs B db', i, c, e) = spec_Submit now rec key (store_abs B db)
    \<or> store_abs B db' = store_abs B db \<and> e \<noteq> None)"
proof -
  from assms(2) have "bolt_Update B (submit_tx B now rec key) ([], False) db = (db', (i, c), e)"
    by (auto simp: BoltStore_SubmitWithIdempotency_def split: prod.splits)
  then show ?thesis
  proof (cases rule: Update_cases)
    case (committed tx tx')
    with submit_tx_spec [of tx now rec key tx' i c] assms show ?thesis
      by (simp add: store_wf_def store_abs_def)
  qed (use assms in auto)
qed

lemma put_tx_refines:
  assumes "Marshal r = Inr j" "store_wf B db"
    "bolt_Update B (put_tx B bucketJobs (ID r) (Json j) () ()) () db = (db', u, e)"
  shows "store_wf B db' \<and> store_abs B db' =
    (if e = None then (store_abs B db)\<lparr>a_jobs := (a_jobs (store_abs B db))(ID r \<mapsto> r)\<rparr> else store_abs B db)"
  using assms(3)
proof (cases rule: Update_cases)
  case (committed tx tx')
  then have "bolt_Put B tx bucketJobs (ID r) (Json j) = Inr tx'"
    by (auto simp: put_tx_def split: sum.splits)
  from put_job_contents [OF this assms(1)] committed assms(2) show ?thesis
    by (simp add: store_wf_def store_abs_def)
qed (use assms in auto)

lemma PutJob_refines:
  assumes "store_wf B db" "BoltStore_PutJob B now rec db = (db', e)"
  shows "store_wf B db' \<and> (if e = None then store_abs B db' = spec_PutJob now rec (store_abs B db)
    else store_abs B db' = store_abs B db)"
proof (cases "Marshal (stamp now rec)")
  case (Inl err)
  with assms show ?thesis by (auto simp: BoltStore_PutJob_def)
next
  case (Inr j)
  with assms(2) have "bolt_Update B (put_tx B bucketJobs (ID (stamp now rec)) (Json j) () ()) () db = (db', (), e)"
    by (auto simp: BoltStore_PutJob_def split: prod.splits)
  from put_tx_refines [OF Inr assms(1) this] show ?thesis by (auto simp: spec_PutJob_def)
qed

lemma putJobRaw_refines:
  assumes "store_wf B db" "putJobRaw B rec db = (db', e)"
  shows "store_wf B db' \<and> store_abs B db' =
    (if e = None then (store_abs B db)\<lparr>a_jobs := (a_jobs (store_abs B db))(ID rec \<mapsto> rec)\<rparr> else store_abs B db)"
proof (cases "Marshal rec")
  case (Inl err)
  with assms show ?thesis by (auto simp: putJobRaw_def)
next
  case (Inr j)
  with assms(2) have "bolt_Update B (put_tx B bucketJobs (ID rec) (Json j) () ()) () db = (db', (), e)"
    by (auto simp: putJobRaw_def split: prod.splits)
  from put_tx_refines [OF Inr assms(1) this] show ?thesis .
qed

end


context bolt_db
begin

lemma GetJob_refines:
  assumes "store_wf B db" "BoltStore_GetJob B i db = Inr x"
  shows "x = a_jobs (store_abs B db) i"
proof -
  from assms(2) have "bolt_View B (\<lambda>tx. case bolt_Get B tx bucketJobs i of None \<Rightarrow> (None, None)
      | Some raw \<Rightarrow> (case Unmarshal raw of Inl e \<Rightarrow> (None, Some e) | Inr rec \<Rightarrow> (Some rec, None))) None db
      = (x, None)"
    by (auto simp: BoltStore_GetJob_def split: prod.splits option.splits)
  then show ?thesis
  proof (cases rule: View_cases)
    case (ran tx)
    then show ?thesis
      by (auto simp: store_abs_def job_at_def split: option.splits sum.splits)
  qed simp
qed

lemma List_refines:
  assumes "store_wf B db" "bolt_View B (\<lambda>tx. scan_jobs P [] (bolt_ForEach B tx bucketJobs)) [] db = (l, None)"
  shows "l = filter P (spec_jobs (store_abs B db))"
  using assms(2)
proof (cases rule: View_cases)
  case (ran tx)
  with scan_jobs_contents [of tx P] assms(1) show ?thesis by (simp add: store_wf_def store_abs_def)
qed simp

lemma store_abs_finite: "store_wf B db \<Longrightarrow> finite (dom (a_jobs (store_abs B db)))"
  by (simp add: store_wf_def store_abs_def dom_job_at finite_bucket)

lemma casPut_refines:
  assumes "store_wf B db" "ID r = i" "casPut B i v r db = (db', conflict, e)"
  shows "store_wf B db' \<and> (e \<noteq> None \<longrightarrow> store_abs B db' = store_abs B db) \<and>
    (e = None \<longrightarrow> (\<exists>cur. a_jobs (store_abs B db) i = Some cur \<and> conflict = (Version cur \<noteq> v) \<and>
       store_abs B db' = (if conflict then store_abs B db
         else (store_abs B db)\<lparr>a_jobs := (a_jobs (store_abs B db))(i \<mapsto> r)\<rparr>)))"
proof -
  from assms(3) have "bolt_Update B (cas_tx B i v r) False db = (db', conflict, e)"
    by (simp add: casPut_def)
  then show ?thesis
  proof (cases rule: Update_cases)
    case (committed tx tx')
    then obtain raw where raw: "bolt_Get B db bucketJobs i = Some raw"
      by (auto simp: cas_tx_def split: option.splits)
    with assms(1) obtain cur where cur: "Unmarshal raw = Inr cur" "job_at (bolt_Get B db) i = Some cur"
      unfolding store_wf_def by (rule contents_wf_job) blast
    show ?thesis
    proof (cases "Version cur = v")
      case False
      with committed raw cur assms(1) show ?thesis
        by (auto simp: cas_tx_def store_abs_def store_wf_def)
    next
      case True
      with committed raw cur assms(2) obtain j where j: "Marshal r = Inr j" and c: "\<not> conflict"
        and p: "bolt_Put B tx bucketJobs (ID r) (Json j) = Inr tx'"
        by (auto simp: cas_tx_def put_tx_def split: sum.splits)
      from put_job_contents [OF p j] committed True c cur assms show ?thesis
        by (auto simp: store_abs_def store_wf_def)
    qed
  qed (use assms in auto)
qed

lemma submitRaw_refines:
  assumes "store_wf B db" "submitRaw B r key db = (db', i, c, e)"
  shows "store_wf B db' \<and> (e \<noteq> None \<longrightarrow> store_abs B db' = store_abs B db) \<and>
    (e = None \<longrightarrow>
     (case (if key = [] then None else a_idem (store_abs B db) key) of
        Some existing \<Rightarrow> store_abs B db' = store_abs B db \<and> i = existing \<and> \<not> c
      | None \<Rightarrow> store_abs B db' =
          \<lparr>a_jobs = (a_jobs (store_abs B db))(ID r \<mapsto> r),
           a_idem = (if key = [] then a_idem (store_abs B db) else (a_idem (store_abs B db))(key \<mapsto> ID r))\<rparr>
          \<and> i = ID r \<and> c))"
proof -
  from assms(2) have "bolt_Update B (submitRaw_tx B r key) ([], False) db = (db', (i, c), e)"
    by (auto simp: submitRaw_def split: prod.splits)
  then show ?thesis
  proof (cases rule: Update_cases)
    case (committed tx tx')
    from assms(1) submitRaw_tx_spec [OF _ committed(2)] show ?thesis
      unfolding store_wf_def store_abs_def committed(1) committed(3) committed(4) contents_abs_simps(1)
      by (simp del: contents_abs_simps)
  qed (use assms in auto)
qed

text \<open>The contract, for every database that keeps its promises.\<close>

lemma BoltStore_fallible: "fallible_store (BoltStore B) (store_abs B) (store_wf B)"
proof (unfold_locales, goal_cases)
  case (1 st) then show ?case by (rule store_abs_finite)
next
  case (2 st i r) then show ?case by (simp add: store_abs_def store_wf_def contents_wf_ID)
next
  case (3 st i x) then show ?case by (simp add: BoltStore_def GetJob_refines)
next
  case (4 st f now i st' c e runs) then show ?case using Transition_refines [of st f now i st' c e runs] by (simp add: BoltStore_def)
next
  case (5 st now rec key st' i c e) then show ?case using Submit_refines [of st now rec key st' i c e] by (simp add: BoltStore_def)
next
  case (6 st now rec st' e) then show ?case using PutJob_refines [of st now rec st' e] by (simp add: BoltStore_def)
next
  case (7 st l) then show ?case
    using List_refines [of st unfinished l] by (simp add: BoltStore_def BoltStore_ListUnfinished_def)
next
  case (8 st w l) then show ?case
    using List_refines [of st "runningOn w" l] by (simp add: BoltStore_def BoltStore_ListRunningOnWorker_def)
qed

end

sublocale bolt_db \<subseteq> fs: fallible_store "BoltStore B" "store_abs B" "store_wf B"
  by (rule BoltStore_fallible)

context bolt_live
begin

lemma transition_tx_live:
  assumes "contents_wf (bolt_Get B tx)" "mut_ok f" "time_ok now"
    and "transition_tx B now i f tx = (tx', (c, runs), Some err)"
  shows "spec_Transition now i f (contents_abs (bolt_Get B tx)) = (contents_abs (bolt_Get B tx), c, Some err, runs)"
proof (cases "bolt_Get B tx bucketJobs i")
  case None
  with assms show ?thesis by (auto simp: transition_tx_def spec_Transition_def job_at_def)
next
  case (Some v)
  with assms(1) obtain r where r: "Unmarshal v = Inr r" "ID r = i" "i \<noteq> []" "length i \<le> MaxKeySize"
    "time_ok (CreatedAt r)" "job_at (bolt_Get B tx) i = Some r" by (rule contents_wf_job)
  show ?thesis
  proof (cases "f r")
    case (Inl e)
    with assms Some r show ?thesis
      by (auto simp: transition_tx_def spec_Transition_def split: if_splits)
  next
    case (Inr r')
    then have "time_ok (CreatedAt r')" using assms(2) r by (simp add: mut_ok_def)
    with assms(3) obtain j where "Marshal (stamp now r') = Inr j" using Marshal_stamp_ok by blast
    moreover obtain tx1 where "bolt_Put B tx bucketJobs i (Json j) = Inr tx1"
      using Put_live r by blast
    ultimately show ?thesis using assms Some r Inr by (auto simp: transition_tx_def put_tx_def)
  qed
qed

lemma Transition_live:
  assumes "store_wf B db" "mut_ok f" "time_ok now" "BoltStore_Transition B now i f db = (db', c, e, runs)"
  shows "(store_abs B db', c, e, runs) = spec_Transition now i f (store_abs B db)"
proof -
  from assms(4) have "bolt_Update B (transition_tx B now i f) (False, []) db = (db', (c, runs), e)"
    by (auto simp: BoltStore_Transition_def split: prod.splits)
  then obtain tx tx' where tx: "bolt_Get B tx = bolt_Get B db" "transition_tx B now i f tx = (tx', (c, runs), e)"
    "e = None \<longrightarrow> bolt_Get B db' = bolt_Get B tx'" "e \<noteq> None \<longrightarrow> db' = db"
    by (rule Update_live)
  show ?thesis
  proof (cases e)
    case None
    with tx transition_tx_spec(1) [of tx f now i tx' c runs e] assms show ?thesis
      by (simp add: store_wf_def store_abs_def)
  next
    case (Some err)
    with tx transition_tx_live [of tx f now i tx' c runs err] assms show ?thesis
      by (simp add: store_wf_def store_abs_def)
  qed
qed

lemma submit_tx_live:
  assumes "time_ok now" "time_ok (CreatedAt rec)" "ID rec \<noteq> []" "length (ID rec) \<le> MaxKeySize"
    "length key \<le> MaxKeySize"
  shows "snd (snd (submit_tx B now rec key tx)) = None"
proof -
  let ?r = "stamp now (rec\<lparr>IdempotencyKey := key\<rparr>)"
  obtain j where j: "Marshal ?r = Inr j" using Marshal_stamp_ok [of now "rec\<lparr>IdempotencyKey := key\<rparr>"] assms by auto
  obtain tx1 where p1: "bolt_Put B tx bucketJobs (ID ?r) (Json j) = Inr tx1" using Put_live assms by fastforce
  show ?thesis
  proof (cases "key = []")
    case True
    with j p1 show ?thesis by (simp add: submit_tx_def put_submit_tx_def)
  next
    case False
    then obtain tx2 where "bolt_Put B tx1 bucketIdempotency key (Raw (ID ?r)) = Inr tx2"
      using Put_live assms by blast
    with False j p1 show ?thesis
      by (auto simp: submit_tx_def put_submit_tx_def put_tx_def split: option.splits)
  qed
qed

lemma Submit_live:
  assumes "store_wf B db" "time_ok now" "time_ok (CreatedAt rec)" "ID rec \<noteq> []"
    "length (ID rec) \<le> MaxKeySize" "length key \<le> MaxKeySize"
    "BoltStore_SubmitWithIdempotency B now rec key db = (db', i, c, e)"
  shows "(store_abs B db', i, c, e) = spec_Submit now rec key (store_abs B db)"
proof -
  from assms(7) have "bolt_Update B (submit_tx B now rec key) ([], False) db = (db', (i, c), e)"
    by (auto simp: BoltStore_SubmitWithIdempotency_def split: prod.splits)
  then obtain tx tx' where tx: "submit_tx B now rec key tx = (tx', (i, c), e)"
    by (rule Update_live)
  with submit_tx_live [OF assms(2-6), of tx] have "e = None" by auto
  with Submit_refines [OF assms(1,7)] show ?thesis by simp
qed

lemma View_scan_live:
  assumes "store_wf B db"
  shows "snd (bolt_View B (\<lambda>tx. scan_jobs P [] (bolt_ForEach B tx bucketJobs)) [] db) = None"
proof -
  obtain l e where v: "bolt_View B (\<lambda>tx. scan_jobs P [] (bolt_ForEach B tx bucketJobs)) [] db = (l, e)"
    by (cases "bolt_View B (\<lambda>tx. scan_jobs P [] (bolt_ForEach B tx bucketJobs)) [] db")
  then obtain tx where "bolt_Get B tx = bolt_Get B db" "scan_jobs P [] (bolt_ForEach B tx bucketJobs) = (l, e)"
    by (rule View_live)
  with scan_jobs_contents [of tx P] assms v show ?thesis by (simp add: store_wf_def)
qed

lemma GetJob_live:
  assumes "store_wf B db"
  shows "BoltStore_GetJob B i db = Inr (a_jobs (store_abs B db) i)"
proof -
  obtain tx where tx: "bolt_Begin B False db = Inr tx" using Begin_live by blast
  then have "bolt_Get B tx = bolt_Get B db" by (rule Begin_Get)
  with tx assms show ?thesis
    by (auto simp: BoltStore_GetJob_def bolt_View_def store_abs_def job_at_def store_wf_def
        elim: contents_wf_job split: option.splits)
qed

lemma BoltStore_reliable: "reliable_store (BoltStore B) (store_abs B) (store_wf B)"
proof (unfold_locales, goal_cases)
  case (1 st i) then show ?case by (simp add: BoltStore_def GetJob_live)
next
  case (2 st f now i st' c e runs) then show ?case by (simp add: BoltStore_def Transition_live)
next
  case (3 st now rec key st' i c e) then show ?case by (simp add: BoltStore_def Submit_live)
next
  case (4 st) then show ?case by (simp add: BoltStore_def BoltStore_ListUnfinished_def View_scan_live)
next
  case (5 st w) then show ?case by (simp add: BoltStore_def BoltStore_ListRunningOnWorker_def View_scan_live)
qed

end

sublocale bolt_live \<subseteq> rs: reliable_store "BoltStore B" "store_abs B" "store_wf B"
  by (rule BoltStore_reliable)


section \<open>Snapshot export and import\<close>

lemma spec_jobs_map_of:
  assumes "finite (dom (a_jobs a))" "\<And>i r. a_jobs a i = Some r \<Longrightarrow> ID r = i"
  shows "map_of (rev (map (\<lambda>r. (ID r, r)) (spec_jobs a))) = a_jobs a"
proof -
  have eq: "map (\<lambda>r. (ID r, r)) (spec_jobs a)
      = map (\<lambda>i. (i, the (a_jobs a i))) (sorted_list_of_set (dom (a_jobs a)))"
    using assms by (auto simp: spec_jobs_def)
  have "distinct (map fst (map (\<lambda>r. (ID r, r)) (spec_jobs a)))"
    unfolding eq by (simp add: comp_def)
  then have "map_of (rev (map (\<lambda>r. (ID r, r)) (spec_jobs a))) = map_of (map (\<lambda>r. (ID r, r)) (spec_jobs a))"
    by (rule map_of_rev_distinct)
  also have "\<dots> = a_jobs a"
    unfolding eq map_of_map_restrict
    using assms(1) by (auto simp: fun_eq_iff restrict_map_def dom_def)
  finally show ?thesis .
qed

context bolt_db
begin

lemma exportState_refines:
  assumes "store_wf B db" "exportState B db = (jobs, idem, None)"
  shows "jobs = spec_jobs (store_abs B db) \<and> idem = a_idem (store_abs B db)"
proof -
  have idem: "map_of (map (\<lambda>(k, v). (k, blob_string v)) (bolt_ForEach B tx b))
      = (\<lambda>k. map_option blob_string (bolt_Get B tx b k))" for tx b
    by (simp add: map_of_map ForEach_Get fun_eq_iff)
  from assms(2) have "bolt_View B (\<lambda>tx.
             case scan_jobs (\<lambda>_. True) [] (bolt_ForEach B tx bucketJobs) of
               (jobs, Some e) \<Rightarrow> ((jobs, Map.empty), Some e)
             | (jobs, None) \<Rightarrow>
                 ((jobs, map_of (map (\<lambda>(k, v). (k, blob_string v)) (bolt_ForEach B tx bucketIdempotency))), None))
           ([], Map.empty) db = ((jobs, idem), None)"
    by (auto simp: exportState_def split: prod.splits)
  then show ?thesis
  proof (cases rule: View_cases)
    case (ran tx)
    with scan_jobs_contents [of tx "\<lambda>_. True"] assms(1) show ?thesis
      by (simp add: store_wf_def store_abs_def idem fun_eq_iff)
  qed simp
qed

lemma import_jobs_contents:
  assumes "import_jobs B recs tx = Inr tx'"
  shows "contents_abs (bolt_Get B tx') = (contents_abs (bolt_Get B tx))\<lparr>a_jobs :=
      job_at (bolt_Get B tx) ++ map_of (rev (map (\<lambda>r. (ID r, r)) recs))\<rparr>"
    and "contents_wf (bolt_Get B tx) \<Longrightarrow> contents_wf (bolt_Get B tx')"
proof -
  have "contents_abs (bolt_Get B tx') = (contents_abs (bolt_Get B tx))\<lparr>a_jobs :=
      job_at (bolt_Get B tx) ++ map_of (rev (map (\<lambda>r. (ID r, r)) recs))\<rparr> \<and>
      (contents_wf (bolt_Get B tx) \<longrightarrow> contents_wf (bolt_Get B tx'))"
    using assms
  proof (induction recs arbitrary: tx)
    case Nil
    then show ?case by (simp add: contents_abs_def)
  next
    case (Cons r recs)
    then obtain j tx1 where j: "Marshal r = Inr j" "bolt_Put B tx bucketJobs (ID r) (Json j) = Inr tx1"
      and rest: "import_jobs B recs tx1 = Inr tx'" by (auto simp: rbind_eq_Inr)
    note c1 = put_job_contents [OF j(2,1)]
    have "a_jobs (contents_abs (bolt_Get B tx1)) = (job_at (bolt_Get B tx))(ID r \<mapsto> r)"
      unfolding c1(1) by simp
    then have j1: "job_at (bolt_Get B tx1) = (job_at (bolt_Get B tx))(ID r \<mapsto> r)" by simp
    from c1(2) show ?case
      unfolding conjunct1 [OF Cons.IH [OF rest]] j1 c1(1) using Cons.IH [OF rest] by simp
  qed
  then show "contents_abs (bolt_Get B tx') = (contents_abs (bolt_Get B tx))\<lparr>a_jobs :=
      job_at (bolt_Get B tx) ++ map_of (rev (map (\<lambda>r. (ID r, r)) recs))\<rparr>"
    and "contents_wf (bolt_Get B tx) \<Longrightarrow> contents_wf (bolt_Get B tx')" by auto
qed

lemma import_idem_contents:
  assumes "import_idem B idem ks tx = Inr tx'"
  shows "contents_abs (bolt_Get B tx') = (contents_abs (bolt_Get B tx))\<lparr>a_idem :=
      (\<lambda>k. if k \<in> set ks then Some (the (idem k)) else a_idem (contents_abs (bolt_Get B tx)) k)\<rparr> \<and>
      (contents_wf (bolt_Get B tx) \<longrightarrow> contents_wf (bolt_Get B tx'))"
  using assms
proof (induction ks arbitrary: tx)
  case Nil
  then show ?case by (simp add: contents_abs_def)
next
  case (Cons k ks)
  then obtain tx1 where p: "bolt_Put B tx bucketIdempotency k (Raw (the (idem k))) = Inr tx1"
    and rest: "import_idem B idem ks tx1 = Inr tx'" by (auto simp: rbind_eq_Inr)
  from put_idem_contents [OF p] Cons.IH [OF rest] show ?case
    by (auto simp: contents_abs_def fun_eq_iff)
qed

lemma reset_buckets_contents:
  assumes "reset_buckets B [bucketJobs, bucketIdempotency] tx = Inr tx'"
  shows "contents_abs (bolt_Get B tx') = \<lparr>a_jobs = Map.empty, a_idem = Map.empty\<rparr>"
    and "contents_wf (bolt_Get B tx')"
proof -
  from assms obtain t1 t2 t3 where t: "bolt_DeleteBucket B tx bucketJobs = Inr t1"
    "bolt_CreateBucket B t1 bucketJobs = Inr t2" "bolt_DeleteBucket B t2 bucketIdempotency = Inr t3"
    "bolt_CreateBucket B t3 bucketIdempotency = Inr tx'" by (auto simp: rbind_eq_Inr)
  have "bolt_Get B tx' bucketJobs k = None" "bolt_Get B tx' bucketIdempotency k = None" for k
    using DeleteBucket_Get [OF t(3)] CreateBucket_Get [OF t(2)] CreateBucket_Get [OF t(4)] by simp_all
  then show "contents_abs (bolt_Get B tx') = \<lparr>a_jobs = Map.empty, a_idem = Map.empty\<rparr>"
    and "contents_wf (bolt_Get B tx')"
    by (simp_all add: contents_abs_def contents_wf_def job_at_def fun_eq_iff)
qed

lemma importState_refines:
  assumes "range_order idem ks" "importState B jobs idem ks db = (db', None)"
  shows "store_wf B db' \<and> store_abs B db' =
     \<lparr>a_jobs = map_of (rev (map (\<lambda>r. (ID r, r)) jobs)), a_idem = idem\<rparr>"
proof -
  from assms(2) have "bolt_Update B (import_tx B jobs idem ks) () db = (db', (), None)"
    by (auto simp: importState_def split: prod.splits)
  then show ?thesis
  proof (cases rule: Update_cases)
    case (committed tx tx')
    then obtain t1 t2 where t: "reset_buckets B [bucketJobs, bucketIdempotency] tx = Inr t1"
      "import_jobs B jobs t1 = Inr t2" "import_idem B idem ks t2 = Inr tx'"
      by (auto simp: import_tx_def rbind_eq_Inr split: sum.splits)
    note r = reset_buckets_contents [OF t(1)]
    have e1: "job_at (bolt_Get B t1) = Map.empty" using r(1) by (simp add: contents_abs_def)
    have idem: "(\<lambda>k. if k \<in> set ks then Some (the (idem k)) else None) = idem"
      using assms(1) by (auto simp: range_order_def fun_eq_iff)
    have i2: "a_idem (contents_abs (bolt_Get B t2)) = Map.empty"
      using r(1) import_jobs_contents(1) [OF t(2)] by (simp del: contents_abs_simps)
    note i = import_idem_contents [OF t(3)]
    have "contents_abs (bolt_Get B tx') = (contents_abs (bolt_Get B t2))\<lparr>a_idem := idem\<rparr>"
      unfolding conjunct1 [OF i] i2 idem by (rule refl)
    then show ?thesis
      using r i import_jobs_contents [OF t(2)] e1 committed
      by (simp add: store_wf_def store_abs_def del: contents_abs_simps)
  qed auto
qed

end


section \<open>A concrete database\<close>

definition demo_job :: JobRecord where
  "demo_job = zeroJob\<lparr>ID := ''j1'', Status := StatusRunning, WorkerID := ''w1'', FunctionBytes := [1],
     IdempotencyKey := ''k'', CreatedAt := 7, UpdatedAt := 7, Version := 1\<rparr>"

definition demo_db :: mem_db where
  "demo_db = (\<lambda>b. if b = bucketJobs then [(''j1'', Json (JObj (job_fields demo_job)))]
     else if b = bucketIdempotency then [(''k'', Raw ''j1'')] else [])"

definition finish :: mutator where
  "finish r = Inr (r\<lparr>Status := StatusDone\<rparr>)"

lemma mut_ok_finish: "mut_ok finish"
  by (simp add: mut_ok_def finish_def)

lemma demo_decodes: "Unmarshal_fields (job_fields demo_job) = Inr demo_job"
proof -
  have "Marshal demo_job = Inr (JObj (job_fields demo_job))"
    by (simp add: Marshal_def demo_job_def zeroJob_def time_ok_def Second_def Millisecond_def)
  from Unmarshal_Marshal [OF this] show ?thesis by simp
qed

lemma demo_ID: "ID demo_job = ''j1''"
  by (simp add: demo_job_def)

lemma demo_wf: "store_wf mem_bolt demo_db"
  by (auto simp: store_wf_def contents_wf_def mem_bolt_def demo_db_def demo_decodes demo_ID MaxKeySize_def
      split: if_splits)

lemma demo_abs: "store_abs mem_bolt demo_db = \<lparr>a_jobs = [''j1'' \<mapsto> demo_job], a_idem = [''k'' \<mapsto> ''j1'']\<rparr>"
  by (auto simp: store_abs_def contents_abs_def mem_bolt_def demo_db_def job_at_def demo_decodes fun_eq_iff)

lemmas mem_bolt_live = mb.bolt_live_axioms
lemmas mem_bolt_db = mb.bolt_db_axioms

section \<open>Properties\<close>

text \<open>
  C3: \<open>Transition\<close> on a live database is the specified atomic read-modify-write of one
  job: an absent job is reported, a mutator error leaves the store alone (the skip
  sentinel silently), and otherwise exactly that job becomes the stamped mutated record.
\<close>
theorem bolt_Transition_spec:
  assumes "bolt_live B" "store_wf B db" "mut_ok f" "time_ok now"
    and "BoltStore_Transition B now i f db = (db', c, e, runs)"
  shows "store_wf B db' \<and> (store_abs B db', c, e, runs) = spec_Transition now i f (store_abs B db)"
proof -
  from assms(1) have "bolt_db B" by (rule bolt_live.axioms)
  from bolt_db.Transition_refines [OF this assms(2,3,5)] bolt_live.Transition_live [OF assms]
  show ?thesis by blast
qed

theorem bolt_Transition_spec_witness:
  "case BoltStore_Transition mem_bolt 9 ''j1'' finish demo_db of (db', c, e, runs) \<Rightarrow>
     c \<and> e = None \<and> runs = [demo_job] \<and>
     a_jobs (store_abs mem_bolt db') ''j1'' = Some (demo_job\<lparr>Status := StatusDone, UpdatedAt := 9\<rparr>)"
proof -
  obtain db' c e runs where t: "BoltStore_Transition mem_bolt 9 ''j1'' finish demo_db = (db', c, e, runs)"
    by (cases "BoltStore_Transition mem_bolt 9 ''j1'' finish demo_db")
  have "time_ok 9" by (simp add: time_ok_def Second_def Millisecond_def)
  from bolt_Transition_spec [OF mem_bolt_live demo_wf mut_ok_finish this t] show ?thesis
    by (simp add: t demo_abs spec_Transition_def finish_def stamp_def demo_job_def IsZero_def Let_def)
qed

text \<open>
  C23: over any database that keeps its transaction promises, faults included, a
  \<open>Transition\<close> either has exactly the specified effect and answer or reports an error and
  leaves every job and every idempotency key as it was.
\<close>
theorem bolt_Transition_all_or_nothing:
  assumes "bolt_db B" "store_wf B db" "mut_ok f"
    and "BoltStore_Transition B now i f db = (db', c, e, runs)"
  shows "store_wf B db' \<and> ((store_abs B db', c, e, runs) = spec_Transition now i f (store_abs B db) \<or>
    (store_abs B db' = store_abs B db \<and> e \<noteq> None))"
  using bolt_db.Transition_refines [OF assms] .

theorem bolt_Transition_all_or_nothing_witness:
  "case BoltStore_Transition mem_bolt 9 ''zz'' finish demo_db of (db', c, e, runs) \<Rightarrow>
     store_wf mem_bolt db' \<and> e \<noteq> None \<and> store_abs mem_bolt db' = store_abs mem_bolt demo_db"
proof -
  obtain db' c e runs where t: "BoltStore_Transition mem_bolt 9 ''zz'' finish demo_db = (db', c, e, runs)"
    by (cases "BoltStore_Transition mem_bolt 9 ''zz'' finish demo_db")
  from bolt_Transition_all_or_nothing [OF mem_bolt_db demo_wf mut_ok_finish t] show ?thesis
    by (auto simp: t demo_abs spec_Transition_def)
qed

text \<open>
  C8: first writer wins. Once a submission under a non-empty idempotency key has been
  accepted, any later submission under that key, after any history of writes, leaves the
  store as it was and answers with the first job's ID and created = false.
\<close>
theorem bolt_resubmit_is_noop:
  assumes "bolt_db B" "store_wf B db" "key \<noteq> []"
    and "SubmitWithIdempotency (BoltStore B) now rec key db = (db1, i, c, None)"
    and "\<forall>op \<in> set ops. op_ok op"
    and "SubmitWithIdempotency (BoltStore B) now' rec' key (run_ops (BoltStore B) ops db1) = (db2, i', c', e')"
  shows "store_abs B db2 = store_abs B (run_ops (BoltStore B) ops db1) \<and> (e' = None \<longrightarrow> i' = i \<and> \<not> c')"
  by (rule fallible_store.resubmit [OF bolt_db.BoltStore_fallible [OF assms(1)] assms(2-6)])

theorem bolt_resubmit_is_noop_witness:
  "case SubmitWithIdempotency (BoltStore mem_bolt) 9 (zeroJob\<lparr>ID := ''j2''\<rparr>) ''kk'' demo_db of (db1, i, c, e) \<Rightarrow>
     i = ''j2'' \<and> c \<and>
     (case SubmitWithIdempotency (BoltStore mem_bolt) 11 (zeroJob\<lparr>ID := ''j3''\<rparr>) ''kk''
             (run_ops (BoltStore mem_bolt) [DoTransition 10 ''j2'' finish] db1) of (db2, i', c', e') \<Rightarrow>
        e' = None \<longrightarrow> i' = ''j2'' \<and> \<not> c')"
proof -
  let ?S = "BoltStore mem_bolt"
  obtain db1 i c e where s1: "SubmitWithIdempotency ?S 9 (zeroJob\<lparr>ID := ''j2''\<rparr>) ''kk'' demo_db = (db1, i, c, e)"
    by (cases "SubmitWithIdempotency ?S 9 (zeroJob\<lparr>ID := ''j2''\<rparr>) ''kk'' demo_db")
  then have "(store_abs mem_bolt db1, i, c, e) = spec_Submit 9 (zeroJob\<lparr>ID := ''j2''\<rparr>) ''kk'' (store_abs mem_bolt demo_db)"
    by (intro mb.Submit_live demo_wf)
      (simp_all add: BoltStore_def zeroJob_def time_ok_def Second_def Millisecond_def MaxKeySize_def)
  then have 1: "i = ''j2''" "c" "e = None" by (simp_all add: demo_abs spec_Submit_def)
  let ?db = "run_ops ?S [DoTransition 10 ''j2'' finish] db1"
  obtain db2 i' c' e' where s2: "SubmitWithIdempotency ?S 11 (zeroJob\<lparr>ID := ''j3''\<rparr>) ''kk'' ?db = (db2, i', c', e')"
    by (cases "SubmitWithIdempotency ?S 11 (zeroJob\<lparr>ID := ''j3''\<rparr>) ''kk'' ?db")
  from s1 1 bolt_resubmit_is_noop [OF mem_bolt_db demo_wf _ _ _ s2, of 9 "zeroJob\<lparr>ID := ''j2''\<rparr>" i c] show ?thesis
    by (simp add: s2 op_ok_def mut_ok_finish)
qed

text \<open>
  C38: the recovery scan. On a live database \<open>ListUnfinished\<close> returns without error
  exactly the PENDING and RUNNING jobs, each once, in the order of their IDs.
\<close>
theorem bolt_ListUnfinished_complete:
  assumes "bolt_live B" "store_wf B db"
  shows "case ListUnfinished (BoltStore B) db of (l, e) \<Rightarrow>
    e = None \<and> set l = {r. (\<exists>i. a_jobs (store_abs B db) i = Some r) \<and> unfinished r} \<and>
    distinct l \<and> sorted (map ID l)"
proof -
  note R = bolt_live.BoltStore_reliable [OF assms(1)]
  note F = reliable_store.axioms(1) [OF R]
  obtain l e where l: "ListUnfinished (BoltStore B) db = (l, e)" by (cases "ListUnfinished (BoltStore B) db")
  let ?a = "store_abs B db"
  from reliable_store.ListUnfinished_reliable [OF R assms(2)] l have e: "e = None" by simp
  with fallible_store.ListUnfinished_fallible [OF F assms(2)] l have l': "l = filter unfinished (spec_jobs ?a)" by simp
  have ids: "map ID (spec_jobs ?a) = sorted_list_of_set (dom (a_jobs ?a))"
    using fallible_store.abs_ID [OF F assms(2)] fallible_store.abs_finite [OF F assms(2)]
    by (auto simp: spec_jobs_def intro!: map_idI)
  then have "distinct (map ID (spec_jobs ?a))" "sorted (map ID (spec_jobs ?a))" by simp_all
  then have "distinct l" "sorted (map ID l)"
    unfolding l' by (simp_all add: distinct_map sorted_filter)
  moreover have "set l = {r. (\<exists>i. a_jobs ?a i = Some r) \<and> unfinished r}"
    using set_spec_jobs [OF fallible_store.abs_finite [OF F assms(2)]] by (auto simp: l' ran_def)
  ultimately show ?thesis using l e by simp
qed

theorem bolt_ListUnfinished_complete_witness:
  "demo_job \<in> set (fst (ListUnfinished (BoltStore mem_bolt) demo_db))"
  using bolt_ListUnfinished_complete [OF mem_bolt_live demo_wf]
  by (auto simp: demo_abs case_prod_beta unfinished_def) (simp add: demo_job_def)

text \<open>
  The flag \<open>committed\<close> alone is not evidence of a commit. There is a database that
  keeps its transaction promises, whose commit fails, on which \<open>Transition\<close> answers
  committed = true together with the error while the stored job is unchanged.
\<close>
theorem bolt_Transition_commit_failure:
  "\<exists>(B :: mem_db bolt_api) db err.
     bolt_db B \<and> store_wf B db \<and> store_abs B db = store_abs mem_bolt demo_db \<and>
     BoltStore_Transition B 9 ''j1'' finish db = (db, True, Some err, [demo_job])"
proof -
  let ?err = "Sentinel (External ''no space left on device'')"
  let ?B = "mem_bolt\<lparr>bolt_Commit := (\<lambda>_ _. Inl ?err)\<rparr>"
  have "bolt_db ?B"
    using mb.ForEach_Get mb.ForEach_sorted mb.Put_Get mb.Put_key mb.DeleteBucket_Get mb.CreateBucket_Get
      mb.CreateBucketIfNotExists_Get mb.Begin_Get
    by unfold_locales (auto simp: mem_bolt_def)
  moreover have get: "bolt_Get ?B = bolt_Get mem_bolt" by simp
  then have "store_wf ?B demo_db" "store_abs ?B demo_db = store_abs mem_bolt demo_db"
    using demo_wf by (simp_all only: store_wf_def store_abs_def)
  moreover have "BoltStore_Transition ?B 9 ''j1'' finish demo_db = (demo_db, True, Some ?err, [demo_job])"
    by (simp add: BoltStore_Transition_def bolt_Update_def transition_tx_def mem_bolt_def demo_db_def
        demo_decodes finish_def put_tx_def mem_Put_def MaxKeySize_def Marshal_def stamp_def IsZero_def
        time_ok_def Second_def Millisecond_def)
      (simp add: demo_job_def)
  ultimately show ?thesis by blast
qed

end
