(* ===== verification/Raft_FSM.thy ===== *)
theory Raft_FSM
  imports Bolt_Store
begin

text \<open>
  The replicated state machine of \<open>raft_fsm.go\<close>: the JSON wire format of a log entry,
  \<open>jobFSM.Apply\<close>, and snapshots (\<open>Snapshot\<close>, \<open>Persist\<close>, \<open>Restore\<close>). The snapshot
  sink is raft's: a parameter with its write, close and cancel results. \<open>spec_Apply\<close> is
  the effect of a command on the abstract store; \<open>Apply\<close> over a live database refines
  it, which makes replicas that apply the same log agree.
\<close>

section \<open>Commands and responses\<close>

definition cmdPut :: string where "cmdPut = ''put''"
definition cmdCAS :: string where "cmdCAS = ''cas''"
definition cmdSubmit :: string where "cmdSubmit = ''submit''"

record fsmCommand =
  Op :: string
  Record :: JobRecord
  ExpectedVersion :: int64
  CmdIdempotencyKey :: string

record fsmResponse =
  Conflict :: bool
  JobID :: string
  Created :: bool
  Err :: "go_error option"

definition zeroResponse :: fsmResponse where
  "zeroResponse = \<lparr>Conflict = False, JobID = [], Created = False, Err = None\<rparr>"

definition Marshal_command :: "fsmCommand \<Rightarrow> blob result" where
  "Marshal_command cmd =
     rbind (Marshal (Record cmd)) (\<lambda>rec.
     Inr (Json (JObj (
       [(''op'', JStr (Op cmd)), (''record'', rec)] @
       omitempty (ExpectedVersion cmd = 0) ''expected_version'' (json_int (ExpectedVersion cmd)) @
       omitempty (CmdIdempotencyKey cmd = []) ''idempotency_key'' (JStr (CmdIdempotencyKey cmd))))))"

fun dec_job :: "json \<Rightarrow> JobRecord option" where
  "dec_job j = (case Unmarshal (Json j) of Inl e \<Rightarrow> None | Inr r \<Rightarrow> Some r)"

fun Unmarshal_command :: "blob \<Rightarrow> fsmCommand result" where
  "Unmarshal_command (Json (JObj kvs)) =
     rbind (field kvs ''op'' dec_str []) (\<lambda>op.
     rbind (field kvs ''record'' dec_job zeroJob) (\<lambda>rec.
     rbind (field kvs ''expected_version'' dec_int64 0) (\<lambda>v.
     rbind (field kvs ''idempotency_key'' dec_str []) (\<lambda>k.
     Inr \<lparr>Op = op, Record = rec, ExpectedVersion = v, CmdIdempotencyKey = k\<rparr>))))"
| "Unmarshal_command (Json JNull) = Inr \<lparr>Op = [], Record = zeroJob, ExpectedVersion = 0, CmdIdempotencyKey = []\<rparr>"
| "Unmarshal_command (Json _) = Inl (type_error ''fsmCommand'')"
| "Unmarshal_command (Raw s) = Inl (Text ''invalid character'')"

section \<open>Applying a log entry\<close>

definition apply_command :: "'db bolt_api \<Rightarrow> fsmCommand \<Rightarrow> 'db \<Rightarrow> 'db \<times> fsmResponse" where
  "apply_command B cmd db =
     (if Op cmd = cmdPut then
        (case putJobRaw B (Record cmd) db of (db', e) \<Rightarrow> (db', zeroResponse\<lparr>Err := e\<rparr>))
      else if Op cmd = cmdCAS then
        (case casPut B (ID (Record cmd)) (ExpectedVersion cmd) (Record cmd) db of
           (db', conflict, e) \<Rightarrow> (db', zeroResponse\<lparr>Conflict := conflict, Err := e\<rparr>))
      else if Op cmd = cmdSubmit then
        (case submitRaw B (Record cmd) (CmdIdempotencyKey cmd) db of
           (db', jobID, created, e) \<Rightarrow> (db', zeroResponse\<lparr>JobID := jobID, Created := created, Err := e\<rparr>))
      else (db, zeroResponse\<lparr>Err := Some (Text (''unknown fsm op '' @ [CHR 0x22] @ Op cmd @ [CHR 0x22]))\<rparr>))"

definition Apply :: "'db bolt_api \<Rightarrow> blob \<Rightarrow> 'db \<Rightarrow> 'db \<times> fsmResponse" where
  "Apply B data db =
     (case Unmarshal_command data of
        Inl e \<Rightarrow> (db, zeroResponse\<lparr>Err := Some (Wrapf ''decode command: '' e [])\<rparr>)
      | Inr cmd \<Rightarrow> apply_command B cmd db)"

fun apply_log :: "'db bolt_api \<Rightarrow> blob list \<Rightarrow> 'db \<Rightarrow> 'db" where
  "apply_log B [] db = db"
| "apply_log B (entry # entries) db = apply_log B entries (fst (Apply B entry db))"

section \<open>Snapshots\<close>

record fsmSnapshot =
  Jobs :: "JobRecord list"
  Idem :: "string \<rightharpoonup> string"

definition Snapshot :: "'db bolt_api \<Rightarrow> 'db \<Rightarrow> fsmSnapshot result" where
  "Snapshot B db =
     (case exportState B db of
        (jobs, idem, Some e) \<Rightarrow> Inl e
      | (jobs, idem, None) \<Rightarrow> Inr \<lparr>Jobs = jobs, Idem = idem\<rparr>)"

fun marshal_jobs :: "JobRecord list \<Rightarrow> json list result" where
  "marshal_jobs [] = Inr []"
| "marshal_jobs (r # rs) = rbind (Marshal r) (\<lambda>j. rbind (marshal_jobs rs) (\<lambda>js. Inr (j # js)))"

text \<open>A nil slice is encoded as null; a map is encoded with its keys sorted.\<close>

definition encode_snapshot :: "fsmSnapshot \<Rightarrow> blob result" where
  "encode_snapshot s =
     rbind (marshal_jobs (Jobs s)) (\<lambda>js.
     Inr (Json (JObj [(''jobs'', if js = [] then JNull else JArr js),
       (''idempotency'', JObj (map (\<lambda>k. (k, JStr (the (Idem s k)))) (sorted_list_of_set (dom (Idem s)))))])))"

record 'k snapshot_sink =
  sink_Write :: "'k \<Rightarrow> blob \<Rightarrow> 'k \<times> go_error option"
  sink_Close :: "'k \<Rightarrow> 'k \<times> go_error option"
  sink_Cancel :: "'k \<Rightarrow> 'k \<times> go_error option"

definition Persist :: "'k snapshot_sink \<Rightarrow> fsmSnapshot \<Rightarrow> 'k \<Rightarrow> 'k \<times> go_error option" where
  "Persist K s sink =
     (case encode_snapshot s of
        Inl e \<Rightarrow> (fst (sink_Cancel K sink), Some e)
      | Inr data \<Rightarrow>
          (case sink_Write K sink data of
             (sink', Some e) \<Rightarrow> (fst (sink_Cancel K sink'), Some e)
           | (sink', None) \<Rightarrow> sink_Close K sink'))"

fun unmarshal_jobs :: "json list \<Rightarrow> JobRecord list option" where
  "unmarshal_jobs [] = Some []"
| "unmarshal_jobs (j # js) =
     (case Unmarshal (Json j) of Inl e \<Rightarrow> None | Inr r \<Rightarrow> map_option ((#) r) (unmarshal_jobs js))"

fun dec_jobs :: "json \<Rightarrow> JobRecord list option" where
  "dec_jobs (JArr js) = unmarshal_jobs js"
| "dec_jobs _ = None"

fun dec_strings :: "(string \<times> json) list \<Rightarrow> (string \<times> string) list option" where
  "dec_strings [] = Some []"
| "dec_strings ((k, v) # kvs) =
     (case dec_str v of None \<Rightarrow> None | Some s \<Rightarrow> map_option ((#) (k, s)) (dec_strings kvs))"

fun dec_idem :: "json \<Rightarrow> (string \<rightharpoonup> string) option" where
  "dec_idem (JObj kvs) = map_option map_of (dec_strings kvs)"
| "dec_idem _ = None"

fun decode_snapshot :: "blob \<Rightarrow> fsmSnapshot result" where
  "decode_snapshot (Json (JObj kvs)) =
     rbind (field kvs ''jobs'' dec_jobs []) (\<lambda>jobs.
     rbind (field kvs ''idempotency'' dec_idem Map.empty) (\<lambda>idem.
     Inr \<lparr>Jobs = jobs, Idem = idem\<rparr>))"
| "decode_snapshot (Json JNull) = Inr \<lparr>Jobs = [], Idem = Map.empty\<rparr>"
| "decode_snapshot (Json _) = Inl (type_error ''fsmSnapshot'')"
| "decode_snapshot (Raw s) = Inl (Text ''invalid character'')"

text \<open>\<open>order\<close> is the iteration order of the decoded index map.\<close>

definition Restore :: "'db bolt_api \<Rightarrow> ((string \<rightharpoonup> string) \<Rightarrow> string list) \<Rightarrow> blob \<Rightarrow> 'db \<Rightarrow> 'db \<times> go_error option" where
  "Restore B order data db =
     (case decode_snapshot data of
        Inl e \<Rightarrow> (db, Some e)
      | Inr snap \<Rightarrow> importState B (Jobs snap) (Idem snap) (order (Idem snap)) db)"

section \<open>The effect of a command on the abstract store\<close>

definition key_ok :: "string \<Rightarrow> bool" where
  "key_ok k \<longleftrightarrow> k \<noteq> [] \<and> length k \<le> MaxKeySize"

definition marshals :: "JobRecord \<Rightarrow> bool" where
  "marshals r \<longleftrightarrow> time_ok (CreatedAt r) \<and> time_ok (UpdatedAt r)"

text \<open>The new store and, when the command went through, its response.\<close>

definition spec_command :: "fsmCommand \<Rightarrow> abs_store \<Rightarrow> abs_store \<times> (bool \<times> string \<times> bool) option" where
  "spec_command cmd a =
     (let r = Record cmd; key = CmdIdempotencyKey cmd;
          put = a\<lparr>a_jobs := (a_jobs a)(ID r \<mapsto> r)\<rparr>
      in if Op cmd = cmdPut then
           (if marshals r \<and> key_ok (ID r) then (put, Some (False, [], False)) else (a, None))
         else if Op cmd = cmdCAS then
           (case a_jobs a (ID r) of
              None \<Rightarrow> (a, None)
            | Some cur \<Rightarrow>
                if Version cur \<noteq> ExpectedVersion cmd then (a, Some (True, [], False))
                else if marshals r then (put, Some (False, [], False)) else (a, None))
         else if Op cmd = cmdSubmit then
           (case (if key = [] then None else a_idem a key) of
              Some existing \<Rightarrow> (a, Some (False, existing, False))
            | None \<Rightarrow>
                if marshals r \<and> key_ok (ID r) \<and> length key \<le> MaxKeySize
                then (\<lparr>a_jobs = (a_jobs a)(ID r \<mapsto> r),
                       a_idem = (if key = [] then a_idem a else (a_idem a)(key \<mapsto> ID r))\<rparr>,
                      Some (False, ID r, True))
                else (a, None))
         else (a, None))"

definition spec_entry :: "blob \<Rightarrow> abs_store \<Rightarrow> abs_store" where
  "spec_entry data a =
     (case Unmarshal_command data of Inl e \<Rightarrow> a | Inr cmd \<Rightarrow> fst (spec_command cmd a))"


section \<open>Wire format\<close>

lemma ops_distinct [simp]:
  "cmdPut \<noteq> cmdCAS" "cmdCAS \<noteq> cmdPut" "cmdPut \<noteq> cmdSubmit" "cmdSubmit \<noteq> cmdPut"
  "cmdCAS \<noteq> cmdSubmit" "cmdSubmit \<noteq> cmdCAS"
  by (simp_all add: cmdPut_def cmdCAS_def cmdSubmit_def)

lemma Marshal_command_eq_Inr: "(\<exists>b. Marshal_command cmd = Inr b) \<longleftrightarrow> marshals (Record cmd)"
  by (auto simp: Marshal_command_def rbind_eq_Inr Marshal_eq_Inr marshals_def)

lemma Unmarshal_Marshal_command [simp]:
  assumes "Marshal_command cmd = Inr b"
  shows "Unmarshal_command b = Inr cmd"
proof -
  from assms obtain rec where rec: "Marshal (Record cmd) = Inr rec" and not_null: "rec \<noteq> JNull"
    and b: "b = Json (JObj (
       [(''op'', JStr (Op cmd)), (''record'', rec)] @
       omitempty (ExpectedVersion cmd = 0) ''expected_version'' (json_int (ExpectedVersion cmd)) @
       omitempty (CmdIdempotencyKey cmd = []) ''idempotency_key'' (JStr (CmdIdempotencyKey cmd))))"
    by (auto simp: Marshal_command_def rbind_eq_Inr Marshal_eq_Inr)
  from not_null Unmarshal_Marshal [OF rec] show ?thesis
    by (simp add: b field_def map_of_omitempty map_of_omitempty_last del: map_of_append)
qed

lemma unmarshal_marshal_jobs: "marshal_jobs rs = Inr js \<Longrightarrow> unmarshal_jobs js = Some rs"
  by (induction rs arbitrary: js) (auto simp: rbind_eq_Inr)

lemma dec_strings_map: "dec_strings (map (\<lambda>k. (k, JStr (f k))) ks) = Some (map (\<lambda>k. (k, f k)) ks)"
  by (induction ks) auto

lemma decode_encode_snapshot:
  assumes "encode_snapshot s = Inr b" "finite (dom (Idem s))"
  shows "decode_snapshot b = Inr s"
proof -
  from assms(1) obtain js where js: "marshal_jobs (Jobs s) = Inr js"
    and b: "b = Json (JObj [(''jobs'', if js = [] then JNull else JArr js),
       (''idempotency'', JObj (map (\<lambda>k. (k, JStr (the (Idem s k)))) (sorted_list_of_set (dom (Idem s)))))])"
    by (auto simp: encode_snapshot_def rbind_eq_Inr)
  have "map_of (map (\<lambda>k. (k, the (Idem s k))) (sorted_list_of_set (dom (Idem s)))) = Idem s"
    using assms(2) by (auto simp: map_of_map_restrict fun_eq_iff restrict_map_def dom_def)
  with unmarshal_marshal_jobs [OF js] show ?thesis
    by (cases "js = []") (simp_all add: b field_def dec_strings_map)
qed

section \<open>Apply refines the abstract command\<close>

context bolt_live
begin

lemma put_tx_live:
  assumes "bolt_Update B (put_tx B b k v bad good) c0 db = (db', c, e)"
  shows "e = None \<longleftrightarrow> key_ok k"
  using assms
proof (rule Update_live)
  fix tx tx' assume "put_tx B b k v bad good tx = (tx', c, e)"
  then show ?thesis
    using Put_live [of k tx b v] Put_key [of tx b k v]
    by (auto simp: put_tx_def key_ok_def split: sum.splits)
qed

lemma putJobRaw_live:
  assumes "putJobRaw B r db = (db', e)"
  shows "e = None \<longleftrightarrow> marshals r \<and> key_ok (ID r)"
proof (cases "Marshal r")
  case (Inl err)
  with assms show ?thesis by (auto simp: putJobRaw_def Marshal_def marshals_def split: if_splits)
next
  case (Inr j)
  with assms have "bolt_Update B (put_tx B bucketJobs (ID r) (Json j) () ()) () db = (db', (), e)"
    by (auto simp: putJobRaw_def split: prod.splits)
  from put_tx_live [OF this] Inr show ?thesis by (auto simp: marshals_def Marshal_eq_Inr)
qed

lemma casPut_live:
  assumes "store_wf B db" "casPut B i v r db = (db', conflict, e)"
  shows "e = None \<longleftrightarrow> (\<exists>cur. a_jobs (store_abs B db) i = Some cur \<and> (Version cur = v \<longrightarrow> marshals r))"
proof -
  from assms(2) have "bolt_Update B (cas_tx B i v r) False db = (db', conflict, e)"
    by (simp add: casPut_def)
  then show ?thesis
  proof (rule Update_live)
    fix tx tx' assume tx: "bolt_Get B tx = bolt_Get B db" "cas_tx B i v r tx = (tx', conflict, e)"
    show ?thesis
    proof (cases "bolt_Get B db bucketJobs i")
      case None
      with tx show ?thesis by (auto simp: cas_tx_def store_abs_def job_at_def)
    next
      case (Some raw)
      with assms(1) obtain cur where cur: "Unmarshal raw = Inr cur" "i \<noteq> []" "length i \<le> MaxKeySize"
        "job_at (bolt_Get B db) i = Some cur" unfolding store_wf_def by (rule contents_wf_job)
      obtain t where "bolt_Put B tx bucketJobs i (Json (JObj (job_fields r))) = Inr t" using Put_live cur by blast
      with Some cur tx show ?thesis
        by (auto simp: cas_tx_def put_tx_def store_abs_def Marshal_def marshals_def split: if_splits)
    qed
  qed
qed

lemma submitRaw_live:
  assumes "store_wf B db" "submitRaw B r key db = (db', i, c, e)"
  shows "e = None \<longleftrightarrow> (if key = [] then None else a_idem (store_abs B db) key) \<noteq> None \<or>
     (marshals r \<and> key_ok (ID r) \<and> length key \<le> MaxKeySize)"
proof -
  from assms(2) have "bolt_Update B (submitRaw_tx B r key) ([], False) db = (db', (i, c), e)"
    by (auto simp: submitRaw_def split: prod.splits)
  then show ?thesis
  proof (rule Update_live)
    fix tx tx' assume tx: "bolt_Get B tx = bolt_Get B db" "submitRaw_tx B r key tx = (tx', (i, c), e)"
    have 1: "(\<exists>t. bolt_Put B t0 b k w = Inr t) \<longleftrightarrow> key_ok k" for t0 b k w
      using Put_live [of k t0 b w] Put_key [of t0 b k w] by (auto simp: key_ok_def)
    have put: "snd (snd (put_submit_tx B r key tx)) = None \<longleftrightarrow>
        marshals r \<and> key_ok (ID r) \<and> length key \<le> MaxKeySize"
    proof (cases "Marshal r")
      case (Inl err)
      then show ?thesis by (auto simp: put_submit_tx_def Marshal_def marshals_def split: if_splits)
    next
      case (Inr j)
      then have "marshals r" by (simp add: Marshal_eq_Inr marshals_def)
      show ?thesis
      proof (cases "bolt_Put B tx bucketJobs (ID r) (Json j)")
        case (Inl err)
        with 1 [of tx bucketJobs "ID r" "Json j"] Inr show ?thesis by (auto simp: put_submit_tx_def)
      next
        case Put: (Inr t)
        with 1 [of tx bucketJobs "ID r" "Json j"] have "key_ok (ID r)" by auto
        with Inr Put \<open>marshals r\<close> 1 [of t bucketIdempotency key "Raw (ID r)"] show ?thesis
          by (auto simp: put_submit_tx_def put_tx_def key_ok_def split: sum.splits)
      qed
    qed
    show ?thesis
    proof (cases "if key = [] then None else bolt_Get B db bucketIdempotency key")
      case None
      with tx have "e = snd (snd (put_submit_tx B r key tx))"
        by (cases "key = []") (simp_all add: submitRaw_tx_def)
      with None put show ?thesis by (auto simp: store_abs_def split: if_splits)
    next
      case (Some x)
      with tx show ?thesis by (auto simp: submitRaw_tx_def store_abs_def split: if_splits)
    qed
  qed
qed

lemma apply_command_refines:
  assumes wf: "store_wf B db" and run: "apply_command B cmd db = (db', resp)"
  shows "store_wf B db' \<and> spec_command cmd (store_abs B db) = (store_abs B db',
    if Err resp = None then Some (Conflict resp, JobID resp, Created resp) else None)"
proof -
  let ?r = "Record cmd" and ?k = "CmdIdempotencyKey cmd" and ?a = "store_abs B db"
  consider (put) "Op cmd = cmdPut" | (cas) "Op cmd = cmdCAS" | (submit) "Op cmd = cmdSubmit"
    | (other) "Op cmd \<notin> {cmdPut, cmdCAS, cmdSubmit}" by blast
  then show ?thesis
  proof cases
    case put
    obtain d e where p: "putJobRaw B ?r db = (d, e)" by (cases "putJobRaw B ?r db")
    with putJobRaw_live [OF p] putJobRaw_refines [OF wf p] put run show ?thesis
      by (auto simp: apply_command_def spec_command_def zeroResponse_def Let_def split: if_splits)
  next
    case cas
    obtain d c e where p: "casPut B (ID ?r) (ExpectedVersion cmd) ?r db = (d, c, e)"
      by (cases "casPut B (ID ?r) (ExpectedVersion cmd) ?r db")
    with cas run have resp: "db' = d" "resp = zeroResponse\<lparr>Conflict := c, Err := e\<rparr>"
      by (simp_all add: apply_command_def)
    note live = casPut_live [OF wf p] and refines = casPut_refines [OF wf refl p]
    show ?thesis
    proof (cases "\<exists>cur. a_jobs ?a (ID ?r) = Some cur \<and> (Version cur = ExpectedVersion cmd \<longrightarrow> marshals ?r)")
      case True
      with live have "e = None" by simp
      with refines obtain cur where "a_jobs ?a (ID ?r) = Some cur" "c = (Version cur \<noteq> ExpectedVersion cmd)"
        "store_abs B d = (if c then ?a else ?a\<lparr>a_jobs := (a_jobs ?a)(ID ?r \<mapsto> ?r)\<rparr>)" "store_wf B d" by blast
      with True \<open>e = None\<close> cas resp show ?thesis
        by (simp add: spec_command_def zeroResponse_def Let_def)
    next
      case False
      with live have "e \<noteq> None" by simp
      with refines False cas resp show ?thesis
        by (cases "a_jobs ?a (ID ?r)") (simp_all add: spec_command_def Let_def)
    qed
  next
    case submit
    obtain d i c e where p: "submitRaw B ?r ?k db = (d, i, c, e)"
      by (cases "submitRaw B ?r ?k db")
    with submit run have resp: "db' = d" "resp = zeroResponse\<lparr>JobID := i, Created := c, Err := e\<rparr>"
      by (simp_all add: apply_command_def)
    show ?thesis
    proof (cases "if ?k = [] then None else a_idem ?a ?k")
      case None
      with submitRaw_live [OF wf p] have
        e: "e = None \<longleftrightarrow> marshals ?r \<and> key_ok (ID ?r) \<and> length ?k \<le> MaxKeySize" by simp
      note spec = spec_command_def [of cmd ?a] None
      from submitRaw_refines [OF wf p] None submit resp e show ?thesis
        by (cases "e = None") (simp_all only: spec Let_def, simp_all add: zeroResponse_def)
    next
      case (Some x)
      with submitRaw_live [OF wf p] have e: "e = None" by simp
      note spec = spec_command_def [of cmd ?a] Some
      from submitRaw_refines [OF wf p] Some submit resp e show ?thesis
        by (simp only: spec Let_def) (simp add: zeroResponse_def)
    qed
  next
    case other
    with run wf show ?thesis
      by (auto simp: apply_command_def spec_command_def zeroResponse_def Let_def)
  qed
qed

lemma Apply_refines:
  assumes "store_wf B db"
  shows "store_wf B (fst (Apply B data db)) \<and> store_abs B (fst (Apply B data db)) = spec_entry data (store_abs B db)"
proof (cases "Unmarshal_command data")
  case (Inl e)
  with assms show ?thesis by (simp add: Apply_def spec_entry_def)
next
  case (Inr cmd)
  obtain db' resp where "apply_command B cmd db = (db', resp)" by (cases "apply_command B cmd db")
  with apply_command_refines [OF assms this] Inr show ?thesis by (simp add: Apply_def spec_entry_def)
qed

lemma apply_log_refines:
  assumes "store_wf B db"
  shows "store_wf B (apply_log B entries db) \<and>
    store_abs B (apply_log B entries db) = fold spec_entry entries (store_abs B db)"
  using assms
proof (induction entries arbitrary: db)
  case Nil
  then show ?case by simp
next
  case (Cons e es)
  from Apply_refines [OF Cons.prems, of e] Cons.IH [of "fst (Apply B e db)"] show ?case by simp
qed

end


section \<open>Snapshots of a live node always succeed\<close>

lemma marshal_jobs_ok: "\<forall>r \<in> set rs. marshals r \<Longrightarrow> \<exists>js. marshal_jobs rs = Inr js"
proof (induction rs)
  case (Cons r rs)
  then obtain js where "marshal_jobs rs = Inr js" by auto
  moreover from Cons.prems obtain j where "Marshal r = Inr j" by (auto simp: Marshal_def marshals_def)
  ultimately show ?case by simp
qed simp

lemma apply_log_append: "apply_log B (es1 @ es2) db = apply_log B es2 (apply_log B es1 db)"
  by (induction es1 arbitrary: db) auto

context bolt_db
begin

lemma store_jobs_marshal:
  assumes "store_wf B db" "r \<in> set (spec_jobs (store_abs B db))"
  shows "marshals r \<and> key_ok (ID r)"
proof -
  from assms(2) set_spec_jobs [OF store_abs_finite [OF assms(1)]] obtain i where
    "job_at (bolt_Get B db) i = Some r" by (auto simp: ran_def store_abs_def)
  then obtain v where v: "bolt_Get B db bucketJobs i = Some v" "Unmarshal v = Inr r"
    by (auto simp: job_at_def split: option.splits sum.splits)
  with assms(1) have "key_ok (ID r)" unfolding store_wf_def by (auto simp: key_ok_def elim: contents_wf_job)
  with v(2) show ?thesis by (auto simp: marshals_def dest: Unmarshal_times_ok)
qed

lemma store_keys_ok: "store_wf B db \<Longrightarrow> a_idem (store_abs B db) k = Some i \<Longrightarrow> key_ok k"
  by (auto simp: store_wf_def contents_wf_def store_abs_def key_ok_def)

lemma finite_idem: "finite (dom (a_idem (store_abs B db)))"
proof -
  have "dom (a_idem (store_abs B db)) = dom (bolt_Get B db bucketIdempotency)"
    by (auto simp: store_abs_def dom_def)
  then show ?thesis by (simp add: finite_bucket)
qed

end

context bolt_live
begin

lemma exportState_live:
  assumes "store_wf B db"
  shows "exportState B db = (spec_jobs (store_abs B db), a_idem (store_abs B db), None)"
proof -
  obtain tx where tx: "bolt_Begin B False db = Inr tx" using Begin_live by blast
  then have "contents_wf (bolt_Get B tx)" using Begin_Get assms by (simp add: store_wf_def)
  from scan_jobs_contents [OF this, of "\<lambda>_. True"] tx have "snd (snd (exportState B db)) = None"
    by (simp add: exportState_def bolt_View_def)
  then obtain jobs idem where x: "exportState B db = (jobs, idem, None)" by (cases "exportState B db") auto
  from exportState_refines [OF assms x] x show ?thesis by simp
qed

lemma import_jobs_live:
  "\<forall>r \<in> set rs. marshals r \<and> key_ok (ID r) \<Longrightarrow> \<exists>tx'. import_jobs B rs tx = Inr tx'"
proof (induction rs arbitrary: tx)
  case (Cons r rs)
  then obtain j where j: "Marshal r = Inr j" by (auto simp: Marshal_def marshals_def)
  from Cons.prems have "ID r \<noteq> []" "length (ID r) \<le> MaxKeySize" by (simp_all add: key_ok_def)
  from Put_live [OF this] obtain tx1 where "bolt_Put B tx bucketJobs (ID r) (Json j) = Inr tx1" by blast
  with j Cons show ?case by simp
qed simp

lemma import_idem_live: "\<forall>k \<in> set ks. key_ok k \<Longrightarrow> \<exists>tx'. import_idem B idem ks tx = Inr tx'"
proof (induction ks arbitrary: tx)
  case (Cons k ks)
  from Cons.prems have "k \<noteq> []" "length k \<le> MaxKeySize" by (simp_all add: key_ok_def)
  from Put_live [OF this] obtain tx1 where "bolt_Put B tx bucketIdempotency k (Raw (the (idem k))) = Inr tx1" by blast
  with Cons show ?case by simp
qed simp

lemma reset_buckets_live: "\<exists>tx'. reset_buckets B names tx = Inr tx'"
proof (induction names arbitrary: tx)
  case (Cons name names)
  obtain t1 where t1: "bolt_DeleteBucket B tx name = Inr t1" using DeleteBucket_live by blast
  obtain t2 where "bolt_CreateBucket B t1 name = Inr t2" using CreateBucket_live by blast
  with t1 Cons.IH show ?case by simp
qed simp

lemma importState_live:
  assumes "\<forall>r \<in> set jobs. marshals r \<and> key_ok (ID r)" "\<forall>k \<in> set ks. key_ok k"
  shows "\<exists>db'. importState B jobs idem ks db = (db', None)"
proof -
  obtain db' u e where x: "bolt_Update B (import_tx B jobs idem ks) () db = (db', u, e)"
    by (cases "bolt_Update B (import_tx B jobs idem ks) () db")
  then obtain tx tx' where tx: "import_tx B jobs idem ks tx = (tx', u, e)" by (rule Update_live)
  obtain t1 where t1: "reset_buckets B [bucketJobs, bucketIdempotency] tx = Inr t1" using reset_buckets_live by blast
  obtain t2 where t2: "import_jobs B jobs t1 = Inr t2" using import_jobs_live assms(1) by blast
  obtain t3 where "import_idem B idem ks t2 = Inr t3" using import_idem_live assms(2) by blast
  with t1 t2 tx have "e = None" by (simp add: import_tx_def del: reset_buckets.simps)
  with x show ?thesis by (simp add: importState_def)
qed

lemma Snapshot_live:
  assumes "store_wf B db"
  shows "\<exists>data. Snapshot B db = Inr \<lparr>Jobs = spec_jobs (store_abs B db), Idem = a_idem (store_abs B db)\<rparr> \<and>
    encode_snapshot \<lparr>Jobs = spec_jobs (store_abs B db), Idem = a_idem (store_abs B db)\<rparr> = Inr data"
proof -
  from marshal_jobs_ok store_jobs_marshal [OF assms] obtain js where
    "marshal_jobs (spec_jobs (store_abs B db)) = Inr js" by blast
  then show ?thesis using exportState_live [OF assms] by (simp add: Snapshot_def encode_snapshot_def)
qed

end

lemma snapshot_restore:
  assumes "bolt_live B" "bolt_live B'" "store_wf B db"
    and order: "\<forall>m. finite (dom m) \<longrightarrow> range_order m (order m)"
  shows "\<exists>s data db2'. Snapshot B db = Inr s \<and> encode_snapshot s = Inr data \<and>
    Restore B' order data db2 = (db2', None) \<and> store_wf B' db2' \<and> store_abs B' db2' = store_abs B db"
proof -
  let ?a = "store_abs B db" and ?s = "\<lparr>Jobs = spec_jobs (store_abs B db), Idem = a_idem (store_abs B db)\<rparr>"
  have bd: "bolt_db B" "bolt_db B'" using assms(1,2) by (simp_all add: bolt_live.axioms)
  from bolt_live.Snapshot_live [OF assms(1,3)] obtain data where
    snap: "Snapshot B db = Inr ?s" and enc: "encode_snapshot ?s = Inr data" by blast
  have fin: "finite (dom (a_idem ?a))" by (rule bolt_db.finite_idem [OF bd(1)])
  with order have ro: "range_order (a_idem ?a) (order (a_idem ?a))" by blast
  have dec: "decode_snapshot data = Inr ?s" using decode_encode_snapshot [OF enc] fin by simp
  have "\<forall>k \<in> set (order (a_idem ?a)). key_ok k"
    using bolt_db.store_keys_ok [OF bd(1) assms(3)] by (auto simp: range_order_dom [OF ro])
  with bolt_live.importState_live [OF assms(2)] bolt_db.store_jobs_marshal [OF bd(1) assms(3)] obtain db2' where
    imp: "importState B' (spec_jobs ?a) (a_idem ?a) (order (a_idem ?a)) db2 = (db2', None)" by blast
  have jobs: "map_of (rev (map (\<lambda>r. (ID r, r)) (spec_jobs ?a))) = a_jobs ?a"
    using bolt_db.store_abs_finite [OF bd(1) assms(3)] assms(3)
    by (intro spec_jobs_map_of) (simp_all add: store_abs_def store_wf_def contents_wf_ID)
  from bolt_db.importState_refines [OF bd(2) ro imp] have "store_wf B' db2'" "store_abs B' db2' = ?a"
    unfolding jobs by simp_all
  with snap enc dec imp show ?thesis by (auto simp: Restore_def)
qed

section \<open>Properties\<close>


definition sorted_order :: "(string \<rightharpoonup> string) \<Rightarrow> string list" where
  "sorted_order m = sorted_list_of_set (dom m)"

lemma sorted_order_ok: "\<forall>m. finite (dom m) \<longrightarrow> range_order m (sorted_order m)"
  by (simp add: sorted_order_def range_order_def)




end
