(* ===== verification/Raft_Store.thy ===== *)
theory Raft_Store
  imports Raft_FSM
begin

text \<open>
  \<open>RaftStore\<close> of \<open>raft_store.go\<close> over \<open>github.com/hashicorp/raft\<close>, a third-party
  package: its node is an opaque state with the calls the code makes as a parameter
  (\<open>raft_api\<close>). \<open>raft_Apply\<close> answers with the log entries that were applied to this
  node's state machine before the proposed one, and with what became of the proposal: it
  was applied, or the future carries an error and the entry was (a leader that lost its
  term after replicating) or was not applied here.

  The central result is that the read, mutate, compare-and-swap loop of \<open>Transition\<close> is
  atomic: a transition that reports success mutated the record that was current when its
  command was applied, whatever other proposers did in between.
\<close>

section \<open>The raft package\<close>

datatype raft_state = Follower | Candidate | Leader | Shutdown

datatype apply_future = Applied | ApplyFailed go_error bool

record 'r raft_api =
  raft_State :: "'r \<Rightarrow> raft_state"
  raft_LeaderWithID :: "'r \<Rightarrow> string \<times> string"
  raft_Apply :: "'r \<Rightarrow> blob \<Rightarrow> 'r \<times> blob list \<times> apply_future"
  raft_AddVoter :: "'r \<Rightarrow> string \<Rightarrow> string \<Rightarrow> 'r \<times> go_error option"
  raft_Shutdown :: "'r \<Rightarrow> 'r \<times> go_error option"

definition raft_ErrNotLeader :: sentinel where
  "raft_ErrNotLeader = External ''node is not the leader''"

definition raft_ErrLeadershipLost :: sentinel where
  "raft_ErrLeadershipLost = External ''leadership lost while committing log''"

definition maxCASRetries :: nat where
  "maxCASRetries = 16"

record ('r, 'db) RaftNode =
  raft :: 'r
  inner :: 'db

section \<open>Write path\<close>

definition notLeaderErr :: "'r raft_api \<Rightarrow> 'r \<Rightarrow> go_error" where
  "notLeaderErr R r =
     (case raft_LeaderWithID R r of (leaderAddr, leaderID) \<Rightarrow>
        Wrapf [] (Sentinel ErrNotLeader) ('' (leader: '' @ leaderID @ '' at '' @ leaderAddr @ '')''))"

definition raft_apply ::
  "'r raft_api \<Rightarrow> 'db bolt_api \<Rightarrow> fsmCommand \<Rightarrow> ('r, 'db) RaftNode \<Rightarrow> ('r, 'db) RaftNode \<times> fsmResponse result" where
  "raft_apply R B cmd s =
     (if raft_State R (raft s) \<noteq> Leader then (s, Inl (notLeaderErr R (raft s)))
      else case Marshal_command cmd of
        Inl e \<Rightarrow> (s, Inl e)
      | Inr buf \<Rightarrow>
          (case raft_Apply R (raft s) buf of
             (r', earlier, Applied) \<Rightarrow>
               (case Apply B buf (apply_log B earlier (inner s)) of (db', resp) \<Rightarrow>
                  (\<lparr>raft = r', inner = db'\<rparr>,
                   case Err resp of None \<Rightarrow> Inr resp | Some e \<Rightarrow> Inl e))
           | (r', earlier, ApplyFailed e landed) \<Rightarrow>
               (\<lparr>raft = r', inner =
                   (if landed then fst (Apply B buf (apply_log B earlier (inner s)))
                    else apply_log B earlier (inner s))\<rparr>,
                Inl (if errors_Is e raft_ErrNotLeader \<or> errors_Is e raft_ErrLeadershipLost
                     then notLeaderErr R r' else Wrapf ''raft apply: '' e []))))"

definition RaftStore_PutJob ::
  "'r raft_api \<Rightarrow> 'db bolt_api \<Rightarrow> gotime \<Rightarrow> JobRecord \<Rightarrow> ('r, 'db) RaftNode \<Rightarrow> ('r, 'db) RaftNode \<times> go_error option" where
  "RaftStore_PutJob R B now rec s =
     (let rec1 = stamp now rec;
          rec2 = (case BoltStore_GetJob B (ID rec1) (inner s) of
                    Inr (Some cur) \<Rightarrow> rec1\<lparr>Version := Version cur + 1\<rparr>
                  | _ \<Rightarrow> rec1\<lparr>Version := 1\<rparr>)
      in case raft_apply R B \<lparr>Op = cmdPut, Record = rec2, ExpectedVersion = 0, CmdIdempotencyKey = []\<rparr> s of
           (s', Inl e) \<Rightarrow> (s', Some e)
         | (s', Inr resp) \<Rightarrow> (s', None))"

definition RaftStore_SubmitWithIdempotency ::
  "'r raft_api \<Rightarrow> 'db bolt_api \<Rightarrow> gotime \<Rightarrow> JobRecord \<Rightarrow> string \<Rightarrow> ('r, 'db) RaftNode \<Rightarrow>
   ('r, 'db) RaftNode \<times> string \<times> bool \<times> go_error option" where
  "RaftStore_SubmitWithIdempotency R B now rec key s =
     (let rec1 = (stamp now (rec\<lparr>IdempotencyKey := key\<rparr>))\<lparr>Version := 1\<rparr>
      in case raft_apply R B \<lparr>Op = cmdSubmit, Record = rec1, ExpectedVersion = 0, CmdIdempotencyKey = key\<rparr> s of
           (s', Inl e) \<Rightarrow> (s', [], False, Some e)
         | (s', Inr resp) \<Rightarrow> (s', JobID resp, Created resp, None))"

text \<open>The record a transition proposes: mutated, stamped, its version one further.\<close>

definition proposal :: "gotime \<Rightarrow> JobRecord \<Rightarrow> JobRecord \<Rightarrow> JobRecord" where
  "proposal now rec cur = (stamp now cur)\<lparr>Version := Version rec + 1\<rparr>"

fun transition_loop ::
  "'r raft_api \<Rightarrow> 'db bolt_api \<Rightarrow> (nat \<Rightarrow> gotime) \<Rightarrow> string \<Rightarrow> mutator \<Rightarrow> nat \<Rightarrow> JobRecord list \<Rightarrow>
   ('r, 'db) RaftNode \<Rightarrow> ('r, 'db) RaftNode \<times> bool \<times> go_error option \<times> JobRecord list" where
  "transition_loop R B clock jobID mutate 0 runs s =
     (s, False, Some (Text (''transition '' @ jobID @ '': gave up after '' @
        show_nat maxCASRetries @ '' CAS conflicts'')), runs)"
| "transition_loop R B clock jobID mutate (Suc left) runs s =
     (case BoltStore_GetJob B jobID (inner s) of
        Inl e \<Rightarrow> (s, False, Some e, runs)
      | Inr None \<Rightarrow> (s, False, Some (not_found jobID), runs)
      | Inr (Some rec) \<Rightarrow>
          (case mutate rec of
             Inl e \<Rightarrow> (s, False, if e = Sentinel ErrSkipTransition then None else Some e, runs @ [rec])
           | Inr cur \<Rightarrow>
               (case raft_apply R B \<lparr>Op = cmdCAS, Record = proposal (clock left) rec cur,
                       ExpectedVersion = Version rec, CmdIdempotencyKey = []\<rparr> s of
                  (s', Inl e) \<Rightarrow> (s', False, Some e, runs @ [rec])
                | (s', Inr resp) \<Rightarrow>
                    (if Conflict resp then transition_loop R B clock jobID mutate left (runs @ [rec]) s'
                     else (s', True, None, runs @ [rec])))))"

definition RaftStore_Transition ::
  "'r raft_api \<Rightarrow> 'db bolt_api \<Rightarrow> (nat \<Rightarrow> gotime) \<Rightarrow> string \<Rightarrow> mutator \<Rightarrow>
   ('r, 'db) RaftNode \<Rightarrow> ('r, 'db) RaftNode \<times> bool \<times> go_error option \<times> JobRecord list" where
  "RaftStore_Transition R B clock jobID mutate s =
     transition_loop R B clock jobID mutate maxCASRetries [] s"

section \<open>Read path and cluster surface\<close>

definition RaftStore_Ping :: "'r raft_api \<Rightarrow> 'db bolt_api \<Rightarrow> ('r, 'db) RaftNode \<Rightarrow> go_error option" where
  "RaftStore_Ping R B s =
     (if raft_State R (raft s) = Shutdown then Some (Text ''raft node is shut down'')
      else BoltStore_Ping B (inner s))"

definition RaftStore_Close :: "'r raft_api \<Rightarrow> 'db bolt_api \<Rightarrow> ('r, 'db) RaftNode \<Rightarrow> go_error option" where
  "RaftStore_Close R B s =
     (let shutdownErr = snd (raft_Shutdown R (raft s)); closeErr = BoltStore_Close B (inner s)
      in if shutdownErr \<noteq> None then shutdownErr else closeErr)"

definition IsLeader :: "'r raft_api \<Rightarrow> ('r, 'db) RaftNode \<Rightarrow> bool" where
  "IsLeader R s \<longleftrightarrow> raft_State R (raft s) = Leader"

definition Join :: "'r raft_api \<Rightarrow> string \<Rightarrow> string \<Rightarrow> ('r, 'db) RaftNode \<Rightarrow> ('r, 'db) RaftNode \<times> go_error option" where
  "Join R i addr s =
     (if \<not> IsLeader R s then (s, Some (notLeaderErr R (raft s)))
      else case raft_AddVoter R (raft s) i addr of (r', e) \<Rightarrow> (s\<lparr>raft := r'\<rparr>, e))"

text \<open>As a \<open>Store\<close>; each \<open>Transition\<close> reads one clock value for all its attempts.\<close>

definition RaftStore :: "'r raft_api \<Rightarrow> 'db bolt_api \<Rightarrow> ('r, 'db) RaftNode Store" where
  "RaftStore R B = \<lparr>PutJob = RaftStore_PutJob R B, GetJob = (\<lambda>i s. BoltStore_GetJob B i (inner s)),
     Transition = (\<lambda>now. RaftStore_Transition R B (\<lambda>_. now)),
     SubmitWithIdempotency = RaftStore_SubmitWithIdempotency R B,
     ListUnfinished = (\<lambda>s. BoltStore_ListUnfinished B (inner s)),
     ListRunningOnWorker = (\<lambda>w s. BoltStore_ListRunningOnWorker B w (inner s)),
     Ping = RaftStore_Ping R B, Close = RaftStore_Close R B\<rparr>"

section \<open>Versions along the log\<close>

text \<open>
  An entry that leaves job \<open>i\<close> alone or is a compare-and-swap as \<open>Transition\<close> proposes
  it: the new version is the expected one plus one.
\<close>

definition versioned_entry :: "string \<Rightarrow> blob \<Rightarrow> bool" where
  "versioned_entry i data \<longleftrightarrow>
     (case Unmarshal_command data of
        Inl e \<Rightarrow> True
      | Inr cmd \<Rightarrow> ID (Record cmd) \<noteq> i \<or>
          (Op cmd = cmdCAS \<and> Version (Record cmd) = ExpectedVersion cmd + 1))"

lemma spec_command_other:
  "ID (Record cmd) \<noteq> i \<Longrightarrow> a_jobs (fst (spec_command cmd a)) i = a_jobs a i"
  by (auto simp: spec_command_def Let_def split: option.splits)

lemma spec_entry_version:
  assumes "versioned_entry i e" "a_jobs a i = Some r"
  shows "a_jobs (spec_entry e a) i = Some r \<or>
    (\<exists>r'. a_jobs (spec_entry e a) i = Some r' \<and> Version r' = Version r + 1)"
proof (cases "Unmarshal_command e")
  case (Inl err)
  with assms show ?thesis by (simp add: spec_entry_def)
next
  case (Inr cmd)
  show ?thesis
  proof (cases "ID (Record cmd) = i")
    case False
    with Inr assms show ?thesis by (simp add: spec_entry_def spec_command_other)
  next
    case True
    with Inr assms show ?thesis
      by (auto simp: spec_entry_def versioned_entry_def spec_command_def Let_def split: if_splits)
  qed
qed

text \<open>While fewer than \<open>2 ^ 64\<close> entries pass, the version tells whether the record changed.\<close>

lemma fold_spec_entry_version:
  assumes "\<forall>e \<in> set es. versioned_entry i e" "a_jobs a i = Some r"
  shows "\<exists>r' k. a_jobs (fold spec_entry es a) i = Some r' \<and> k \<le> length es \<and>
    Version r' = Version r + of_nat k \<and> (k = 0 \<longrightarrow> r' = r)"
  using assms
proof (induction es arbitrary: a r)
  case Nil
  then show ?case by simp
next
  case (Cons e es)
  from Cons.prems(1) have "versioned_entry i e" by simp
  from spec_entry_version [OF this Cons.prems(2)] show ?case
  proof
    assume same: "a_jobs (spec_entry e a) i = Some r"
    with Cons.IH [of "spec_entry e a" r] Cons.prems(1) obtain r' k where
      "a_jobs (fold spec_entry es (spec_entry e a)) i = Some r'" "k \<le> length es"
      "Version r' = Version r + of_nat k" "k = 0 \<longrightarrow> r' = r" by auto
    then show ?thesis by (intro exI [of _ r'] exI [of _ k]) auto
  next
    assume "\<exists>r1. a_jobs (spec_entry e a) i = Some r1 \<and> Version r1 = Version r + 1"
    then obtain r1 where r1: "a_jobs (spec_entry e a) i = Some r1" "Version r1 = Version r + 1" by blast
    with Cons.IH [of "spec_entry e a" r1] Cons.prems(1) obtain r' k where
      "a_jobs (fold spec_entry es (spec_entry e a)) i = Some r'" "k \<le> length es"
      "Version r' = Version r1 + of_nat k" by auto
    with r1 show ?thesis by (intro exI [of _ r'] exI [of _ "Suc k"]) auto
  qed
qed

lemma same_version_same_record:
  assumes "\<forall>e \<in> set es. versioned_entry i e" "length es < 2 ^ 64" "a_jobs a i = Some r"
    "a_jobs (fold spec_entry es a) i = Some r'" "Version r' = Version r"
  shows "r' = r"
proof -
  from fold_spec_entry_version [OF assms(1,3)] assms(4,5) obtain k where
    k: "k \<le> length es" "of_nat k = (0 :: int64)" "k = 0 \<longrightarrow> r' = r" by auto
  then have "2 ^ 64 dvd k" by (simp add: word_of_nat_eq_0_iff)
  with k assms(2) have "k = 0" using nat_dvd_not_less by fastforce
  with k show ?thesis by simp
qed


section \<open>The write path moves the store along the log\<close>

lemma proposal_ID [simp]: "ID (proposal now r cur) = ID cur" "Version (proposal now r cur) = Version r + 1"
  by (simp_all add: proposal_def)

lemma versioned_proposal:
  "Marshal_command \<lparr>Op = cmdCAS, Record = proposal now r cur, ExpectedVersion = Version r, CmdIdempotencyKey = []\<rparr>
     = Inr buf \<Longrightarrow> versioned_entry i buf"
  by (simp add: versioned_entry_def)

definition raft_env :: "'r raft_api \<Rightarrow> string \<Rightarrow> bool" where
  "raft_env R i \<longleftrightarrow> (\<forall>r buf r' earlier fut. raft_Apply R r buf = (r', earlier, fut) \<longrightarrow>
     (\<forall>e \<in> set earlier. versioned_entry i e) \<and> length earlier < 2 ^ 64)"

lemma raft_envD:
  "raft_env R i \<Longrightarrow> raft_Apply R r buf = (r', earlier, fut) \<Longrightarrow>
     (\<forall>e \<in> set earlier. versioned_entry i e) \<and> length earlier < 2 ^ 64"
  unfolding raft_env_def by blast

context bolt_live
begin

lemma raft_apply_ok:
  assumes "store_wf B (inner s)" "raft_apply R B cmd s = (s', Inr resp)"
  obtains buf earlier where "Marshal_command cmd = Inr buf"
    "raft_Apply R (raft s) buf = (raft s', earlier, Applied)" "store_wf B (inner s')" "raft_State R (raft s) = Leader"
    "spec_command cmd (fold spec_entry earlier (store_abs B (inner s))) =
       (store_abs B (inner s'), Some (Conflict resp, JobID resp, Created resp))"
proof -
  from assms(2) obtain buf r' earlier db' where buf: "Marshal_command cmd = Inr buf"
    and ap: "raft_Apply R (raft s) buf = (r', earlier, Applied)" and lead: "raft_State R (raft s) = Leader"
    and run: "Apply B buf (apply_log B earlier (inner s)) = (db', resp)" "Err resp = None"
      "s' = \<lparr>raft = r', inner = db'\<rparr>"
    by (auto simp: raft_apply_def split: if_splits sum.splits prod.splits apply_future.splits option.splits)
  note log = apply_log_refines [OF assms(1), of earlier]
  from run(1) buf have "apply_command B cmd (apply_log B earlier (inner s)) = (db', resp)"
    by (simp add: Apply_def)
  from apply_command_refines [OF _ this] log run(2,3) ap buf lead that show thesis by simp
qed

lemma raft_apply_error:
  assumes "store_wf B (inner s)" "raft_apply R B cmd s = (s', Inl e)"
  shows "store_wf B (inner s') \<and> (\<exists>es. store_abs B (inner s') = fold spec_entry es (store_abs B (inner s)))"
proof -
  have refl: "\<exists>es. store_abs B (inner s) = fold spec_entry es (store_abs B (inner s))"
    by (rule exI [of _ "[]"]) simp
  consider (unchanged) "s' = s"
    | (moved) es where "inner s' = apply_log B es (inner s)"
    | (landed) es d where "inner s' = fst (Apply B d (apply_log B es (inner s)))"
  proof (cases "raft_State R (raft s) = Leader")
    case False
    with assms(2) unchanged show thesis by (simp add: raft_apply_def)
  next
    case True
    show thesis
    proof (cases "Marshal_command cmd")
      case (Inl err)
      with True assms(2) unchanged show thesis by (simp add: raft_apply_def)
    next
      case (Inr buf)
      obtain r' earlier fut where ap: "raft_Apply R (raft s) buf = (r', earlier, fut)"
        by (cases "raft_Apply R (raft s) buf")
      from True Inr ap assms(2) have
        "inner s' = apply_log B earlier (inner s) \<or> inner s' = fst (Apply B buf (apply_log B earlier (inner s)))"
        by (auto simp: raft_apply_def split: apply_future.splits prod.splits option.splits if_splits)
      with moved landed show thesis by blast
    qed
  qed
  then show ?thesis
  proof cases
    case unchanged
    with assms refl show ?thesis by simp
  next
    case moved
    with apply_log_refines [OF assms(1)] show ?thesis by auto
  next
    case landed
    have "inner s' = apply_log B (es @ [d]) (inner s)"
    proof -
      have "apply_log B (es @ [d]) db = fst (Apply B d (apply_log B es db))" for db
        by (induction es arbitrary: db) auto
      with landed show ?thesis by simp
    qed
    with apply_log_refines [OF assms(1), of "es @ [d]"] show ?thesis by metis
  qed
qed

text \<open>What a successful run of the loop did, from whatever state it started.\<close>

lemma transition_loop_atomic:
  assumes wf: "store_wf B (inner s)" and f: "mut_ok f" and env: "raft_env R i"
    and run: "transition_loop R B clock i f n runs s = (s', True, None, runs')"
  shows "\<exists>es rec cur now. a_jobs (fold spec_entry es (store_abs B (inner s))) i = Some rec \<and>
    f rec = Inr cur \<and> runs' \<noteq> [] \<and> last runs' = rec \<and> length runs' \<le> length runs + n \<and>
    store_abs B (inner s') = (fold spec_entry es (store_abs B (inner s)))\<lparr>a_jobs :=
      (a_jobs (fold spec_entry es (store_abs B (inner s))))(i \<mapsto> proposal now rec cur)\<rparr>"
  using wf run
proof (induction n arbitrary: s runs)
  case 0
  then show ?case by simp
next
  case (Suc n)
  let ?a = "store_abs B (inner s)"
  from Suc.prems GetJob_live [OF Suc.prems(1), of i] obtain rec cur where
    rec: "a_jobs ?a i = Some rec" and cur: "f rec = Inr cur"
    by (auto split: option.splits sum.splits)
  let ?cmd = "\<lparr>Op = cmdCAS, Record = proposal (clock n) rec cur, ExpectedVersion = Version rec, CmdIdempotencyKey = []\<rparr>"
  have ID: "ID cur = i" using f cur rec Suc.prems(1) by (simp add: mut_ok_def fs.abs_ID)
  from Suc.prems GetJob_live [OF Suc.prems(1), of i] rec cur obtain s1 resp where
    ap: "raft_apply R B ?cmd s = (s1, Inr resp)"
    and rest: "if Conflict resp then transition_loop R B clock i f n (runs @ [rec]) s1 = (s', True, None, runs')
       else s' = s1 \<and> runs' = runs @ [rec]"
    by (auto split: prod.splits sum.splits if_splits)
  from raft_apply_ok [OF Suc.prems(1) ap] obtain buf earlier where
    buf: "Marshal_command ?cmd = Inr buf" and rap: "raft_Apply R (raft s) buf = (raft s1, earlier, Applied)"
    and wf1: "store_wf B (inner s1)"
    and spec: "spec_command ?cmd (fold spec_entry earlier ?a) = (store_abs B (inner s1), Some (Conflict resp, JobID resp, Created resp))"
    by metis
  let ?b = "fold spec_entry earlier ?a"
  show ?case
  proof (cases "Conflict resp")
    case False
    with spec obtain r' where r': "a_jobs ?b i = Some r'" "Version r' = Version rec"
      and new: "store_abs B (inner s1) = ?b\<lparr>a_jobs := (a_jobs ?b)(i \<mapsto> proposal (clock n) rec cur)\<rparr>"
      by (auto simp: spec_command_def Let_def ID split: option.splits if_splits)
    from raft_envD [OF env rap] have "\<forall>e \<in> set earlier. versioned_entry i e" "length earlier < 2 ^ 64" by blast+
    from same_version_same_record [OF this rec r'] r' have "a_jobs ?b i = Some rec" by simp
    moreover from rest False have "runs' \<noteq> []" "last runs' = rec" "length runs' \<le> length runs + Suc n" "s' = s1"
      by auto
    ultimately show ?thesis using new cur by blast
  next
    case True
    with spec have eq: "store_abs B (inner s1) = ?b"
      by (auto simp: spec_command_def Let_def split: option.splits if_splits)
    from rest True have "transition_loop R B clock i f n (runs @ [rec]) s1 = (s', True, None, runs')" by simp
    from Suc.IH [OF wf1 this] obtain es rec' cur' now where
      "a_jobs (fold spec_entry es (store_abs B (inner s1))) i = Some rec'" "f rec' = Inr cur'"
      "runs' \<noteq> []" "last runs' = rec'" "length runs' \<le> length (runs @ [rec]) + n"
      "store_abs B (inner s') = (fold spec_entry es (store_abs B (inner s1)))\<lparr>a_jobs :=
        (a_jobs (fold spec_entry es (store_abs B (inner s1))))(i \<mapsto> proposal now rec' cur')\<rparr>"
      by blast
    moreover from this have "length runs' \<le> length runs + Suc n" by simp
    moreover have "fold spec_entry es (store_abs B (inner s1)) = fold spec_entry (earlier @ es) ?a"
      by (simp add: eq)
    ultimately show ?thesis by metis
  qed
qed

end


section \<open>An undisturbed leader, and a transition that fails\<close>

definition quiet_leader :: "'r raft_api \<Rightarrow> bool" where
  "quiet_leader R \<longleftrightarrow> (\<forall>r. raft_State R r = Leader) \<and> (\<forall>r buf. \<exists>r'. raft_Apply R r buf = (r', [], Applied))"

text \<open>The mutator with the version bump of the compare-and-swap.\<close>

definition bump :: "mutator \<Rightarrow> mutator" where
  "bump f r = (case f r of Inl e \<Rightarrow> Inl e | Inr r' \<Rightarrow> Inr (r'\<lparr>Version := Version r + 1\<rparr>))"

text \<open>Entries of other proposers, as far as the raft node reports them.\<close>

definition foreign_entries :: "'r raft_api \<Rightarrow> (blob \<Rightarrow> bool) \<Rightarrow> bool" where
  "foreign_entries R P \<longleftrightarrow> (\<forall>r buf r' earlier fut. raft_Apply R r buf = (r', earlier, fut) \<longrightarrow>
     (\<forall>e \<in> set earlier. P e) \<and> (\<forall>err. fut \<noteq> ApplyFailed err True))"

lemma stamp_Version: "stamp now (r\<lparr>Version := v\<rparr>) = (stamp now r)\<lparr>Version := v\<rparr>"
  by (simp add: stamp_def Let_def)

context bolt_live
begin

lemma transition_loop_quiet:
  assumes wf: "store_wf B (inner s)" and f: "mut_ok f" and now: "time_ok (clock n)" and R: "quiet_leader R"
    and run: "transition_loop R B clock i f (Suc n) runs s = (s', c, e, runs')"
  shows "\<exists>rs. runs' = runs @ rs \<and>
    (store_abs B (inner s'), c, e, rs) = spec_Transition (clock n) i (bump f) (store_abs B (inner s))"
proof (cases "a_jobs (store_abs B (inner s)) i")
  case None
  with run GetJob_live [OF wf, of i] show ?thesis by (auto simp: spec_Transition_def)
next
  case (Some rec)
  show ?thesis
  proof (cases "f rec")
    case (Inl err)
    with Some run GetJob_live [OF wf, of i] show ?thesis by (auto simp: spec_Transition_def bump_def)
  next
    case (Inr cur)
    let ?a = "store_abs B (inner s)"
    let ?cmd = "\<lparr>Op = cmdCAS, Record = proposal (clock n) rec cur, ExpectedVersion = Version rec, CmdIdempotencyKey = []\<rparr>"
    have ID: "ID rec = i" using wf Some by (simp add: fs.abs_ID)
    have "rec \<in> set (spec_jobs ?a)" using Some set_spec_jobs [OF store_abs_finite [OF wf]] by (auto simp: ran_def)
    then have "marshals rec" using store_jobs_marshal [OF wf] by blast
    then have m: "marshals (proposal (clock n) rec cur)" and IDc: "ID cur = i"
      using f Inr now ID by (auto simp: mut_ok_def proposal_def marshals_def stamp_CreatedAt)
    then obtain buf where buf: "Marshal_command ?cmd = Inr buf" using Marshal_command_eq_Inr [of ?cmd] by auto
    from R obtain r' where ap: "raft_Apply R (raft s) buf = (r', [], Applied)" and lead: "raft_State R (raft s) = Leader"
      unfolding quiet_leader_def by blast
    obtain db' resp where ac: "apply_command B ?cmd (inner s) = (db', resp)" by (cases "apply_command B ?cmd (inner s)")
    from apply_command_refines [OF wf ac] Some m IDc have
      resp: "Err resp = None" "\<not> Conflict resp" and new: "store_abs B db' = ?a\<lparr>a_jobs := (a_jobs ?a)(i \<mapsto> proposal (clock n) rec cur)\<rparr>"
      by (auto simp: spec_command_def Let_def split: if_splits)
    from buf ap lead ac resp have "raft_apply R B ?cmd s = (\<lparr>raft = r', inner = db'\<rparr>, Inr resp)"
      by (simp add: raft_apply_def Apply_def)
    with run Some Inr GetJob_live [OF wf, of i] resp new show ?thesis
      by (auto simp: spec_Transition_def bump_def proposal_def stamp_Version)
  qed
qed

lemma raft_apply_foreign:
  assumes "store_wf B (inner s)" "foreign_entries R P" "raft_apply R B cmd s = (s', x)"
    and "case x of Inl e \<Rightarrow> True | Inr resp \<Rightarrow> Conflict resp \<and> Op cmd = cmdCAS"
  shows "store_wf B (inner s') \<and>
    (\<exists>es. (\<forall>e \<in> set es. P e) \<and> store_abs B (inner s') = fold spec_entry es (store_abs B (inner s)))"
proof (cases "raft_State R (raft s) = Leader \<and> (\<exists>buf. Marshal_command cmd = Inr buf)")
  case False
  with assms(1,3) have "s' = s" by (auto simp: raft_apply_def split: sum.splits if_splits)
  with assms(1) show ?thesis by (intro conjI exI [of _ "[]"]) auto
next
  case True
  then obtain buf where buf: "Marshal_command cmd = Inr buf" by blast
  obtain r' earlier fut where ap: "raft_Apply R (raft s) buf = (r', earlier, fut)" by (cases "raft_Apply R (raft s) buf")
  from assms(2) ap have P: "\<forall>e \<in> set earlier. P e" and nf: "fut \<noteq> ApplyFailed err True" for err
    unfolding foreign_entries_def by blast+
  note log = apply_log_refines [OF assms(1), of earlier]
  show ?thesis
  proof (cases fut)
    case (ApplyFailed err landed)
    with nf have "\<not> landed" by (cases landed) auto
    with True buf ap ApplyFailed assms(3) have "inner s' = apply_log B earlier (inner s)" by (auto simp: raft_apply_def)
    with log P show ?thesis by auto
  next
    case Applied
    obtain db' resp where ac: "apply_command B cmd (apply_log B earlier (inner s)) = (db', resp)"
      by (cases "apply_command B cmd (apply_log B earlier (inner s))")
    with True buf ap Applied assms(3) have s': "inner s' = db'"
      and x: "x = (case Err resp of None \<Rightarrow> Inr resp | Some e \<Rightarrow> Inl e)" by (auto simp: raft_apply_def Apply_def)
    have sp: "store_wf B db'" "spec_command cmd (store_abs B (apply_log B earlier (inner s))) = (store_abs B db',
      if Err resp = None then Some (Conflict resp, JobID resp, Created resp) else None)"
      using apply_command_refines [OF _ ac] log by blast+
    have "store_abs B db' = store_abs B (apply_log B earlier (inner s))"
    proof (cases "Err resp")
      case None
      with x assms(4) have "Conflict resp" "Op cmd = cmdCAS" by auto
      with sp(2) None show ?thesis by (auto simp: spec_command_def Let_def split: option.splits if_splits)
    next
      case (Some err)
      with sp(2) show ?thesis by (auto simp: spec_command_def Let_def split: option.splits if_splits)
    qed
    with s' sp(1) log P show ?thesis by auto
  qed
qed

lemma transition_loop_fails:
  assumes "store_wf B (inner s)" "foreign_entries R P"
    and "transition_loop R B clock i f n runs s = (s', False, e, runs')"
  shows "store_wf B (inner s') \<and> length runs' \<le> length runs + n \<and>
    (\<exists>es. (\<forall>e \<in> set es. P e) \<and> store_abs B (inner s') = fold spec_entry es (store_abs B (inner s)))"
  using assms(1,3)
proof (induction n arbitrary: s runs)
  case 0
  then show ?case by (intro conjI exI [of _ "[]"]) auto
next
  case (Suc n)
  let ?goal = "store_wf B (inner s') \<and> length runs' \<le> length runs + Suc n \<and>
    (\<exists>es. (\<forall>e \<in> set es. P e) \<and> store_abs B (inner s') = fold spec_entry es (store_abs B (inner s)))"
  have stay: ?goal if "s' = s" "length runs' \<le> Suc (length runs)"
    using that Suc.prems(1) by (intro conjI exI [of _ "[]"]) auto
  note get = GetJob_live [OF Suc.prems(1), of i]
  show ?case
  proof (cases "\<exists>rec cur. a_jobs (store_abs B (inner s)) i = Some rec \<and> f rec = Inr cur")
    case False
    with Suc.prems(2) get have "s' = s \<and> length runs' \<le> Suc (length runs)"
      by (auto split: option.splits sum.splits)
    with stay show ?thesis by blast
  next
    case True
    then obtain rec cur where rec: "a_jobs (store_abs B (inner s)) i = Some rec" "f rec = Inr cur" by blast
    let ?cmd = "\<lparr>Op = cmdCAS, Record = proposal (clock n) rec cur, ExpectedVersion = Version rec, CmdIdempotencyKey = []\<rparr>"
    obtain s1 x where ap: "raft_apply R B ?cmd s = (s1, x)" by (cases "raft_apply R B ?cmd s")
    with Suc.prems(2) get rec have
      x: "case x of Inl e \<Rightarrow> s' = s1 \<and> runs' = runs @ [rec]
        | Inr resp \<Rightarrow> Conflict resp \<and> transition_loop R B clock i f n (runs @ [rec]) s1 = (s', False, e, runs')"
      by (auto split: sum.splits if_splits)
    then have "case x of Inl e \<Rightarrow> True | Inr resp \<Rightarrow> Conflict resp \<and> Op ?cmd = cmdCAS" by (auto split: sum.splits)
    from raft_apply_foreign [OF Suc.prems(1) assms(2) ap this] obtain es where
      s1: "store_wf B (inner s1)" "\<forall>e \<in> set es. P e" "store_abs B (inner s1) = fold spec_entry es (store_abs B (inner s))"
      by blast
    show ?thesis
    proof (cases x)
      case (Inl err)
      with x s1 show ?thesis by auto
    next
      case (Inr resp)
      with x Suc.IH [OF s1(1), of "runs @ [rec]"] obtain es' where
        "store_wf B (inner s')" "length runs' \<le> length (runs @ [rec]) + n" "\<forall>e \<in> set es'. P e"
        "store_abs B (inner s') = fold spec_entry es' (store_abs B (inner s1))" by auto
      with s1 show ?thesis by (intro conjI exI [of _ "es @ es'"]) auto
    qed
  qed
qed

end

section \<open>A concrete raft node\<close>

text \<open>A leader before whose first proposal another proposer's write to the job lands.\<close>

definition rival_entry :: blob where
  "rival_entry = (case Marshal_command \<lparr>Op = cmdCAS, Record = demo_job\<lparr>Error := ''rival'', Version := 2\<rparr>,
     ExpectedVersion = 1, CmdIdempotencyKey = []\<rparr> of Inr b \<Rightarrow> b | Inl e \<Rightarrow> Raw [])"

definition demo_raft :: "nat raft_api" where
  "demo_raft = \<lparr>raft_State = (\<lambda>_. Leader), raft_LeaderWithID = (\<lambda>_. (''a'', ''n1'')),
     raft_Apply = (\<lambda>r buf. (Suc r, if r = 0 then [rival_entry] else [], Applied)),
     raft_AddVoter = (\<lambda>r _ _. (r, None)), raft_Shutdown = (\<lambda>r. (r, None))\<rparr>"

definition demo_node :: "nat \<Rightarrow> (nat, mem_db) RaftNode" where
  "demo_node n = \<lparr>raft = n, inner = demo_db\<rparr>"

definition rival_job :: JobRecord where
  "rival_job = demo_job\<lparr>Error := ''rival'', Version := 2\<rparr>"

lemma demo_marshals: "marshals demo_job" "marshals rival_job" "time_ok 9"
  by (simp_all add: marshals_def demo_job_def rival_job_def zeroJob_def time_ok_def Second_def Millisecond_def)

lemma rival_decodes: "Unmarshal_command rival_entry = Inr \<lparr>Op = cmdCAS, Record = rival_job,
  ExpectedVersion = 1, CmdIdempotencyKey = []\<rparr>"
proof -
  let ?cmd = "\<lparr>Op = cmdCAS, Record = rival_job, ExpectedVersion = 1, CmdIdempotencyKey = []\<rparr>"
  obtain b where b: "Marshal_command ?cmd = Inr b" using Marshal_command_eq_Inr [of ?cmd] demo_marshals by auto
  then have "rival_entry = b" by (simp add: rival_entry_def rival_job_def)
  with b show ?thesis by simp
qed

lemma demo_raft_env: "raft_env demo_raft ''j1''"
  by (auto simp: raft_env_def demo_raft_def versioned_entry_def rival_decodes rival_job_def)

context bolt_live
begin

lemma raft_apply_applied:
  assumes "store_wf B (inner s)" "raft_State R (raft s) = Leader" "marshals (Record cmd)"
    and "\<And>buf. raft_Apply R (raft s) buf = (r', earlier, Applied)"
    and "spec_command cmd (fold spec_entry earlier (store_abs B (inner s))) = (a', Some (c, j, cr))"
  shows "\<exists>s' resp. raft_apply R B cmd s = (s', Inr resp) \<and> store_wf B (inner s') \<and> raft s' = r' \<and>
    store_abs B (inner s') = a' \<and> Conflict resp = c \<and> JobID resp = j \<and> Created resp = cr"
proof -
  from assms(3) obtain buf where buf: "Marshal_command cmd = Inr buf" using Marshal_command_eq_Inr by blast
  note log = apply_log_refines [OF assms(1), of earlier]
  obtain db' resp where ac: "apply_command B cmd (apply_log B earlier (inner s)) = (db', resp)"
    by (cases "apply_command B cmd (apply_log B earlier (inner s))")
  from apply_command_refines [OF _ ac] log assms(5) have r: "store_wf B db'" "store_abs B db' = a'" "Err resp = None"
    "Conflict resp = c" "JobID resp = j" "Created resp = cr" by (auto split: if_splits)
  have "raft_apply R B cmd s = (\<lparr>raft = r', inner = db'\<rparr>, Inr resp)"
    using assms(2,4) buf ac r(3) by (simp add: raft_apply_def Apply_def)
  with r show ?thesis by auto
qed

end

section \<open>Properties\<close>


lemma demo_transition_runs:
  "\<exists>s'. RaftStore_Transition demo_raft mem_bolt (\<lambda>_. 9) ''j1'' finish (demo_node 0) =
     (s', True, None, [demo_job, rival_job])"
proof -
  let ?a = "store_abs mem_bolt demo_db" and ?b = "\<lparr>a_jobs = [''j1'' \<mapsto> rival_job], a_idem = [''k'' \<mapsto> ''j1'']\<rparr>"
  let ?c1 = "\<lparr>Op = cmdCAS, Record = proposal 9 demo_job (demo_job\<lparr>Status := StatusDone\<rparr>), ExpectedVersion = 1,
    CmdIdempotencyKey = []\<rparr>"
  let ?c2 = "\<lparr>Op = cmdCAS, Record = proposal 9 rival_job (rival_job\<lparr>Status := StatusDone\<rparr>), ExpectedVersion = 2,
    CmdIdempotencyKey = []\<rparr>"
  have v: "Version demo_job = 1" "Version rival_job = 2" "ID rival_job = ''j1''" by (simp_all add: demo_job_def rival_job_def)
  have m: "marshals (Record ?c1)" "marshals (Record ?c2)"
    using demo_marshals by (simp_all add: marshals_def proposal_def stamp_CreatedAt)
  have b: "spec_entry rival_entry ?a = ?b"
    using demo_marshals by (simp add: spec_entry_def rival_decodes spec_command_def Let_def demo_abs v)
  have "\<exists>s' resp. raft_apply demo_raft mem_bolt ?c1 (demo_node 0) = (s', Inr resp) \<and> store_wf mem_bolt (inner s') \<and>
    raft s' = 1 \<and> store_abs mem_bolt (inner s') = ?b \<and> Conflict resp = True \<and> JobID resp = [] \<and> Created resp = False"
    by (rule mb.raft_apply_applied [where earlier = "[rival_entry]"])
      (use m b in \<open>simp_all add: demo_node_def demo_wf demo_raft_def spec_command_def Let_def v demo_ID\<close>)
  then obtain s1 resp1 where 1: "raft_apply demo_raft mem_bolt ?c1 (demo_node 0) = (s1, Inr resp1)"
    "store_wf mem_bolt (inner s1)" "raft s1 = 1" "store_abs mem_bolt (inner s1) = ?b" "Conflict resp1" by blast
  have "\<exists>s' resp. raft_apply demo_raft mem_bolt ?c2 s1 = (s', Inr resp) \<and> store_wf mem_bolt (inner s') \<and> raft s' = 2 \<and>
    store_abs mem_bolt (inner s') = ?b\<lparr>a_jobs := (a_jobs ?b)(''j1'' \<mapsto> Record ?c2)\<rparr> \<and> Conflict resp = False \<and> JobID resp = [] \<and> Created resp = False"
    by (rule mb.raft_apply_applied [where earlier = "[]"])
      (use m 1 in \<open>simp_all add: demo_raft_def spec_command_def Let_def v\<close>)
  then obtain s2 resp2 where 2: "raft_apply demo_raft mem_bolt ?c2 s1 = (s2, Inr resp2)" "\<not> Conflict resp2" by blast
  have "BoltStore_GetJob mem_bolt ''j1'' (inner (demo_node 0)) = Inr (Some demo_job)"
    "BoltStore_GetJob mem_bolt ''j1'' (inner s1) = Inr (Some rival_job)"
    using mb.GetJob_live [OF demo_wf, of "''j1''"] mb.GetJob_live [OF 1(2), of "''j1''"] 1(4)
    by (simp_all add: demo_node_def demo_abs)
  moreover have two: "maxCASRetries = Suc (Suc 14)" by (simp add: maxCASRetries_def)
  ultimately show ?thesis
    unfolding RaftStore_Transition_def two transition_loop.simps(2) using 1 2 v by (simp add: finish_def)
qed


text \<open>
  C20: an undisturbed leader behaves as the single-node store. With no competing entries
  \<open>RaftStore.Transition\<close> succeeds at its first attempt and has the specified effect and
  answer, the only difference being the job's version, which is one further.
\<close>
theorem raft_Transition_quiet:
  assumes "bolt_live B" "store_wf B (inner s)" "mut_ok f" "\<forall>n. time_ok (clock n)" "quiet_leader R"
    and "RaftStore_Transition R B clock i f s = (s', c, e, runs)"
  shows "(store_abs B (inner s'), c, e, runs) = spec_Transition (clock 15) i (bump f) (store_abs B (inner s))"
proof -
  have m: "maxCASRetries = Suc 15" by (simp add: maxCASRetries_def)
  from bolt_live.transition_loop_quiet [OF assms(1-3) _ assms(5) assms(6) [unfolded RaftStore_Transition_def m]]
    assms(4) show ?thesis by auto
qed

definition quiet_raft :: "nat raft_api" where
  "quiet_raft = demo_raft\<lparr>raft_Apply := (\<lambda>r buf. (Suc r, [], Applied))\<rparr>"

theorem raft_Transition_quiet_witness:
  "case RaftStore_Transition quiet_raft mem_bolt (\<lambda>_. 9) ''j1'' finish (demo_node 0) of (s', c, e, runs) \<Rightarrow>
     c \<and> e = None \<and> a_jobs (store_abs mem_bolt (inner s')) ''j1'' =
       Some (demo_job\<lparr>Status := StatusDone, UpdatedAt := 9, Version := 2\<rparr>)"
proof -
  obtain s' c e runs where t: "RaftStore_Transition quiet_raft mem_bolt (\<lambda>_. 9) ''j1'' finish (demo_node 0) = (s', c, e, runs)"
    by (cases "RaftStore_Transition quiet_raft mem_bolt (\<lambda>_. 9) ''j1'' finish (demo_node 0)")
  have "quiet_leader quiet_raft" by (simp add: quiet_leader_def quiet_raft_def demo_raft_def)
  from raft_Transition_quiet [OF mem_bolt_live _ mut_ok_finish _ this t] show ?thesis
    unfolding t using demo_wf demo_marshals
    by (simp add: demo_node_def demo_abs spec_Transition_def bump_def finish_def stamp_def demo_job_def zeroJob_def
        IsZero_def Let_def)
qed



text \<open>
  A node that is not the leader accepts no write. \<open>PutJob\<close>, \<open>SubmitWithIdempotency\<close>
  and \<open>Join\<close> answer with an error that wraps \<open>ErrNotLeader\<close>, a \<open>Transition\<close> never
  reports a commit, and the node's state is untouched.
\<close>
theorem raft_follower_rejects_writes:
  assumes "raft_State R (raft s) \<noteq> Leader"
  shows "(\<exists>e. RaftStore_PutJob R B now rec s = (s, Some e) \<and> errors_Is e ErrNotLeader) \<and>
    (\<exists>e. RaftStore_SubmitWithIdempotency R B now rec key s = (s, [], False, Some e) \<and> errors_Is e ErrNotLeader) \<and>
    (\<exists>e. Join R i addr s = (s, Some e) \<and> errors_Is e ErrNotLeader) \<and>
    (\<exists>e runs. RaftStore_Transition R B clock i f s = (s, False, e, runs))"
proof -
  have ap: "raft_apply R B cmd s = (s, Inl (notLeaderErr R (raft s)))" for cmd
    using assms by (simp add: raft_apply_def)
  have nl: "errors_Is (notLeaderErr R (raft s)) ErrNotLeader" by (simp add: notLeaderErr_def case_prod_beta)
  have m: "maxCASRetries = Suc 15" by (simp add: maxCASRetries_def)
  have "\<exists>e runs. RaftStore_Transition R B clock i f s = (s, False, e, runs)"
    unfolding RaftStore_Transition_def m transition_loop.simps(2) by (auto simp: ap split: sum.splits option.splits)
  then show ?thesis
    using assms nl by (simp add: ap RaftStore_PutJob_def RaftStore_SubmitWithIdempotency_def Join_def IsLeader_def Let_def)
qed

theorem raft_follower_rejects_writes_witness:
  "\<exists>e. RaftStore_PutJob (demo_raft\<lparr>raft_State := (\<lambda>_. Follower)\<rparr>) mem_bolt 9 demo_job (demo_node 0) =
     (demo_node 0, Some e) \<and> errors_Is e ErrNotLeader"
  using raft_follower_rejects_writes [of "demo_raft\<lparr>raft_State := (\<lambda>_. Follower)\<rparr>" "demo_node 0" mem_bolt 9 demo_job]
  by simp

end
