(* ===== verification/Config.thy ===== *)
theory Config
  imports Prelude
begin

text \<open>
  \<open>Config\<close> of \<open>config.go\<close>: the settings every component reads, and how \<open>LoadConfig\<close>
  gets them from the environment (\<open>getenv\<close>, empty when unset). What the helpers use of
  \<open>strconv\<close> and \<open>time\<close> is modelled as those packages define it: \<open>Atoi\<close> with its range
  check, the spellings of \<open>ParseBool\<close>, and \<open>ParseDuration\<close> with its overflow checks and
  its \<open>float64\<close> treatment of fractions (\<open>fround\<close> rounds to 53 significant bits, ties to
  even). Parse errors are \<open>None\<close>: the helpers only test for them.
\<close>

section \<open>Settings\<close>

record Config =
  GRPCPort :: int64
  HTTPPort :: int64
  DBPath :: string
  WorkerTimeout :: duration
  HeartbeatInterval :: duration
  MaxRetries :: int64
  MaxDispatchAttempts :: int64
  ExecuteTaskTimeout :: duration
  MaxPayloadBytes :: int64
  AutoscaleEnabled :: bool
  AutoscaleMin :: int64
  AutoscaleMax :: int64
  AutoscaleQueueThreshold :: int64
  AutoscaleIdleTimeout :: duration
  AutoscaleCooldown :: duration
  AutoscaleRegisterTimeout :: duration
  AutoscaleTick :: duration
  WorkerCmd :: string
  WorkerDir :: string
  WorkerBasePort :: int64
  RaftEnabled :: bool
  RaftID :: string
  RaftBind :: string
  RaftDir :: string
  RaftJoin :: string

section \<open>Parsing\<close>

definition digit :: "char \<Rightarrow> nat option" where
  "digit c = (let n = of_char c :: nat in if 48 \<le> n \<and> n \<le> 57 then Some (n - 48) else None)"

fun digits :: "nat \<Rightarrow> string \<Rightarrow> nat option" where
  "digits acc [] = Some acc"
| "digits acc (c # cs) = (case digit c of None \<Rightarrow> None | Some d \<Rightarrow> digits (10 * acc + d) cs)"

definition sign_of :: "string \<Rightarrow> bool \<times> string" where
  "sign_of s = (case s of [] \<Rightarrow> (False, [])
     | c # cs \<Rightarrow> if c = CHR ''-'' then (True, cs) else if c = CHR ''+'' then (False, cs) else (False, s))"

definition Atoi :: "string \<Rightarrow> int64 option" where
  "Atoi s =
     (case sign_of s of (neg, cs) \<Rightarrow>
        if cs = [] then None
        else case digits 0 cs of
               None \<Rightarrow> None
             | Some n \<Rightarrow>
                 (let v = (if neg then - int n else int n)
                  in if - (2 ^ 63) \<le> v \<and> v < 2 ^ 63 then Some (word_of_int v) else None))"

definition ParseBool :: "string \<Rightarrow> bool option" where
  "ParseBool s =
     (if s \<in> {''1'', ''t'', ''T'', ''true'', ''TRUE'', ''True''} then Some True
      else if s \<in> {''0'', ''f'', ''F'', ''false'', ''FALSE'', ''False''} then Some False
      else None)"

text \<open>\<open>leadingInt\<close>: \<open>None\<close> on overflow; the digits consumed are those the rest lacks.\<close>

fun leadingInt :: "nat \<Rightarrow> string \<Rightarrow> (nat \<times> string) option" where
  "leadingInt x [] = Some (x, [])"
| "leadingInt x (c # cs) =
     (case digit c of
        None \<Rightarrow> Some (x, c # cs)
      | Some d \<Rightarrow>
          (if x > 2 ^ 63 div 10 then None
           else let y = 10 * x + d in if y > 2 ^ 63 then None else leadingInt y cs))"

fun leadingFraction :: "nat \<Rightarrow> nat \<Rightarrow> bool \<Rightarrow> string \<Rightarrow> nat \<times> nat \<times> string" where
  "leadingFraction x scale overflow [] = (x, scale, [])"
| "leadingFraction x scale overflow (c # cs) =
     (case digit c of
        None \<Rightarrow> (x, scale, c # cs)
      | Some d \<Rightarrow>
          (if overflow \<or> x > (2 ^ 63 - 1) div 10 then leadingFraction x scale True cs
           else let y = 10 * x + d
                in if y > 2 ^ 63 then leadingFraction x scale True cs
                   else leadingFraction y (10 * scale) False cs))"

definition unitMap :: "string \<Rightarrow> nat option" where
  "unitMap u =
     (if u = ''ns'' then Some 1
      else if u = ''us'' \<or> u = [CHR 0xC2, CHR 0xB5, CHR ''s''] \<or> u = [CHR 0xCE, CHR 0xBC, CHR ''s''] then Some 1000
      else if u = ''ms'' then Some 1000000
      else if u = ''s'' then Some 1000000000
      else if u = ''m'' then Some 60000000000
      else if u = ''h'' then Some 3600000000000
      else None)"

text \<open>
  A quotient \<open>n / d\<close> rounded to 53 significant bits, ties to even, again as a quotient:
  scale it by the power of two that leaves an integer part of 53 bits, round that, and
  scale back.
\<close>

definition scaled :: "int \<Rightarrow> nat \<times> nat \<Rightarrow> nat \<times> nat" where
  "scaled e = (\<lambda>(n, d). if e \<ge> 0 then (n * 2 ^ nat e, d) else (n, d * 2 ^ nat (- e)))"

definition half_even :: "nat \<times> nat \<Rightarrow> nat" where
  "half_even = (\<lambda>(n, d). let q = n div d; r = n mod d
     in if 2 * r < d \<or> (2 * r = d \<and> even q) then q else q + 1)"

definition fround :: "nat \<times> nat \<Rightarrow> nat \<times> nat" where
  "fround x =
     (if fst x = 0 then (0, 1)
      else let e0 = 53 + int (bitlen (snd x)) - int (bitlen (fst x));
               e = (case scaled e0 x of (n, d) \<Rightarrow> if n \<ge> 2 ^ 53 * d then e0 - 1 else e0)
           in scaled (- e) (half_even (scaled e x), 1))"

definition fmul :: "nat \<times> nat \<Rightarrow> nat \<times> nat \<Rightarrow> nat \<times> nat" where
  "fmul = (\<lambda>(a, b) (c, d). fround (a * c, b * d))"

text \<open>\<open>uint64(float64(f) * (float64(unit) / scale))\<close>\<close>

definition fraction_ns :: "nat \<Rightarrow> nat \<Rightarrow> nat \<Rightarrow> nat" where
  "fraction_ns f unit scale = (case fmul (fround (f, 1)) (fround (unit, scale)) of (n, d) \<Rightarrow> n div d)"

definition is_unit_char :: "char \<Rightarrow> bool" where
  "is_unit_char c \<longleftrightarrow> c \<noteq> CHR ''.'' \<and> digit c = None"

text \<open>One number with its unit: the nanoseconds and the rest of the string.\<close>

definition duration_item :: "string \<Rightarrow> (nat \<times> string) option" where
  "duration_item s =
     (if is_unit_char (hd s) then None
      else case leadingInt 0 s of
        None \<Rightarrow> None
      | Some (v, s1) \<Rightarrow>
          (let pre = (length s1 \<noteq> length s);
               (f, scale, s2, post) =
                 (if s1 \<noteq> [] \<and> hd s1 = CHR ''.''
                  then (case leadingFraction 0 1 False (tl s1) of
                          (f, scale, s2) \<Rightarrow> (f, scale, s2, length s2 \<noteq> length (tl s1)))
                  else (0, 1, s1, False));
               u = takeWhile is_unit_char s2;
               rest = dropWhile is_unit_char s2
           in if \<not> pre \<and> \<not> post \<or> u = [] then None
              else case unitMap u of
                None \<Rightarrow> None
              | Some unit \<Rightarrow>
                  (if v > 2 ^ 63 div unit then None
                   else let v1 = v * unit;
                            v2 = (if f > 0 then v1 + fraction_ns f unit scale else v1)
                        in if f > 0 \<and> v2 > 2 ^ 63 then None else Some (v2, rest))))"

text \<open>Every item consumes a character, so the length of the string is enough fuel.\<close>

fun duration_items :: "nat \<Rightarrow> nat \<Rightarrow> string \<Rightarrow> nat option" where
  "duration_items fuel d [] = Some d"
| "duration_items 0 d (c # cs) = None"
| "duration_items (Suc fuel) d (c # cs) =
     (case duration_item (c # cs) of
        None \<Rightarrow> None
      | Some (v, rest) \<Rightarrow> (if d + v > 2 ^ 63 then None else duration_items fuel (d + v) rest))"

definition ParseDuration :: "string \<Rightarrow> duration option" where
  "ParseDuration s =
     (case sign_of s of (neg, cs) \<Rightarrow>
        if cs = ''0'' then Some 0
        else if cs = [] then None
        else case duration_items (length cs) 0 cs of
          None \<Rightarrow> None
        | Some d \<Rightarrow> (if neg then Some (- int d) else if d > 2 ^ 63 - 1 then None else Some (int d)))"

section \<open>Loading\<close>

definition envStr :: "(string \<Rightarrow> string) \<Rightarrow> string \<Rightarrow> string \<Rightarrow> string" where
  "envStr getenv k dflt = (let v = getenv k in if v \<noteq> [] then v else dflt)"

definition envBool :: "(string \<Rightarrow> string) \<Rightarrow> string \<Rightarrow> bool \<Rightarrow> bool" where
  "envBool getenv k dflt =
     (let v = getenv k in if v \<noteq> [] then (case ParseBool v of Some b \<Rightarrow> b | None \<Rightarrow> dflt) else dflt)"

definition envInt :: "(string \<Rightarrow> string) \<Rightarrow> string \<Rightarrow> int64 \<Rightarrow> int64" where
  "envInt getenv k dflt =
     (let v = getenv k in if v \<noteq> [] then (case Atoi v of Some n \<Rightarrow> n | None \<Rightarrow> dflt) else dflt)"

definition envDuration :: "(string \<Rightarrow> string) \<Rightarrow> string \<Rightarrow> duration \<Rightarrow> duration" where
  "envDuration getenv k dflt =
     (let v = getenv k in if v \<noteq> [] then (case ParseDuration v of Some d \<Rightarrow> d | None \<Rightarrow> dflt) else dflt)"

definition LoadConfig :: "(string \<Rightarrow> string) \<Rightarrow> Config" where
  "LoadConfig getenv = \<lparr>
     GRPCPort = envInt getenv ''MINIMODAL_PORT'' 50051,
     HTTPPort = envInt getenv ''MINIMODAL_HTTP_PORT'' 8080,
     DBPath = envStr getenv ''MINIMODAL_DB_PATH'' ''minimodal.db'',
     WorkerTimeout = envDuration getenv ''MINIMODAL_WORKER_TIMEOUT'' (6 * Second),
     HeartbeatInterval = envDuration getenv ''MINIMODAL_HEARTBEAT_INTERVAL'' (2 * Second),
     MaxRetries = envInt getenv ''MINIMODAL_MAX_RETRIES'' 3,
     MaxDispatchAttempts = envInt getenv ''MINIMODAL_MAX_DISPATCH_ATTEMPTS'' 30,
     ExecuteTaskTimeout = envDuration getenv ''MINIMODAL_EXECUTE_TASK_TIMEOUT'' (5 * Second),
     MaxPayloadBytes = envInt getenv ''MINIMODAL_MAX_PAYLOAD_BYTES'' (16 * 1024 * 1024),
     AutoscaleEnabled = envBool getenv ''MINIMODAL_AUTOSCALE'' False,
     AutoscaleMin = envInt getenv ''MINIMODAL_AUTOSCALE_MIN'' 0,
     AutoscaleMax = envInt getenv ''MINIMODAL_AUTOSCALE_MAX'' 4,
     AutoscaleQueueThreshold = envInt getenv ''MINIMODAL_AUTOSCALE_QUEUE_THRESHOLD'' 1,
     AutoscaleIdleTimeout = envDuration getenv ''MINIMODAL_AUTOSCALE_IDLE_TIMEOUT'' (30 * Second),
     AutoscaleCooldown = envDuration getenv ''MINIMODAL_AUTOSCALE_COOLDOWN'' (3 * Second),
     AutoscaleRegisterTimeout = envDuration getenv ''MINIMODAL_AUTOSCALE_REGISTER_TIMEOUT'' (15 * Second),
     AutoscaleTick = envDuration getenv ''MINIMODAL_AUTOSCALE_TICK'' (500 * Millisecond),
     WorkerCmd = envStr getenv ''MINIMODAL_WORKER_CMD'' ''.venv/bin/python -m worker.worker'',
     WorkerDir = envStr getenv ''MINIMODAL_WORKER_DIR'' ''.'',
     WorkerBasePort = envInt getenv ''MINIMODAL_WORKER_BASE_PORT'' 50100,
     RaftEnabled = envBool getenv ''MINIMODAL_RAFT'' False,
     RaftID = envStr getenv ''MINIMODAL_RAFT_ID'' ''node-1'',
     RaftBind = envStr getenv ''MINIMODAL_RAFT_BIND'' ''127.0.0.1:7000'',
     RaftDir = envStr getenv ''MINIMODAL_RAFT_DIR'' ''raft-data'',
     RaftJoin = envStr getenv ''MINIMODAL_RAFT_JOIN'' []\<rparr>"

section \<open>Printing and parsing\<close>

lemma digit_char: "d < 10 \<Longrightarrow> digit (char_of (48 + d :: nat)) = Some d"
  by (simp add: digit_def)

lemma digits_append: "digits a (xs @ ys) = (case digits a xs of None \<Rightarrow> None | Some b \<Rightarrow> digits b ys)"
  by (induction xs arbitrary: a) (auto split: option.splits)

lemma digits_show_nat: "digits 0 (show_nat n) = Some n"
proof (induction n rule: show_nat.induct)
  case (1 n)
  show ?case
  proof (cases "n < 10")
    case True
    then show ?thesis by (simp add: show_nat.simps [of n] digit_char)
  next
    case False
    with 1 have "digits 0 (show_nat (n div 10)) = Some (n div 10)" by simp
    with False show ?thesis by (simp add: show_nat.simps [of n] digits_append digit_char)
  qed
qed

lemma digits_mono: "digits a xs = Some n \<Longrightarrow> a \<le> n"
  by (induction xs arbitrary: a) (fastforce split: option.splits)+

lemma show_nat_nonempty [simp]: "show_nat n \<noteq> []"
  by (simp add: show_nat.simps [of n])

lemma show_nat_hd: obtains d cs where "show_nat n = d # cs" "digit d \<noteq> None"
proof (cases "show_nat n")
  case Nil
  then show thesis by simp
next
  case (Cons d cs)
  with digits_show_nat [of n] have "digit d \<noteq> None" by (auto split: option.splits)
  with Cons that show thesis by blast
qed

lemma sign_of_show_nat: "sign_of (show_nat n @ xs) = (False, show_nat n @ xs)"
proof -
  obtain d cs where d: "show_nat n = d # cs" "digit d \<noteq> None" by (rule show_nat_hd)
  then have "d \<noteq> CHR ''-''" "d \<noteq> CHR ''+''" by (auto simp: digit_def)
  with d show ?thesis by (simp add: sign_of_def)
qed

lemma sign_of_show_int:
  "sign_of (show_int v @ xs) = (v < 0, show_nat (nat \<bar>v\<bar>) @ xs)"
  using sign_of_show_nat [of "nat v" xs] by (auto simp: show_int_def) (simp add: sign_of_def)

lemma Atoi_show: "Atoi (show_int (sint n)) = Some n"
  using sign_of_show_int [of "sint n" "[]"] sint_bounds64 [of n]
  by (simp add: Atoi_def digits_show_nat)

lemma leadingInt_digits:
  assumes "digits x s = Some n" "n \<le> 2 ^ 63" "rest \<noteq> []" "digit (hd rest) = None"
  shows "leadingInt x (s @ rest) = Some (n, rest)"
  using assms(1)
proof (induction s arbitrary: x)
  case Nil
  with assms(3,4) show ?case by (cases rest) auto
next
  case (Cons c cs)
  then obtain d where d: "digit c = Some d" "digits (10 * x + d) cs = Some n" by (auto split: option.splits)
  from digits_mono [OF d(2)] assms(2) have "10 * x + d \<le> 2 ^ 63" by linarith
  moreover from this have "x \<le> 2 ^ 63 div 10" by linarith
  ultimately show ?case using d Cons.IH [OF d(2)] by (simp add: Let_def)
qed

lemma duration_item_show:
  assumes "n \<le> 2 ^ 63"
  shows "duration_item (show_nat n @ ''ns'') = Some (n, [])"
proof -
  obtain d cs where d: "show_nat n = d # cs" "digit d \<noteq> None" by (rule show_nat_hd)
  then have hd: "\<not> is_unit_char (hd (show_nat n @ ''ns''))" by (simp add: is_unit_char_def)
  have "leadingInt 0 (show_nat n @ ''ns'') = Some (n, ''ns'')"
    by (rule leadingInt_digits [OF digits_show_nat assms]) (simp_all add: digit_def)
  with hd d show ?thesis
    unfolding duration_item_def using assms
    by (simp add: Let_def is_unit_char_def digit_def unitMap_def)
qed

lemma ParseDuration_show: "ParseDuration (show_int (sint (n :: int64)) @ ''ns'') = Some (sint n)"
proof -
  let ?v = "nat \<bar>sint n\<bar>"
  have v: "?v \<le> 2 ^ 63" using sint_bounds64 [of n] by (simp add: nat_le_iff abs_le_iff)
  obtain c cs where c: "show_nat ?v @ ''ns'' = c # cs" by (cases "show_nat ?v @ ''ns''") auto
  have "length (show_nat ?v @ ''ns'') = Suc (length cs)" unfolding c by simp
  then have items: "duration_items (length (show_nat ?v @ ''ns'')) 0 (show_nat ?v @ ''ns'') = Some ?v"
    using duration_item_show [OF v] v unfolding c by simp
  have "show_nat ?v @ ''ns'' \<noteq> ''0''" by (cases "show_nat ?v") auto
  with items sign_of_show_int [of "sint n" "''ns''"] sint_bounds64 [of n] show ?thesis
    by (simp add: ParseDuration_def del: append_is_Nil_conv) linarith
qed

section \<open>Properties\<close>

text \<open>
  Settings are read back exactly. Whatever value an operator prints in decimal into
  the environment is the value the server runs with, over the whole range of the machine
  integer and of durations in nanoseconds; and an unset or empty variable gives the default.
\<close>
theorem settings_read_back:
  "envInt (getenv(k := show_int (sint n))) k dflt = n \<and>
   envDuration (getenv(k := show_int (sint (d :: int64)) @ ''ns'')) k dfltd = sint d \<and>
   envInt (getenv(k := [])) k dflt = dflt \<and> envDuration (getenv(k := [])) k dfltd = dfltd"
proof -
  have "show_int v \<noteq> []" for v by (simp add: show_int_def)
  then show ?thesis by (simp add: envInt_def envDuration_def Atoi_show ParseDuration_show)
qed

end
