(* ===== verification/Filepath.thy ===== *)
theory Filepath
  imports Prelude
begin

text \<open>
  The functions of \<open>path/filepath\<close> the orchestrator calls, on Unix: \<open>Clean\<close> (the
  lexical normal form), \<open>Join\<close>, \<open>Dir\<close> and \<open>Abs\<close>. A path is split at its slashes;
  \<open>norm_elems\<close> drops empty and \<open>.\<close> elements and lets \<open>..\<close> cancel the element before
  it, or vanish at the root.
\<close>

fun split_path :: "string \<Rightarrow> string \<Rightarrow> string list" where
  "split_path cur [] = [cur]"
| "split_path cur (c # cs) = (if c = CHR ''/'' then cur # split_path [] cs else split_path (cur @ [c]) cs)"

text \<open>The elements kept so far, the last one first.\<close>

fun norm_elems :: "bool \<Rightarrow> string list \<Rightarrow> string list \<Rightarrow> string list" where
  "norm_elems rooted kept [] = rev kept"
| "norm_elems rooted kept (e # es) =
     (if e = [] \<or> e = ''.'' then norm_elems rooted kept es
      else if e = ''..'' then
        (case kept of
           [] \<Rightarrow> norm_elems rooted (if rooted then [] else [e]) es
         | k # ks \<Rightarrow> norm_elems rooted (if k = ''..'' then e # kept else ks) es)
      else norm_elems rooted (e # kept) es)"

fun join_elems :: "string list \<Rightarrow> string" where
  "join_elems [] = []"
| "join_elems [e] = e"
| "join_elems (e # es) = e @ ''/'' @ join_elems es"

definition IsAbs :: "string \<Rightarrow> bool" where
  "IsAbs p \<longleftrightarrow> p \<noteq> [] \<and> hd p = CHR ''/''"

definition Clean :: "string \<Rightarrow> string" where
  "Clean p =
     (let es = norm_elems (IsAbs p) [] (split_path [] p)
      in if IsAbs p then ''/'' @ join_elems es else if es = [] then ''.'' else join_elems es)"

fun filepath_Join :: "string list \<Rightarrow> string" where
  "filepath_Join [] = []"
| "filepath_Join (e # es) = (if e = [] then filepath_Join es else Clean (join_elems (e # es)))"

text \<open>\<open>Dir\<close>: everything up to the last slash.\<close>

definition Dir :: "string \<Rightarrow> string" where
  "Dir p = Clean (rev (dropWhile (\<lambda>c. c \<noteq> CHR ''/'') (rev p)))"

text \<open>\<open>wd\<close> is the answer of \<open>os.Getwd\<close>; the caller ignores the error and sees an empty path.\<close>

definition Abs :: "string result \<Rightarrow> string \<Rightarrow> string" where
  "Abs wd p = (if IsAbs p then Clean p else case wd of Inl e \<Rightarrow> [] | Inr d \<Rightarrow> filepath_Join [d, p])"

section \<open>Normal forms\<close>

text \<open>Elements of a normal form: no empty one, no dot, \<open>..\<close> only in front of a relative path.\<close>

definition plain :: "string \<Rightarrow> bool" where
  "plain e \<longleftrightarrow> e \<noteq> [] \<and> e \<noteq> ''.'' \<and> e \<noteq> ''..'' \<and> CHR ''/'' \<notin> set e"

definition normal :: "bool \<Rightarrow> string list \<Rightarrow> bool" where
  "normal rooted es \<longleftrightarrow> (\<exists>n ps. es = replicate n ''..'' @ ps \<and> (\<forall>e \<in> set ps. plain e) \<and> (rooted \<longrightarrow> n = 0))"

lemma split_path_elems:
  assumes "CHR ''/'' \<notin> set cur" "e \<in> set (split_path cur p)"
  shows "CHR ''/'' \<notin> set e"
  using assms
proof (induction p arbitrary: cur)
  case Nil
  then show ?case by simp
next
  case (Cons c p)
  show ?case
  proof (cases "c = CHR ''/''")
    case True
    with Cons.prems Cons.IH [of "[]"] show ?thesis by auto
  next
    case False
    with Cons.prems Cons.IH [of "cur @ [c]"] show ?thesis by auto
  qed
qed

lemma norm_elems_normal:
  assumes "normal rooted (rev kept)" "\<And>e. e \<in> set es \<Longrightarrow> CHR ''/'' \<notin> set e"
  shows "normal rooted (norm_elems rooted kept es)"
  using assms
proof (induction es arbitrary: kept)
  case Nil
  then show ?case by simp
next
  case (Cons e es)
  have rest: "\<And>e'. e' \<in> set es \<Longrightarrow> CHR ''/'' \<notin> set e'" using Cons.prems(2) by simp
  from Cons.prems(1) obtain n ps where k: "rev kept = replicate n ''..'' @ ps" "\<forall>e \<in> set ps. plain e" "rooted \<longrightarrow> n = 0"
    by (auto simp: normal_def)
  show ?case
  proof (cases "e = [] \<or> e = ''.''")
    case True
    with Cons.IH [OF Cons.prems(1) rest] show ?thesis by simp
  next
    case nodot: False
    show ?thesis
    proof (cases "e = ''..''")
      case False
      with nodot Cons.prems(2) [of e] have "plain e" by (simp add: plain_def)
      with k have "normal rooted (rev (e # kept))"
        unfolding normal_def by (intro exI [where x = n] exI [where x = "ps @ [e]"]) auto
      from Cons.IH [OF this rest] nodot False show ?thesis by simp
    next
      case up: True
      show ?thesis
      proof (cases "ps = []")
        case True
        have "normal rooted (rev (if rooted then kept else e # kept))"
          using k True up unfolding normal_def
          by (cases rooted) (auto intro: exI [where x = "Suc n"] simp: replicate_append_same)
        moreover have "kept = replicate n ''..''" using k(1) True by (metis append_Nil2 rev_replicate rev_rev_ident)
        ultimately show ?thesis
          using Cons.IH [OF _ rest] up k(3) by (cases n; cases rooted) simp_all
      next
        case False
        then obtain qs q where q: "ps = qs @ [q]" by (meson rev_exhaust)
        then have kept: "kept = q # rev (replicate n ''..'' @ qs)" using k(1) by (metis append.assoc rev.simps(2) rev_append rev_rev_ident rev_swap append_Cons append_Nil rev_singleton_conv)
        have "plain q" using q k(2) by simp
        then have "q \<noteq> ''..''" by (simp add: plain_def)
        moreover have "normal rooted (rev (rev (replicate n ''..'' @ qs)))"
          using q k(2,3) unfolding normal_def rev_rev_ident by (intro exI [where x = n] exI [where x = qs]) auto
        ultimately show ?thesis using Cons.IH [OF _ rest] up kept by simp
      qed
    qed
  qed
qed

lemma norm_elems_fixed: "normal rooted (rev kept @ es) \<Longrightarrow> norm_elems rooted kept es = rev kept @ es"
proof (induction es arbitrary: kept)
  case Nil
  then show ?case by simp
next
  case (Cons e es)
  from Cons.prems obtain n ps where k: "rev kept @ e # es = replicate n ''..'' @ ps" "\<forall>e \<in> set ps. plain e" "rooted \<longrightarrow> n = 0"
    by (auto simp: normal_def)
  have "norm_elems rooted kept (e # es) = norm_elems rooted (e # kept) es"
  proof (cases "length kept < n")
    case True
    have e: "e = ''..''" "\<not> rooted" "set kept \<subseteq> {''..''}"
    proof -
      have "(rev kept @ e # es) ! length kept = ''..''" unfolding k(1) using True by (simp add: nth_append)
      then show "e = ''..''" by (simp add: nth_append)
      show "\<not> rooted" using True k(3) by auto
      have "take (length kept) (rev kept @ e # es) = take (length kept) (replicate n ''..'' @ ps)" using k(1) by simp
      then have "rev kept = replicate (length kept) ''..''" using True by simp
      then show "set kept \<subseteq> {''..''}" by (metis set_rev set_replicate_Suc set_replicate_conv_if empty_subsetI order_refl)
    qed
    then show ?thesis by (cases kept) auto
  next
    case False
    then have "e \<in> set ps"
    proof -
      have "e = (rev kept @ e # es) ! length kept" by (simp add: nth_append)
      also have "\<dots> = ps ! (length kept - n)" unfolding k(1) using False by (simp add: nth_append)
      finally have "e = ps ! (length kept - n)" .
      moreover have "length kept - n < length ps"
        using False arg_cong [OF k(1), of length] by simp
      ultimately show ?thesis by simp
    qed
    with k(2) show ?thesis by (auto simp: plain_def)
  qed
  with Cons.IH [of "e # kept"] Cons.prems show ?case by simp
qed

lemma split_path_plain: "CHR ''/'' \<notin> set e \<Longrightarrow> split_path cur e = [cur @ e]"
  by (induction e arbitrary: cur) auto

lemma split_path_slash: "CHR ''/'' \<notin> set e \<Longrightarrow> split_path cur (e @ ''/'' @ p) = (cur @ e) # split_path [] p"
  by (induction e arbitrary: cur) auto

lemma split_join:
  "es \<noteq> [] \<Longrightarrow> (\<And>e. e \<in> set es \<Longrightarrow> CHR ''/'' \<notin> set e) \<Longrightarrow> split_path [] (join_elems es) = es"
proof (induction es rule: join_elems.induct)
  case (2 e)
  then show ?case by (simp add: split_path_plain)
next
  case (3 e f es)
  have rest: "split_path [] (join_elems (f # es)) = f # es"
  proof (rule "3.IH")
    show "CHR ''/'' \<notin> set g" if "g \<in> set (f # es)" for g using that "3.prems"(2) [of g] by simp
  qed simp
  have "CHR ''/'' \<notin> set e" using "3.prems"(2) [of e] by simp
  from split_path_slash [OF this, of "[]" "join_elems (f # es)"] rest show ?case by simp
qed simp

lemma normal_elem: "normal rooted es \<Longrightarrow> e \<in> set es \<Longrightarrow> e \<noteq> [] \<and> CHR ''/'' \<notin> set e"
proof -
  assume "normal rooted es" "e \<in> set es"
  then obtain n ps where "e \<in> set (replicate n ''..'' @ ps)" "\<forall>e \<in> set ps. plain e" unfolding normal_def by blast
  then have "e = ''..'' \<or> plain e" by (auto split: if_splits)
  then show ?thesis by (auto simp: plain_def)
qed

lemma join_hd:
  assumes "normal rooted es" "es \<noteq> []"
  shows "join_elems es \<noteq> [] \<and> hd (join_elems es) \<noteq> CHR ''/''"
proof -
  from assms(2) obtain e fs where es: "es = e # fs" by (cases es) auto
  with normal_elem [OF assms(1), of e] have e: "e \<noteq> []" "CHR ''/'' \<notin> set e" by auto
  then have "hd e \<noteq> CHR ''/''" by (metis list.set_sel(1))
  with e es show ?thesis by (cases fs) auto
qed

lemma clean_normal: "normal rooted (norm_elems rooted [] (split_path [] p))"
proof (rule norm_elems_normal)
  show "normal rooted (rev [])" by (simp add: normal_def)
  show "CHR ''/'' \<notin> set e" if "e \<in> set (split_path [] p)" for e by (rule split_path_elems [OF _ that]) simp
qed

text \<open>\<open>Clean\<close> is idempotent, and keeps a path absolute or relative.\<close>

lemma Clean_IsAbs: "IsAbs (Clean p) = IsAbs p"
proof -
  have n: "normal (IsAbs p) (norm_elems (IsAbs p) [] (split_path [] p))"
    by (rule clean_normal)
  show ?thesis
  proof (cases "IsAbs p")
    case True
    then show ?thesis by (simp add: Clean_def Let_def IsAbs_def)
  next
    case False
    with join_hd [OF n] show ?thesis by (auto simp: Clean_def Let_def IsAbs_def)
  qed
qed

lemma Clean_idem: "Clean (Clean p) = Clean p"
proof -
  let ?r = "IsAbs p"
  define es where "es = norm_elems ?r [] (split_path [] p)"
  have n: "normal ?r es" unfolding es_def
    by (rule clean_normal)
  have c: "Clean p = (if ?r then ''/'' @ join_elems es else if es = [] then ''.'' else join_elems es)"
    by (simp add: Clean_def es_def Let_def)
  have fixed: "norm_elems ?r [] es = es" using norm_elems_fixed [of ?r "[]" es] n by simp
  have again: "norm_elems ?r [] (split_path [] (Clean p)) = es"
  proof (cases "es = []")
    case True
    then show ?thesis unfolding c by (cases ?r) simp_all
  next
    case False
    then have "split_path [] (join_elems es) = es" using normal_elem [OF n] by (intro split_join) auto
    with False fixed show ?thesis unfolding c by (cases ?r) simp_all
  qed
  have "Clean (Clean p) = (if ?r then ''/'' @ join_elems es else if es = [] then ''.'' else join_elems es)"
    by (simp only: Clean_def [of "Clean p"] Clean_IsAbs Let_def again)
  then show ?thesis by (simp only: c)
qed

end
