(* ===== verification/Raft_Cluster.thy ===== *)
theory Raft_Cluster
  imports Raft_Store Config Filepath
begin

text \<open>
  How a raft node comes up and joins its cluster: \<open>NewRaftStore\<close>,
  \<open>newRaftStoreWithDeps\<close> and \<open>Status\<close> of \<open>raft_store.go\<close>, and
  \<open>joinRaftCluster\<close> of \<open>main.go\<close>. Opening files, resolving addresses, starting raft
  and posting over HTTP happen outside the program; \<open>cluster_api\<close> has their answers.
\<close>

section \<open>Status\<close>

record RaftServerInfo =
  si_ID :: string
  si_Address :: string
  si_Suffrage :: string

record RaftStatus =
  rs_ID :: string
  rs_State :: string
  rs_LeaderID :: string
  rs_LeaderAddr :: string
  rs_Servers :: "RaftServerInfo list"
  rs_LastIndex :: "64 word"
  rs_AppliedIdx :: "64 word"

fun state_String :: "raft_state \<Rightarrow> string" where
  "state_String Follower = ''Follower''"
| "state_String Candidate = ''Candidate''"
| "state_String Leader = ''Leader''"
| "state_String Shutdown = ''Shutdown''"

text \<open>The calls that only the status report makes; the configuration's future may fail.\<close>

record 'r raft_report =
  raft_LastIndex :: "'r \<Rightarrow> 64 word"
  raft_AppliedIndex :: "'r \<Rightarrow> 64 word"
  raft_GetConfiguration :: "'r \<Rightarrow> RaftServerInfo list result"

definition RaftStore_Status :: "'r raft_api \<Rightarrow> 'r raft_report \<Rightarrow> string \<Rightarrow> ('r, 'db) RaftNode \<Rightarrow> RaftStatus" where
  "RaftStore_Status R Q localID s =
     (case raft_LeaderWithID R (raft s) of (leaderAddr, leaderID) \<Rightarrow>
        \<lparr>rs_ID = localID, rs_State = state_String (raft_State R (raft s)), rs_LeaderID = leaderID, rs_LeaderAddr = leaderAddr,
         rs_Servers = (case raft_GetConfiguration Q (raft s) of Inl e \<Rightarrow> [] | Inr srvs \<Rightarrow> srvs),
         rs_LastIndex = raft_LastIndex Q (raft s), rs_AppliedIdx = raft_AppliedIndex Q (raft s)\<rparr>)"

section \<open>Construction\<close>

record ('db, 'lg, 'sn, 'tr) RaftDeps =
  LocalID :: string
  FSMStore :: 'db
  Logs :: 'lg
  Stable :: 'lg
  Snapshots :: 'sn
  Transport :: 'tr

record ('db, 'lg, 'sn, 'ad, 'tr, 'r) cluster_api =
  os_MkdirAll :: "string \<Rightarrow> go_error option"
  raftboltdb_NewBoltStore :: "string \<Rightarrow> 'lg result"
  raft_NewFileSnapshotStore :: "string \<Rightarrow> nat \<Rightarrow> 'sn result"
  net_ResolveTCPAddr :: "string \<Rightarrow> 'ad result"
  raft_NewTCPTransport :: "string \<Rightarrow> 'ad \<Rightarrow> nat \<Rightarrow> duration \<Rightarrow> 'tr result"
  raft_NewRaft :: "('db, 'lg, 'sn, 'tr) RaftDeps \<Rightarrow> 'r result"
  raft_BootstrapCluster :: "'r \<Rightarrow> (string \<times> string) list \<Rightarrow> 'r \<times> go_error option"

definition raft_ErrCantBootstrap :: sentinel where
  "raft_ErrCantBootstrap = External ''bootstrap only works on new clusters''"

definition newRaftStoreWithDeps ::
  "('db, 'lg, 'sn, 'ad, 'tr, 'r) cluster_api \<Rightarrow> ('db, 'lg, 'sn, 'tr) RaftDeps \<Rightarrow> ('r, 'db) RaftNode result" where
  "newRaftStoreWithDeps K deps =
     (case raft_NewRaft K deps of
        Inl err \<Rightarrow> Inl (Wrapf ''start raft: '' err [])
      | Inr r \<Rightarrow> Inr \<lparr>raft = r, inner = FSMStore deps\<rparr>)"

definition bootstrap ::
  "('db, 'lg, 'sn, 'ad, 'tr, 'r) cluster_api \<Rightarrow> Config \<Rightarrow> ('r, 'db) RaftNode \<Rightarrow> ('r, 'db) RaftNode result" where
  "bootstrap K c store =
     (case raft_BootstrapCluster K (raft store) [(RaftID c, RaftBind c)] of
        (r, Some err) \<Rightarrow>
          (if \<not> errors_Is err raft_ErrCantBootstrap then Inl (Wrapf ''bootstrap: '' err []) else Inr (store\<lparr>raft := r\<rparr>))
      | (r, None) \<Rightarrow> Inr (store\<lparr>raft := r\<rparr>))"

definition NewRaftStore ::
  "'db bolt_api \<Rightarrow> ('db, 'lg, 'sn, 'ad, 'tr, 'r) cluster_api \<Rightarrow> Config \<Rightarrow> ('r, 'db) RaftNode result" where
  "NewRaftStore B K c =
     (case os_MkdirAll K (RaftDir c) of
        Some err \<Rightarrow> Inl err
      | None \<Rightarrow>
          rbind (NewBoltStore B (filepath_Join [RaftDir c, ''fsm.db''])) (\<lambda>fsmStore.
          rbind (raftboltdb_NewBoltStore K (filepath_Join [RaftDir c, ''raft.db''])) (\<lambda>logs.
          rbind (raft_NewFileSnapshotStore K (RaftDir c) 2) (\<lambda>snaps.
          case net_ResolveTCPAddr K (RaftBind c) of
            Inl err \<Rightarrow> Inl (Wrapf (''resolve raft bind '' @ RaftBind c @ '': '') err [])
          | Inr addr \<Rightarrow>
              (case raft_NewTCPTransport K (RaftBind c) addr 3 (10 * Second) of
                 Inl err \<Rightarrow> Inl (Wrapf (''raft transport on '' @ RaftBind c @ '': '') err [])
               | Inr tr \<Rightarrow>
                   rbind (newRaftStoreWithDeps K \<lparr>LocalID = RaftID c, FSMStore = fsmStore, Logs = logs, Stable = logs,
                            Snapshots = snaps, Transport = tr\<rparr>) (\<lambda>store.
                   if RaftJoin c = [] then bootstrap K c store else Inr store))))))"

section \<open>Joining\<close>

text \<open>\<open>strings.TrimRight(url, "/")\<close>.\<close>

definition trim_slashes :: "string \<Rightarrow> string" where
  "trim_slashes u = rev (dropWhile (\<lambda>c. c = CHR ''/'') (rev u))"

definition join_url :: "Config \<Rightarrow> string" where
  "join_url c = trim_slashes (RaftJoin c) @ ''/raft/join''"

datatype post_result = PostFailed go_error | StatusCode nat

text \<open>
  \<open>post k\<close> is the answer to the \<open>k\<close>-th request, counted from one. The result is whether
  the node joined, after how many requests, and the times slept.
\<close>

fun join_loop :: "(nat \<Rightarrow> post_result) \<Rightarrow> nat \<Rightarrow> nat \<Rightarrow> duration \<Rightarrow> duration list \<Rightarrow> bool \<times> nat \<times> duration list" where
  "join_loop post n 0 backoff slept = (False, n, slept)"
| "join_loop post n (Suc left) backoff slept =
     (if post (Suc n) = StatusCode 204 then (True, Suc n, slept)
      else join_loop post (Suc n) left (if backoff < 5 * Second then 2 * backoff else backoff) (slept @ [backoff]))"

definition joinRaftCluster :: "(nat \<Rightarrow> post_result) \<Rightarrow> bool \<times> nat \<times> duration list" where
  "joinRaftCluster post = join_loop post 0 30 Second []"

text \<open>The \<open>k\<close>-th wait: 1, 2, 4, then 8 seconds.\<close>

definition join_wait :: "nat \<Rightarrow> duration" where
  "join_wait k = Second * 2 ^ min k 3"

lemma join_wait_next: "(if join_wait k < 5 * Second then 2 * join_wait k else join_wait k) = join_wait (Suc k)"
proof -
  consider "k = 0" | "k = 1" | "k = 2" | "k \<ge> 3" by linarith
  then show ?thesis by cases (simp_all add: join_wait_def Second_def Millisecond_def min_def)
qed

lemma join_loop_spec:
  assumes "join_loop post n left (join_wait n) (map join_wait [0..<n]) = (ok, m, slept)"
  shows "n \<le> m \<and> m \<le> n + left \<and> slept = map join_wait [0..<(if ok then m - 1 else m)] \<and>
    (\<forall>k. n < k \<and> k < m + (if ok then 0 else 1) \<longrightarrow> post k \<noteq> StatusCode 204) \<and>
    (if ok then n < m \<and> post m = StatusCode 204 else m = n + left)"
  using assms
proof (induction left arbitrary: n)
  case 0
  then show ?case by auto
next
  case (Suc left)
  show ?case
  proof (cases "post (Suc n) = StatusCode 204")
    case True
    with Suc.prems show ?thesis by auto
  next
    case False
    have "map join_wait [0..<n] @ [join_wait n] = map join_wait [0..<Suc n]" by simp
    with False Suc.prems have "join_loop post (Suc n) left (join_wait (Suc n)) (map join_wait [0..<Suc n]) = (ok, m, slept)"
      by (simp only: join_loop.simps if_False join_wait_next)
    from Suc.IH [OF this] False show ?thesis
      by (auto split: if_splits) (metis Suc_lessI)+
  qed
qed

section \<open>Properties\<close>

text \<open>
  Joining ends. A node sends at most 30 join requests and stops at the first that is
  answered with 204; it reports success exactly if one of them is. It sleeps between them
  for 1, 2, 4 and from then on 8 seconds, which is past the 5 seconds the loop compares with.
\<close>
theorem join_bounded:
  assumes "joinRaftCluster post = (ok, n, slept)"
  shows "n \<le> 30 \<and> (ok \<longleftrightarrow> (\<exists>k. 0 < k \<and> k \<le> 30 \<and> post k = StatusCode 204)) \<and>
    (ok \<longrightarrow> post n = StatusCode 204 \<and> (\<forall>k. 0 < k \<and> k < n \<longrightarrow> post k \<noteq> StatusCode 204)) \<and>
    slept = map (\<lambda>k. Second * 2 ^ min k 3) [0..<(if ok then n - 1 else 30)]"
proof -
  have "join_loop post 0 30 (join_wait 0) (map join_wait [0..<0]) = (ok, n, slept)"
    using assms by (simp add: joinRaftCluster_def join_wait_def del: join_loop.simps)
  note J = join_loop_spec [OF this]
  show ?thesis
  proof (cases ok)
    case True
    with J have n: "0 < n" "n \<le> 30" "post n = StatusCode 204" "\<forall>k. 0 < k \<and> k < n \<longrightarrow> post k \<noteq> StatusCode 204"
      "slept = map join_wait [0..<n - 1]" by auto
    then have "\<exists>k. 0 < k \<and> k \<le> 30 \<and> post k = StatusCode 204" by blast
    with n True show ?thesis by (simp add: join_wait_def)
  next
    case False
    with J have n: "n = 30" "\<forall>k. 0 < k \<and> k < Suc 30 \<longrightarrow> post k \<noteq> StatusCode 204" "slept = map join_wait [0..<30]" by auto
    then have "\<not> (\<exists>k. 0 < k \<and> k \<le> 30 \<and> post k = StatusCode 204)" by auto
    with n False show ?thesis by (simp add: join_wait_def)
  qed
qed

theorem join_bounded_witness:
  "joinRaftCluster (\<lambda>k. if k = 3 then StatusCode 204 else StatusCode 409) = (True, 3, [Second, 2 * Second]) \<and>
   [Second, 2 * Second] = map (\<lambda>k. Second * 2 ^ min k 3) [0..<2]"
proof -
  have j: "joinRaftCluster (\<lambda>k. if k = 3 then StatusCode 204 else StatusCode 409) = (True, 3, [Second, 2 * Second])"
    by (simp add: joinRaftCluster_def numeral_eq_Suc Second_def Millisecond_def)
  with join_bounded [OF j] show ?thesis by simp
qed

end
