(* ===== verification/Proto.thy ===== *)
theory Proto
  imports Prelude
begin

text \<open>
  The messages of \<open>minimodal.proto\<close> that the orchestrator's handlers read and write, as
  the generated Go structs present them: enums as datatypes, messages as records, the
  \<open>oneof\<close> of a job event as a datatype. gRPC status errors carry a code and a text.
\<close>

datatype pb_JobStatus =
  JOB_STATUS_UNKNOWN | JOB_STATUS_PENDING | JOB_STATUS_RUNNING | JOB_STATUS_DONE | JOB_STATUS_FAILED

record LogLine =
  Line :: string
  IsStderr :: bool
  TsUnixMs :: int64

record JobResult =
  r_Status :: pb_JobStatus
  r_ResultBytes :: bytes
  r_Error :: string
  r_ColdStartMs :: int64
  r_TotalDurationMs :: int64
  r_RetryCount :: int32
  r_WorkerId :: string

datatype event = EvStatus pb_JobStatus | EvLog LogLine | EvResult JobResult

record JobEvent =
  ev_JobId :: string
  Event :: event

fun GetResult :: "event \<Rightarrow> JobResult option" where
  "GetResult (EvResult r) = Some r"
| "GetResult _ = None"

record InvokeFunctionRequest =
  i_FunctionBytes :: bytes
  i_ArgsBytes :: bytes
  i_FunctionName :: string
  i_IdempotencyKey :: string

record JobStatusResponse =
  s_JobId :: string
  s_Status :: pb_JobStatus
  s_ResultBytes :: bytes
  s_Error :: string
  s_ColdStartMs :: int64
  s_TotalDurationMs :: int64
  s_RetryCount :: int32
  s_WorkerId :: string

record ReportTaskResultRequest =
  t_JobId :: string
  t_WorkerId :: string
  Success :: bool
  t_ResultBytes :: bytes
  t_Error :: string
  t_ColdStartMs :: int64
  t_ExecutionMs :: int64
  TailLines :: "LogLine list"

record RegisterWorkerRequest =
  w_WorkerId :: string
  w_Address :: string
  w_Capacity :: int32

record RegisterWorkerResponse =
  w_Echo :: string
  HeartbeatIntervalMs :: int32

record HeartbeatRequest =
  h_WorkerId :: string
  h_ActiveTasks :: int32

record TaskLogChunk =
  c_JobId :: string
  c_WorkerId :: string
  c_Lines :: "LogLine list"

record ExecuteTaskRequest =
  x_JobId :: string
  x_FunctionBytes :: bytes
  x_ArgsBytes :: bytes
  x_FunctionName :: string

record ExecuteTaskResponse =
  Accepted :: bool
  RejectionReason :: string

datatype code = InvalidArgument | NotFound | Internal | FailedPrecondition

datatype grpc_error = GrpcStatus code string

type_synonym 'a rpc = "grpc_error + 'a"

end
