(* ===== verification/Job_Lifecycle.thy ===== *)
theory Job_Lifecycle
  imports Store_Interface Proto
begin

text \<open>
  The life of a job. Every state change of a stored job is a mutator closure that the
  scheduler or the server hands to \<open>Store.Transition\<close>; they are defined here, one per
  closure. Because each \<open>Transition\<close> is atomic, every interleaving of concurrent
  dispatchers, result reports, reapers and recoveries is a path of the step relation
  \<open>store_step\<close> on the abstract store: one mutator on one job, or the submission of a new
  job. The invariants over all such paths are proved by rule induction.
\<close>

section \<open>The mutators\<close>

definition skip :: go_error where
  "skip = Sentinel ErrSkipTransition"

text \<open>Scheduler: before the RPC, after a refused RPC, and for a record without payload.\<close>

definition markRunning :: "string \<Rightarrow> mutator" where
  "markRunning workerID r =
     (if Status r = StatusDone \<or> Status r = StatusFailed then Inl skip
      else Inr (r\<lparr>Status := StatusRunning, WorkerID := workerID\<rparr>))"

definition revertPending :: mutator where
  "revertPending r =
     (if Status r = StatusDone \<or> Status r = StatusFailed then Inl skip
      else Inr (r\<lparr>Status := StatusPending, WorkerID := [], RetryCount := RetryCount r + 1\<rparr>))"

definition failMissingPayload :: mutator where
  "failMissingPayload r =
     Inr (r\<lparr>Status := StatusFailed, Error := ''missing payload (pre-Phase-4 WAL entry)''\<rparr>)"

text \<open>Server: a dispatch that failed for good, a dead worker's job, a report, recovery.\<close>

definition failDispatch :: "string \<Rightarrow> mutator" where
  "failDispatch msg r =
     (if Status r = StatusDone \<or> Status r = StatusFailed then Inl skip
      else Inr (r\<lparr>Status := StatusFailed, Error := msg\<rparr>))"

definition reap :: "int64 \<Rightarrow> mutator" where
  "reap maxRetries r =
     (if Status r \<noteq> StatusRunning then Inl skip
      else let r1 = r\<lparr>RetryCount := RetryCount r + 1\<rparr>
           in if sint (RetryCount r1) > sint maxRetries
              then Inr (r1\<lparr>Status := StatusFailed, Error := ''exceeded max retries after worker death(s)''\<rparr>)
              else Inr (r1\<lparr>Status := StatusPending, WorkerID := []\<rparr>))"

definition report :: "ReportTaskResultRequest \<Rightarrow> mutator" where
  "report req r =
     (if Status r = StatusDone \<or> Status r = StatusFailed then Inl skip
      else let r1 = (if Success req then r\<lparr>Status := StatusDone, Error := []\<rparr>
                     else r\<lparr>Status := StatusFailed, Error := t_Error req\<rparr>)
           in Inr (r1\<lparr>FunctionBytes := [], ArgsBytes := [], ResultBytes := t_ResultBytes req,
                      ColdStartMs := t_ColdStartMs req, ExecutionMs := t_ExecutionMs req\<rparr>))"

definition recover :: mutator where
  "recover r = Inr (if Status r = StatusRunning then r\<lparr>Status := StatusPending, WorkerID := []\<rparr> else r)"

lemmas mutator_defs = markRunning_def revertPending_def failMissingPayload_def failDispatch_def
  reap_def report_def recover_def skip_def

lemma mutators_ok [simp]:
  "mut_ok (markRunning w)" "mut_ok revertPending" "mut_ok failMissingPayload" "mut_ok (failDispatch msg)"
  "mut_ok (reap n)" "mut_ok (report req)" "mut_ok recover"
  by (auto simp: mut_ok_def mutator_defs Let_def split: if_splits)

section \<open>Steps of one job\<close>

text \<open>
  \<open>failMissingPayload\<close> has no guard of its own: \<open>Dispatch\<close> uses it on a job it loaded
  without payload and not yet terminal. The relation lets it act on such records only.
\<close>

inductive job_step :: "JobRecord \<Rightarrow> JobRecord \<Rightarrow> bool" where
  run: "markRunning w r = Inr r' \<Longrightarrow> job_step r (stamp now r')"
| revert: "revertPending r = Inr r' \<Longrightarrow> job_step r (stamp now r')"
| no_payload: "FunctionBytes r = [] \<Longrightarrow> \<not> terminal r \<Longrightarrow> failMissingPayload r = Inr r' \<Longrightarrow> job_step r (stamp now r')"
| give_up: "failDispatch msg r = Inr r' \<Longrightarrow> job_step r (stamp now r')"
| reaped: "reap n r = Inr r' \<Longrightarrow> job_step r (stamp now r')"
| reported: "report req r = Inr r' \<Longrightarrow> job_step r (stamp now r')"
| recovered: "recover r = Inr r' \<Longrightarrow> job_step r (stamp now r')"

definition known_status :: "JobRecord \<Rightarrow> bool" where
  "known_status r \<longleftrightarrow> Status r \<in> {StatusPending, StatusRunning, StatusDone, StatusFailed}"

text \<open>
  What holds of every job accepted by \<open>InvokeFunction\<close>, at every moment: a known status,
  a payload as long as it may have to be dispatched again, no worker while it waits, no
  payload once it is done.
\<close>

definition job_ok :: "JobRecord \<Rightarrow> bool" where
  "job_ok r \<longleftrightarrow> known_status r \<and> (\<not> terminal r \<longrightarrow> FunctionBytes r \<noteq> []) \<and>
     (Status r = StatusPending \<longrightarrow> WorkerID r = []) \<and>
     (Status r = StatusDone \<longrightarrow> FunctionBytes r = [] \<and> ArgsBytes r = [] \<and> Error r = [])"

lemmas status_defs = StatusPending_def StatusRunning_def StatusDone_def StatusFailed_def

lemma job_step_ok:
  assumes "job_step r r'" "job_ok r"
  shows "job_ok r'"
  using assms
  by (cases rule: job_step.cases)
    (auto simp: job_ok_def known_status_def terminal_def mutator_defs Let_def split: if_splits)

lemma job_step_terminal:
  "job_step r r' \<Longrightarrow> terminal r \<Longrightarrow> CreatedAt r \<noteq> 0 \<Longrightarrow> r' = r\<lparr>UpdatedAt := UpdatedAt r'\<rparr>"
  by (erule job_step.cases)
    (auto simp: terminal_def mutator_defs stamp_def IsZero_def Let_def split: if_splits)

lemma job_step_identity:
  "job_step r r' \<Longrightarrow> ID r' = ID r \<and> IdempotencyKey r' = IdempotencyKey r \<and> FunctionName r' = FunctionName r \<and>
     (CreatedAt r \<noteq> 0 \<longrightarrow> CreatedAt r' = CreatedAt r)"
  by (erule job_step.cases) (auto simp: mutator_defs Let_def stamp_CreatedAt split: if_splits)

lemma job_step_payload:
  "job_step r r' \<Longrightarrow> \<not> terminal r' \<Longrightarrow> FunctionBytes r' = FunctionBytes r \<and> ArgsBytes r' = ArgsBytes r"
  by (erule job_step.cases) (auto simp: terminal_def mutator_defs Let_def split: if_splits)

lemma job_step_retries:
  "job_step r r' \<Longrightarrow> RetryCount r' = RetryCount r \<or> RetryCount r' = RetryCount r + 1"
  by (erule job_step.cases) (auto simp: mutator_defs Let_def split: if_splits)

section \<open>Steps of the store\<close>

inductive store_step :: "abs_store \<Rightarrow> abs_store \<Rightarrow> bool" where
  job: "a_jobs a i = Some r \<Longrightarrow> job_step r r' \<Longrightarrow> store_step a (a\<lparr>a_jobs := (a_jobs a)(i \<mapsto> r')\<rparr>)"
| new: "a_jobs a (ID r) = None \<Longrightarrow> Status r = StatusPending \<Longrightarrow> WorkerID r = [] \<Longrightarrow> FunctionBytes r \<noteq> [] \<Longrightarrow>
    CreatedAt r \<noteq> 0 \<Longrightarrow> spec_Submit now r key a = (a', ID r, True, None) \<Longrightarrow> store_step a a'"

text \<open>The transitive closure: everything any number of concurrent handlers can do.\<close>

abbreviation store_moves :: "abs_store \<Rightarrow> abs_store \<Rightarrow> bool" where
  "store_moves \<equiv> store_step\<^sup>*\<^sup>*"

definition store_ok :: "abs_store \<Rightarrow> bool" where
  "store_ok a \<longleftrightarrow> abs_ok a \<and> (\<forall>i r. a_jobs a i = Some r \<longrightarrow> job_ok r \<and> CreatedAt r \<noteq> 0)"

lemma spec_Submit_created:
  assumes "spec_Submit now r key a = (a', i, True, None)"
  shows "a_jobs a' = (a_jobs a)(ID r \<mapsto> stamp now (r\<lparr>IdempotencyKey := key\<rparr>)) \<and> i = ID r \<and>
    a_idem a' = (if key = [] then a_idem a else (a_idem a)(key \<mapsto> ID r))"
  using assms by (auto simp: spec_Submit_def Let_def split: option.splits if_splits)

lemma store_step_ok:
  assumes "store_step a a'" "store_ok a"
  shows "store_ok a'"
  using assms(1)
proof cases
  case (job i r r')
  note id = job_step_identity [OF job(3)]
  have "abs_ok a'"
    using assms(2) job id by (fastforce simp: store_ok_def abs_ok_def)
  moreover have "job_ok r' \<and> CreatedAt r' \<noteq> 0"
    using assms(2) job id job_step_ok [OF job(3)] by (auto simp: store_ok_def)
  ultimately show ?thesis using assms(2) job by (auto simp: store_ok_def)
next
  case (new r now key)
  have "abs_ok a'" using spec_Submit_abs_ok [OF _ new(1) new(6)] assms(2) by (simp add: store_ok_def)
  moreover have "job_ok (stamp now (r\<lparr>IdempotencyKey := key\<rparr>)) \<and> CreatedAt (stamp now (r\<lparr>IdempotencyKey := key\<rparr>)) \<noteq> 0"
    using new by (simp add: job_ok_def known_status_def terminal_def stamp_CreatedAt)
  ultimately show ?thesis
    using assms(2) spec_Submit_created [OF new(6)] by (auto simp: store_ok_def)
qed

lemma store_moves_ok: "store_moves a a' \<Longrightarrow> store_ok a \<Longrightarrow> store_ok a'"
  by (induction rule: rtranclp_induct) (auto intro: store_step_ok)

lemma store_step_job:
  assumes "store_step a a'" "a_jobs a i = Some r"
  shows "\<exists>r'. a_jobs a' i = Some r' \<and> (r' = r \<or> job_step r r')"
  using assms(1)
proof cases
  case (job j s s')
  with assms(2) show ?thesis by auto
next
  case (new s now key)
  with assms(2) spec_Submit_created [OF new(6)] show ?thesis by auto
qed

lemma store_moves_job:
  assumes "store_moves a a'" "a_jobs a i = Some r"
  shows "\<exists>r'. a_jobs a' i = Some r' \<and> job_step\<^sup>*\<^sup>* r r'"
  using assms
proof (induction rule: rtranclp_induct)
  case base
  then show ?case by auto
next
  case (step b c)
  then obtain r1 where "a_jobs b i = Some r1" "job_step\<^sup>*\<^sup>* r r1" by blast
  with store_step_job [OF step.hyps(2)] show ?case by (metis rtranclp.rtrancl_into_rtrancl)
qed

lemma store_step_idem: "store_step a a' \<Longrightarrow> a_idem a k = Some i \<Longrightarrow> a_idem a' k = Some i"
proof (erule store_step.cases, goal_cases)
  case (2 a r now key a')
  with spec_Submit_idem [of a k i now r key] show ?case by simp
qed simp

lemma store_moves_idem: "store_moves a a' \<Longrightarrow> a_idem a k = Some i \<Longrightarrow> a_idem a' k = Some i"
  by (induction rule: rtranclp_induct) (auto intro: store_step_idem)

text \<open>
  A terminal record is final: recovery may touch its time stamp (its mutator rewrites the
  record it was given), nothing else changes.
\<close>

lemma terminal_stays:
  assumes "job_step\<^sup>*\<^sup>* r r'" "terminal r" "CreatedAt r \<noteq> 0"
  shows "r' = r\<lparr>UpdatedAt := UpdatedAt r'\<rparr>"
  using assms
proof (induction rule: rtranclp_induct)
  case base
  then show ?case by simp
next
  case (step b c)
  from step have b: "b = r\<lparr>UpdatedAt := UpdatedAt b\<rparr>" by simp
  have "CreatedAt b = CreatedAt r" "Status b = Status r" by (subst b, simp)+
  then have "terminal b" "CreatedAt b \<noteq> 0" using step.prems by (simp_all add: terminal_def)
  from job_step_terminal [OF step.hyps(2) this] have "c = b\<lparr>UpdatedAt := UpdatedAt c\<rparr>" .
  also have "\<dots> = r\<lparr>UpdatedAt := UpdatedAt c\<rparr>" by (subst b) simp
  finally show ?case .
qed

section \<open>Transitions are steps\<close>

definition lifecycle_mut :: "mutator \<Rightarrow> bool" where
  "lifecycle_mut f \<longleftrightarrow> mut_ok f \<and> (\<forall>r r' now. f r = Inr r' \<longrightarrow> job_step r (stamp now r'))"

lemma lifecycle_muts [simp]:
  "lifecycle_mut (markRunning w)" "lifecycle_mut revertPending" "lifecycle_mut (failDispatch msg)"
  "lifecycle_mut (reap n)" "lifecycle_mut (report req)" "lifecycle_mut recover"
  by (auto simp: lifecycle_mut_def intro: job_step.intros)

context fallible_store
begin

lemma Transition_ok:
  assumes "inv st" "mut_ok f" "Transition S now i f st = (st', c, None, runs)"
  shows "inv st' \<and> (\<exists>r. a_jobs (abs st) i = Some r \<and> runs = [r] \<and>
    (if c then \<exists>r'. f r = Inr r' \<and> abs st' = (abs st)\<lparr>a_jobs := (a_jobs (abs st))(i \<mapsto> stamp now r')\<rparr>
     else f r = Inl skip \<and> abs st' = abs st))"
  using Transition_fallible [OF assms]
  by (auto simp: spec_Transition_def skip_def split: option.splits sum.splits if_splits)

lemma Transition_moves:
  assumes "inv st" "lifecycle_mut f" "Transition S now i f st = (st', c, e, runs)"
  shows "inv st' \<and> store_moves (abs st) (abs st')"
proof -
  from assms(2) have f: "mut_ok f" by (simp add: lifecycle_mut_def)
  note t = Transition_fallible [OF assms(1) f assms(3)]
  have "store_moves (abs st) (abs st')" if "abs st' \<noteq> abs st"
  proof -
    from t that have "(abs st', c, e, runs) = spec_Transition now i f (abs st)" by blast
    with that obtain r r' where "a_jobs (abs st) i = Some r" "f r = Inr r'"
      "abs st' = (abs st)\<lparr>a_jobs := (a_jobs (abs st))(i \<mapsto> stamp now r')\<rparr>"
      by (auto simp: spec_Transition_def split: option.splits sum.splits)
    with assms(2) show ?thesis by (auto simp: lifecycle_mut_def intro!: r_into_rtranclp store_step.job)
  qed
  with t show ?thesis by (cases "abs st' = abs st") auto
qed

end

end
