(* ===== verification/Worker_Pool.thy ===== *)
theory Worker_Pool
  imports Prelude Complex_Main
begin

text \<open>
  \<open>WorkerPool\<close> of \<open>worker_pool.go\<close>: registration, heartbeats, the fault detector's
  sweep, and least-loaded selection. Every method runs under the pool's mutex, so each is
  one step; \<open>time.Now\<close> and the iteration order of the worker map are arguments.
  Utilization is the exact quotient that the \<open>float64\<close> division rounds; the registration
  time of a snapshot is in whole seconds, as RFC 3339 prints it. The reaper is the caller's:
  the pool only knows whether one is set.
\<close>

section \<open>State and operations\<close>

record workerState =
  wid :: string
  address :: string
  capacity :: int64
  activeTasks :: int64
  registeredAt :: gotime
  lastHeartbeat :: gotime
  alive :: bool

record WorkerPool =
  timeout :: duration
  workers :: "string \<rightharpoonup> workerState"
  reaper :: bool

definition NewWorkerPool :: "duration \<Rightarrow> WorkerPool" where
  "NewWorkerPool t = \<lparr>timeout = t, workers = Map.empty, reaper = False\<rparr>"

definition SetReaper :: "WorkerPool \<Rightarrow> WorkerPool" where
  "SetReaper p = p\<lparr>reaper := True\<rparr>"

definition Register :: "gotime \<Rightarrow> string \<Rightarrow> string \<Rightarrow> int64 \<Rightarrow> WorkerPool \<Rightarrow> WorkerPool" where
  "Register now i addr c p = p\<lparr>workers := (workers p)(i \<mapsto>
     \<lparr>wid = i, address = addr, capacity = c, activeTasks = 0, registeredAt = now,
      lastHeartbeat = now, alive = True\<rparr>)\<rparr>"

definition RecordHeartbeat :: "gotime \<Rightarrow> string \<Rightarrow> int64 \<Rightarrow> WorkerPool \<Rightarrow> WorkerPool \<times> bool" where
  "RecordHeartbeat now i n p =
     (case workers p i of
        None \<Rightarrow> (p, False)
      | Some w \<Rightarrow>
          (let w1 = (if \<not> alive w then w\<lparr>alive := True\<rparr> else w)
           in (p\<lparr>workers := (workers p)(i \<mapsto> w1\<lparr>lastHeartbeat := now, activeTasks := n\<rparr>)\<rparr>, True)))"

text \<open>The selection loop, over the workers in iteration order.\<close>

fun least_loaded :: "string set \<Rightarrow> workerState list \<Rightarrow> workerState option \<Rightarrow> workerState option" where
  "least_loaded exclude [] best = best"
| "least_loaded exclude (w # ws) best =
     (if \<not> alive w then least_loaded exclude ws best
      else if wid w \<in> exclude then least_loaded exclude ws best
      else if (case best of None \<Rightarrow> True | Some b \<Rightarrow> sint (activeTasks w) < sint (activeTasks b))
      then least_loaded exclude ws (Some w)
      else least_loaded exclude ws best)"

definition ranged :: "string list \<Rightarrow> WorkerPool \<Rightarrow> workerState list" where
  "ranged ks p = map (\<lambda>k. the (workers p k)) ks"

definition LeastLoadedAliveExcluding :: "string list \<Rightarrow> string set \<Rightarrow> WorkerPool \<Rightarrow> string \<times> string \<times> bool" where
  "LeastLoadedAliveExcluding ks exclude p =
     (case least_loaded exclude (ranged ks p) None of
        None \<Rightarrow> ([], [], False)
      | Some best \<Rightarrow> (wid best, address best, True))"

definition LeastLoadedAlive :: "string list \<Rightarrow> WorkerPool \<Rightarrow> string \<times> string \<times> bool" where
  "LeastLoadedAlive ks p = LeastLoadedAliveExcluding ks {} p"

text \<open>The sweep's loop marks overdue workers and collects their map keys.\<close>

fun sweep_loop :: "gotime \<Rightarrow> string list \<Rightarrow> string list \<Rightarrow> WorkerPool \<Rightarrow> WorkerPool \<times> string list" where
  "sweep_loop now [] dead p = (p, dead)"
| "sweep_loop now (k # ks) dead p =
     (let w = the (workers p k)
      in if \<not> alive w then sweep_loop now ks dead p
         else if time_Sub now (lastHeartbeat w) > timeout p
         then sweep_loop now ks (dead @ [k]) (p\<lparr>workers := (workers p)(k \<mapsto> w\<lparr>alive := False\<rparr>)\<rparr>)
         else sweep_loop now ks dead p)"

definition sweep :: "gotime \<Rightarrow> string list \<Rightarrow> WorkerPool \<Rightarrow> WorkerPool \<times> string list" where
  "sweep now ks p = sweep_loop now ks [] p"

text \<open>
  One tick of the fault detector: sweep, then hand every newly dead worker to the reaper,
  outside the pool's lock. \<open>reassign\<close> is \<open>ReassignJobsOf\<close> on the rest of the system.
\<close>

definition fault_tick ::
  "(string \<Rightarrow> 's \<Rightarrow> 's) \<Rightarrow> gotime \<Rightarrow> string list \<Rightarrow> WorkerPool \<Rightarrow> 's \<Rightarrow> WorkerPool \<times> 's" where
  "fault_tick reassign now ks p s =
     (case sweep now ks p of (p', dead) \<Rightarrow>
        (p', fold (\<lambda>i. if reaper p' then reassign i else (\<lambda>s. s)) dead s))"

definition AliveCount :: "string list \<Rightarrow> WorkerPool \<Rightarrow> nat" where
  "AliveCount ks p = length (filter alive (ranged ks p))"

record WorkerMetrics =
  MID :: string
  MAddress :: string
  MAlive :: bool
  MActiveTasks :: int64
  MCapacity :: int64
  Utilization :: rat
  LastHeartbeatS :: int
  RegisteredAtISO :: int

text \<open>Go's integer division truncates towards zero.\<close>

definition quot :: "int \<Rightarrow> int \<Rightarrow> int" where
  "quot a b = sgn a * sgn b * (\<bar>a\<bar> div \<bar>b\<bar>)"

definition worker_metrics :: "gotime \<Rightarrow> workerState \<Rightarrow> WorkerMetrics" where
  "worker_metrics now w =
     \<lparr>MID = wid w, MAddress = address w, MAlive = alive w, MActiveTasks = activeTasks w,
      MCapacity = capacity w,
      Utilization = (if sint (capacity w) > 0
        then of_int (sint (activeTasks w)) / of_int (sint (capacity w)) else 0),
      LastHeartbeatS = quot (time_Sub now (lastHeartbeat w)) Second,
      RegisteredAtISO = registeredAt w div Second\<rparr>"

definition pool_Snapshot :: "gotime \<Rightarrow> string list \<Rightarrow> WorkerPool \<Rightarrow> WorkerMetrics list" where
  "pool_Snapshot now ks p = map (worker_metrics now) (ranged ks p)"

section \<open>Invariant\<close>

definition pool_wf :: "WorkerPool \<Rightarrow> bool" where
  "pool_wf p \<longleftrightarrow> finite (dom (workers p)) \<and> (\<forall>k w. workers p k = Some w \<longrightarrow> wid w = k)"

lemma pool_wf_wid: "pool_wf p \<Longrightarrow> workers p k = Some w \<Longrightarrow> wid w = k"
  by (simp add: pool_wf_def)

lemma NewWorkerPool_wf [keeps_wf]: "pool_wf (NewWorkerPool t)"
  by (simp add: pool_wf_def NewWorkerPool_def)

lemma SetReaper_wf [keeps_wf]: "pool_wf p \<Longrightarrow> pool_wf (SetReaper p)"
  by (simp add: pool_wf_def SetReaper_def)

lemma Register_wf [keeps_wf]: "pool_wf p \<Longrightarrow> pool_wf (Register now i a c p)"
  by (auto simp: pool_wf_def Register_def)

lemma RecordHeartbeat_wf [keeps_wf]: "pool_wf p \<Longrightarrow> pool_wf (fst (RecordHeartbeat now i n p))"
  by (auto simp: pool_wf_def RecordHeartbeat_def Let_def split: option.splits if_splits)

lemma set_ranged:
  assumes "range_order (workers p) ks"
  shows "set (ranged ks p) = {w. \<exists>k. workers p k = Some w}"
  using assms by (force simp: ranged_def range_order_def image_iff dom_def)

lemma length_ranged: "range_order (workers p) ks \<Longrightarrow> length (ranged ks p) = card (dom (workers p))"
  by (simp add: ranged_def range_order_def flip: distinct_card)

text \<open>The live workers are counted once each, in whatever order they are visited.\<close>

lemma AliveCount_card:
  assumes "range_order (workers p) ks"
  shows "AliveCount ks p = card {i. \<exists>w. workers p i = Some w \<and> alive w}"
proof -
  let ?P = "\<lambda>i. alive (the (workers p i))"
  have d: "distinct (filter ?P ks)" "set ks = dom (workers p)" using assms by (auto simp: range_order_def)
  have "AliveCount ks p = length (filter ?P ks)"
    by (simp add: AliveCount_def ranged_def filter_map comp_def)
  also have "\<dots> = card (set (filter ?P ks))" by (rule distinct_card [OF d(1), symmetric])
  also have "set (filter ?P ks) = {i. \<exists>w. workers p i = Some w \<and> alive w}" using d(2) by force
  finally show ?thesis .
qed

section \<open>Selection\<close>

definition eligible :: "string set \<Rightarrow> workerState \<Rightarrow> bool" where
  "eligible exclude w \<longleftrightarrow> alive w \<and> wid w \<notin> exclude"

lemma least_loaded_spec:
  "case least_loaded ex ws best of
     None \<Rightarrow> best = None \<and> (\<forall>w \<in> set ws. \<not> eligible ex w)
   | Some b \<Rightarrow> (best = Some b \<or> b \<in> set ws \<and> eligible ex b) \<and>
       (\<forall>w \<in> set ws. eligible ex w \<longrightarrow> sint (activeTasks b) \<le> sint (activeTasks w)) \<and>
       (\<forall>b0. best = Some b0 \<longrightarrow> sint (activeTasks b) \<le> sint (activeTasks b0))"
proof (induction ws arbitrary: best)
  case Nil
  then show ?case by (simp split: option.splits)
next
  case (Cons w ws)
  show ?case
  proof (cases "eligible ex w \<and> (case best of None \<Rightarrow> True | Some b \<Rightarrow> sint (activeTasks w) < sint (activeTasks b))")
    case True
    then have "least_loaded ex (w # ws) best = least_loaded ex ws (Some w)" by (simp add: eligible_def)
    with Cons.IH [of "Some w"] True show ?thesis by (auto split: option.splits)
  next
    case False
    then have "least_loaded ex (w # ws) best = least_loaded ex ws best" by (auto simp: eligible_def)
    with Cons.IH [of best] False show ?thesis by (auto split: option.splits)
  qed
qed

lemma LeastLoaded_cases:
  assumes "pool_wf p" "range_order (workers p) ks" "LeastLoadedAliveExcluding ks ex p = (i, a, ok)"
  shows "if ok then \<exists>w. workers p i = Some w \<and> alive w \<and> i \<notin> ex \<and> a = address w \<and>
      (\<forall>j w'. workers p j = Some w' \<longrightarrow> alive w' \<longrightarrow> j \<notin> ex \<longrightarrow> sint (activeTasks w) \<le> sint (activeTasks w'))
    else i = [] \<and> a = [] \<and> (\<forall>j w'. workers p j = Some w' \<longrightarrow> alive w' \<longrightarrow> j \<in> ex)"
proof (cases "least_loaded ex (ranged ks p) None")
  case None
  with least_loaded_spec [where ex = ex and ws = "ranged ks p" and best = None] assms show ?thesis
    by (auto simp: LeastLoadedAliveExcluding_def set_ranged [OF assms(2)] eligible_def dest: pool_wf_wid)
next
  case (Some b)
  with least_loaded_spec [where ex = ex and ws = "ranged ks p" and best = None] have
    b: "b \<in> set (ranged ks p)" "eligible ex b"
      "\<forall>w \<in> set (ranged ks p). eligible ex w \<longrightarrow> sint (activeTasks b) \<le> sint (activeTasks w)" by auto
  then obtain k where k: "workers p k = Some b" "wid b = k"
    using assms(1) by (auto simp: set_ranged [OF assms(2)] dest: pool_wf_wid)
  have "\<forall>j w'. workers p j = Some w' \<longrightarrow> alive w' \<longrightarrow> j \<notin> ex \<longrightarrow> sint (activeTasks b) \<le> sint (activeTasks w')"
    using b(3) assms(1) by (auto simp: set_ranged [OF assms(2)] eligible_def dest: pool_wf_wid)
  with b k Some assms(3) show ?thesis by (auto simp: LeastLoadedAliveExcluding_def eligible_def)
qed

section \<open>The sweep\<close>

definition overdue :: "gotime \<Rightarrow> WorkerPool \<Rightarrow> string \<Rightarrow> bool" where
  "overdue now p i \<longleftrightarrow> (\<exists>w. workers p i = Some w \<and> alive w \<and> time_Sub now (lastHeartbeat w) > timeout p)"

definition bury :: "string set \<Rightarrow> WorkerPool \<Rightarrow> WorkerPool" where
  "bury D p = p\<lparr>workers := (\<lambda>i. map_option (\<lambda>w. if i \<in> D then w\<lparr>alive := False\<rparr> else w) (workers p i))\<rparr>"

lemma bury_simps [simp]:
  "timeout (bury D p) = timeout p" "reaper (bury D p) = reaper p"
  "workers (bury D p) i = map_option (\<lambda>w. if i \<in> D then w\<lparr>alive := False\<rparr> else w) (workers p i)"
  by (simp_all add: bury_def)

lemma bury_none [simp]: "bury {} p = p"
proof -
  have "(\<lambda>i. map_option (\<lambda>w. w) (workers p i)) = workers p" by (simp add: option.map_ident)
  then show ?thesis by (simp add: bury_def)
qed

lemma bury_insert:
  assumes "workers p k = Some w" "k \<notin> D"
  shows "bury D (p\<lparr>workers := (workers p)(k \<mapsto> w\<lparr>alive := False\<rparr>)\<rparr>) = bury (insert k D) p"
  using assms by (auto simp: bury_def fun_eq_iff intro!: arg_cong [where f = "\<lambda>f. p\<lparr>workers := f\<rparr>"])

lemma sweep_loop_spec:
  assumes "distinct ks" "set ks \<subseteq> dom (workers p)"
  shows "sweep_loop now ks dead p = (bury {k \<in> set ks. overdue now p k} p, dead @ filter (overdue now p) ks)"
  using assms
proof (induction ks arbitrary: p dead)
  case Nil
  then show ?case by simp
next
  case (Cons k ks)
  then obtain w where w: "workers p k = Some w" by auto
  show ?case
  proof (cases "overdue now p k")
    case False
    then have "{j \<in> set (k # ks). overdue now p j} = {j \<in> set ks. overdue now p j}" by auto
    with False w Cons show ?thesis by (auto simp: overdue_def Let_def)
  next
    case True
    let ?p = "p\<lparr>workers := (workers p)(k \<mapsto> w\<lparr>alive := False\<rparr>)\<rparr>"
    have same: "overdue now ?p j = overdue now p j" if "j \<in> set ks" for j
      using that Cons.prems(1) by (auto simp: overdue_def)
    have "sweep_loop now (k # ks) dead p = sweep_loop now ks (dead @ [k]) ?p"
      using True w by (simp add: overdue_def Let_def)
    also have "\<dots> = (bury {j \<in> set ks. overdue now ?p j} ?p, (dead @ [k]) @ filter (overdue now ?p) ks)"
      using Cons.prems by (intro Cons.IH) auto
    also have "{j \<in> set ks. overdue now ?p j} = {j \<in> set ks. overdue now p j}" using same by auto
    also have "filter (overdue now ?p) ks = filter (overdue now p) ks" using same by (auto intro: filter_cong)
    also have "bury {j \<in> set ks. overdue now p j} ?p = bury (insert k {j \<in> set ks. overdue now p j}) p"
      using w Cons.prems(1) by (intro bury_insert) auto
    also have "insert k {j \<in> set ks. overdue now p j} = {j \<in> set (k # ks). overdue now p j}" using True by auto
    finally show ?thesis using True by simp
  qed
qed

lemma overdue_dom: "overdue now p i \<Longrightarrow> i \<in> dom (workers p)"
  by (auto simp: overdue_def)

lemma sweep_eq:
  assumes "range_order (workers p) ks"
  shows "sweep now ks p = (bury {i. overdue now p i} p, filter (overdue now p) ks)"
proof -
  have "{k \<in> set ks. overdue now p k} = {i. overdue now p i}"
    using assms overdue_dom by (auto simp: range_order_def)
  with sweep_loop_spec [of ks p now "[]"] assms show ?thesis by (simp add: sweep_def range_order_def)
qed

lemma sweep_dead:
  assumes "range_order (workers p) ks" "sweep now ks p = (p', dead)"
  shows "distinct dead \<and> set dead = {i. overdue now p i} \<and> p' = bury (set dead) p"
proof -
  from assms have d: "dead = filter (overdue now p) ks" "p' = bury {i. overdue now p i} p"
    by (simp_all add: sweep_eq)
  moreover have "set dead = {i. overdue now p i}"
    using overdue_dom assms(1) by (auto simp: d range_order_def)
  ultimately show ?thesis using assms(1) by (simp add: range_order_def)
qed

lemma bury_wf [keeps_wf]: "pool_wf p \<Longrightarrow> pool_wf (bury D p)"
proof -
  have "dom (workers (bury D p)) = dom (workers p)" by (auto simp: dom_def)
  then show "pool_wf p \<Longrightarrow> pool_wf (bury D p)" by (auto simp: pool_wf_def)
qed

section \<open>Histories\<close>

datatype pool_event =
    EvRegister gotime string string int64
  | EvHeartbeat gotime string int64
  | EvSweep gotime "string list"

text \<open>The pool after a history, and the IDs its sweeps declared dead, in order.\<close>

fun run_pool :: "pool_event list \<Rightarrow> WorkerPool \<Rightarrow> WorkerPool \<times> string list" where
  "run_pool [] p = (p, [])"
| "run_pool (EvRegister now i a c # evs) p = run_pool evs (Register now i a c p)"
| "run_pool (EvHeartbeat now i n # evs) p = run_pool evs (fst (RecordHeartbeat now i n p))"
| "run_pool (EvSweep now ks # evs) p =
     (case sweep now ks p of (p', dead) \<Rightarrow> (case run_pool evs p' of (p'', ds) \<Rightarrow> (p'', dead @ ds)))"

text \<open>Every sweep of the history ranges over the whole map.\<close>

fun ranges_ok :: "pool_event list \<Rightarrow> WorkerPool \<Rightarrow> bool" where
  "ranges_ok [] p = True"
| "ranges_ok (EvRegister now i a c # evs) p = ranges_ok evs (Register now i a c p)"
| "ranges_ok (EvHeartbeat now i n # evs) p = ranges_ok evs (fst (RecordHeartbeat now i n p))"
| "ranges_ok (EvSweep now ks # evs) p =
     (range_order (workers p) ks \<and> ranges_ok evs (fst (sweep now ks p)))"

definition revives :: "string \<Rightarrow> pool_event \<Rightarrow> bool" where
  "revives i ev = (case ev of EvRegister t j a c \<Rightarrow> j = i | EvHeartbeat t j n \<Rightarrow> j = i | EvSweep t ks \<Rightarrow> False)"

definition is_alive :: "string \<Rightarrow> WorkerPool \<Rightarrow> bool" where
  "is_alive i p \<longleftrightarrow> (\<exists>w. workers p i = Some w \<and> alive w)"

lemma run_pool_reports:
  assumes "ranges_ok evs p" "run_pool evs p = (p', ds)"
  shows "count_list ds i + (if is_alive i p' then 1 else 0)
    \<le> (if is_alive i p then 1 else 0) + length (filter (revives i) evs)"
  using assms
proof (induction evs arbitrary: p ds)
  case Nil
  then show ?case by simp
next
  case (Cons ev evs)
  show ?case
  proof (cases ev)
    case (EvRegister now j a c)
    let ?p = "Register now j a c p"
    have "j \<noteq> i \<Longrightarrow> is_alive i ?p = is_alive i p" by (simp add: is_alive_def Register_def)
    with Cons.IH [of ?p ds] Cons.prems EvRegister show ?thesis by (cases "j = i") (auto simp: revives_def split: if_splits)
  next
    case (EvHeartbeat now j n)
    let ?p = "fst (RecordHeartbeat now j n p)"
    have "j \<noteq> i \<Longrightarrow> is_alive i ?p = is_alive i p"
      by (auto simp: is_alive_def RecordHeartbeat_def Let_def split: option.splits)
    with Cons.IH [of ?p ds] Cons.prems EvHeartbeat show ?thesis by (cases "j = i") (auto simp: revives_def split: if_splits)
  next
    case (EvSweep now ks)
    obtain p1 dead where sw: "sweep now ks p = (p1, dead)" by (cases "sweep now ks p")
    obtain ds' where rest: "run_pool evs p1 = (p', ds')" and ds: "ds = dead @ ds'"
      using Cons.prems(2) EvSweep sw by (auto split: prod.splits)
    from Cons.prems(1) EvSweep sw have ro: "range_order (workers p) ks" and "ranges_ok evs p1" by auto
    note IH = Cons.IH [OF \<open>ranges_ok evs p1\<close> rest]
    note sd = sweep_dead [OF ro sw]
    have "count_list dead i + (if is_alive i p1 then 1 else 0) \<le> (if is_alive i p then 1 else (0 :: nat))"
    proof (cases "i \<in> set dead")
      case True
      with sd have "count_list dead i = 1" by (simp add: count_list_distinct)
      moreover from True sd have "is_alive i p" "\<not> is_alive i p1" by (auto simp: is_alive_def overdue_def)
      ultimately show ?thesis by simp
    next
      case False
      with sd have "is_alive i p1 = is_alive i p" by (auto simp: is_alive_def)
      with False show ?thesis by (simp add: count_notin)
    qed
    with IH EvSweep ds show ?thesis by (simp add: revives_def)
  qed
qed

lemma heartbeat_revives:
  "case RecordHeartbeat now i n p of (p', ok) \<Rightarrow>
     (ok \<longleftrightarrow> workers p i \<noteq> None) \<and> (is_alive i p' \<longleftrightarrow> ok) \<and> (\<forall>j. j \<noteq> i \<longrightarrow> workers p' j = workers p j)"
  by (auto simp: RecordHeartbeat_def is_alive_def Let_def split: option.splits)

section \<open>A concrete pool\<close>

definition demo_pool :: WorkerPool where
  "demo_pool = Register 10 ''w2'' ''b'' 4 (fst (RecordHeartbeat 5 ''w1'' 2 (Register 1 ''w1'' ''a'' 4 (NewWorkerPool 100))))"

lemma demo_pool_wf: "pool_wf demo_pool" "range_order (workers demo_pool) [''w1'', ''w2'']"
  by (simp_all add: demo_pool_def keeps_wf)
    (auto simp: range_order_def Register_def RecordHeartbeat_def NewWorkerPool_def)

section \<open>Properties\<close>

text \<open>
  C36: load balancing. Whatever the iteration order of the map, the worker chosen is
  alive, not excluded, and no other such worker has fewer active tasks; a refusal means that
  every alive worker is excluded.
\<close>
theorem least_loaded_is_minimal:
  assumes "pool_wf p" "range_order (workers p) ks" "LeastLoadedAliveExcluding ks ex p = (i, a, ok)"
  shows "if ok then \<exists>w. workers p i = Some w \<and> alive w \<and> i \<notin> ex \<and> a = address w \<and>
      (\<forall>j w'. workers p j = Some w' \<longrightarrow> alive w' \<longrightarrow> j \<notin> ex \<longrightarrow> sint (activeTasks w) \<le> sint (activeTasks w'))
    else i = [] \<and> a = [] \<and> (\<forall>j w'. workers p j = Some w' \<longrightarrow> alive w' \<longrightarrow> j \<in> ex)"
  using LeastLoaded_cases [OF assms] .

theorem least_loaded_is_minimal_witness:
  "\<exists>w. workers demo_pool ''w2'' = Some w \<and> alive w \<and> address w = ''b'' \<and>
     (\<forall>j w'. workers demo_pool j = Some w' \<longrightarrow> alive w' \<longrightarrow> sint (activeTasks w) \<le> sint (activeTasks w'))"
proof -
  have "LeastLoadedAliveExcluding [''w1'', ''w2''] {} demo_pool = (''w2'', ''b'', True)"
    by (simp add: LeastLoadedAliveExcluding_def ranged_def demo_pool_def Register_def RecordHeartbeat_def NewWorkerPool_def)
  from least_loaded_is_minimal [OF demo_pool_wf this] show ?thesis by auto
qed

text \<open>
  C37: fault detection is exact. A sweep declares dead precisely the workers that were
  alive and whose last sign of life lies further back than the timeout, each once, marks
  exactly those dead and changes nothing else, in whatever order it visits the map; an
  immediate second sweep finds none.
\<close>
theorem sweep_is_exact:
  assumes "range_order (workers p) ks" "sweep now ks p = (p', dead)"
  shows "distinct dead \<and>
    set dead = {i. \<exists>w. workers p i = Some w \<and> alive w \<and> time_Sub now (lastHeartbeat w) > timeout p} \<and>
    (\<forall>i. workers p' i = map_option (\<lambda>w. if i \<in> set dead then w\<lparr>alive := False\<rparr> else w) (workers p i)) \<and>
    snd (sweep now ks p') = []"
proof -
  note sd = sweep_dead [OF assms]
  have "dom (workers p') = dom (workers p)" using sd by (auto simp: dom_def)
  then have "range_order (workers p') ks" using assms(1) by (simp add: range_order_def)
  then have "snd (sweep now ks p') = filter (overdue now p') ks" by (simp add: sweep_eq)
  also have "\<dots> = []" using sd by (auto simp: filter_empty_conv overdue_def)
  finally show ?thesis using sd by (auto simp: overdue_def)
qed

theorem sweep_is_exact_witness:
  "case sweep 107 [''w1'', ''w2''] demo_pool of (p', dead) \<Rightarrow>
     set dead = {''w1''} \<and> snd (sweep 107 [''w1'', ''w2''] p') = []"
proof -
  obtain p' dead where s: "sweep 107 [''w1'', ''w2''] demo_pool = (p', dead)"
    by (cases "sweep 107 [''w1'', ''w2''] demo_pool")
  have "{i. \<exists>w. workers demo_pool i = Some w \<and> alive w \<and> time_Sub 107 (lastHeartbeat w) > timeout demo_pool} = {''w1''}"
    by (auto simp: demo_pool_def Register_def RecordHeartbeat_def NewWorkerPool_def time_Sub_def minDuration_def
        maxDuration_def split: if_splits)
  with sweep_is_exact [OF demo_pool_wf(2) s] show ?thesis by (simp add: s)
qed

text \<open>
  No death is reported twice. Over any history of registrations, heartbeats and
  sweeps of a fresh pool, a worker is handed to the reaper at most once per sign of life.
\<close>
theorem deaths_reported_once:
  assumes "ranges_ok evs (NewWorkerPool t)" "run_pool evs (NewWorkerPool t) = (p', dead)"
  shows "count_list dead i \<le> length (filter (revives i) evs)"
  using run_pool_reports [OF assms, of i] by (simp add: is_alive_def NewWorkerPool_def)

theorem deaths_reported_once_witness:
  "count_list (snd (run_pool [EvRegister 1 ''w1'' ''a'' 4, EvSweep 200 [''w1''], EvSweep 300 [''w1'']] (NewWorkerPool 100))) ''w1'' \<le> 1"
proof -
  let ?evs = "[EvRegister 1 ''w1'' ''a'' 4, EvSweep 200 [''w1''], EvSweep 300 [''w1'']]"
  have "range_order (workers (Register 1 ''w1'' ''a'' 4 (NewWorkerPool 100))) [''w1'']"
    by (auto simp: range_order_def Register_def NewWorkerPool_def)
  moreover from this have "range_order (workers (fst (sweep 200 [''w1''] (Register 1 ''w1'' ''a'' 4 (NewWorkerPool 100))))) [''w1'']"
    by (auto simp: sweep_eq range_order_def dom_def)
  ultimately have "ranges_ok ?evs (NewWorkerPool 100)" by simp
  from deaths_reported_once [OF this prod.collapse [symmetric], of "''w1''"] show ?thesis
    by (simp add: revives_def)
qed

end
