(* ===== verification/Scheduler.thy ===== *)
theory Scheduler
  imports Job_Lifecycle Worker_Pool Bolt_Store
begin

text \<open>
  \<open>Scheduler\<close> of \<open>scheduler.go\<close>. \<open>Dispatch\<close> runs concurrently with every other
  goroutine; what they do in between is the environment: the pool it sees at each
  selection, what happens to the store before each of its accesses and during each RPC, the
  clock, dial and RPC outcomes. A gRPC connection is the address it was dialled to;
  \<open>channels = None\<close> is the nil map after \<open>Close\<close>. The selection loop tries each worker
  at most once, but workers may keep registering, so the loop has fuel (\<open>None\<close>: not
  enough); it needs more fuel than there are worker IDs. The list of tried workers, which
  the code keeps as a map, is returned for the statements about it.
\<close>

section \<open>State and environment\<close>

record Scheduler =
  rpcTimeout :: duration
  channels :: "(string \<rightharpoonup> string) option"

record 'st dispatch_env =
  env_pool :: "nat \<Rightarrow> WorkerPool"
  env_order :: "nat \<Rightarrow> string list"
  env_now :: "nat \<Rightarrow> gotime"
  env_other :: "nat \<Rightarrow> 'st \<Rightarrow> 'st"
  env_closed :: "nat \<Rightarrow> bool"
  env_dial :: "nat \<Rightarrow> string \<Rightarrow> go_error option"
  env_rpc :: "nat \<Rightarrow> string \<Rightarrow> ExecuteTaskRequest \<Rightarrow> 'st \<Rightarrow> 'st \<times> ExecuteTaskResponse result"

definition NewScheduler :: Scheduler where
  "NewScheduler = \<lparr>rpcTimeout = 5 * Second, channels = Some Map.empty\<rparr>"

definition SetRPCTimeout :: "duration \<Rightarrow> Scheduler \<Rightarrow> Scheduler" where
  "SetRPCTimeout d s = (if d > 0 then s\<lparr>rpcTimeout := d\<rparr> else s)"

definition getOrDial :: "(string \<Rightarrow> go_error option) \<Rightarrow> string \<Rightarrow> string \<Rightarrow> Scheduler \<Rightarrow> Scheduler \<times> string result" where
  "getOrDial dial workerID addr s =
     (case channels s of
        None \<Rightarrow> (s, Inl (Text ''scheduler is closed''))
      | Some m \<Rightarrow>
          (case m workerID of
             Some conn \<Rightarrow> (s, Inr conn)
           | None \<Rightarrow>
               (case dial addr of
                  Some e \<Rightarrow> (s, Inl e)
                | None \<Rightarrow> (s\<lparr>channels := Some (m(workerID \<mapsto> addr))\<rparr>, Inr addr))))"

definition dropChannel :: "string \<Rightarrow> Scheduler \<Rightarrow> Scheduler" where
  "dropChannel workerID s =
     (case channels s of
        None \<Rightarrow> s
      | Some m \<Rightarrow> (if m workerID \<noteq> None then s\<lparr>channels := Some (m(workerID := None))\<rparr> else s))"

definition Scheduler_Close :: "Scheduler \<Rightarrow> Scheduler" where
  "Scheduler_Close s = s\<lparr>channels := None\<rparr>"

section \<open>Dispatch\<close>

definition exec_request :: "JobRecord \<Rightarrow> ExecuteTaskRequest" where
  "exec_request rec = \<lparr>x_JobId = ID rec, x_FunctionBytes = FunctionBytes rec,
     x_ArgsBytes = ArgsBytes rec, x_FunctionName = FunctionName rec\<rparr>"

definition sendExecuteTask ::
  "'st dispatch_env \<Rightarrow> nat \<Rightarrow> string \<Rightarrow> string \<Rightarrow> JobRecord \<Rightarrow> Scheduler \<Rightarrow> 'st \<Rightarrow> Scheduler \<times> 'st \<times> go_error option" where
  "sendExecuteTask E k workerID addr rec s st =
     (case getOrDial (env_dial E k) workerID addr (if env_closed E k then Scheduler_Close s else s) of
        (s1, Inl e) \<Rightarrow> (s1, st, Some (Wrapf (''dial '' @ addr @ '': '') e []))
      | (s1, Inr conn) \<Rightarrow>
          (case env_rpc E k conn (exec_request rec) st of
             (st1, Inl e) \<Rightarrow> (dropChannel workerID s1, st1, Some e)
           | (st1, Inr resp) \<Rightarrow>
               (if \<not> Accepted resp then (s1, st1, Some (Text (''worker rejected: '' @ RejectionReason resp)))
                else (s1, st1, None))))"

fun dispatch_loop ::
  "'st Store \<Rightarrow> 'st dispatch_env \<Rightarrow> string \<Rightarrow> JobRecord \<Rightarrow> nat \<Rightarrow> string list \<Rightarrow> Scheduler \<Rightarrow> 'st \<Rightarrow>
   (Scheduler \<times> 'st \<times> go_error option \<times> string list) option" where
  "dispatch_loop S E jobID rec 0 tried s st = None"
| "dispatch_loop S E jobID rec (Suc fuel) tried s st =
     (let k = length tried in
      case LeastLoadedAliveExcluding (env_order E k) (set tried) (env_pool E k) of (workerID, addr, ok) \<Rightarrow>
        if \<not> ok then
          Some (s, st, Some (Sentinel (if tried = [] then ErrNoWorkersAvailable else ErrAllWorkersExhausted)), tried)
        else
          (let tried' = tried @ [workerID] in
           case Transition S (env_now E (2 * k + 1)) jobID (markRunning workerID) (env_other E (2 * k + 1) st) of
             (st1, committed, Some e, _) \<Rightarrow>
               Some (s, st1, Some (Wrapf (''mark RUNNING for job '' @ jobID @ '': '') e []), tried')
           | (st1, committed, None, _) \<Rightarrow>
               (if \<not> committed then Some (s, st1, Some (Sentinel ErrJobAlreadyTerminal), tried')
                else case sendExecuteTask E k workerID addr rec s st1 of
                       (s1, st2, None) \<Rightarrow> Some (s1, st2, None, tried')
                     | (s1, st2, Some e) \<Rightarrow>
                         dispatch_loop S E jobID rec fuel tried' s1
                           (fst (Transition S (env_now E (2 * k + 2)) jobID revertPending
                                   (env_other E (2 * k + 2) st2))))))"

definition Dispatch ::
  "'st Store \<Rightarrow> 'st dispatch_env \<Rightarrow> nat \<Rightarrow> string \<Rightarrow> Scheduler \<Rightarrow> 'st \<Rightarrow>
   (Scheduler \<times> 'st \<times> go_error option \<times> string list) option" where
  "Dispatch S E fuel jobID s st =
     (case GetJob S jobID st of
        Inl e \<Rightarrow> Some (s, st, Some (Wrapf (''load job '' @ jobID @ '': '') e []), [])
      | Inr None \<Rightarrow> Some (s, st, Some (not_found jobID), [])
      | Inr (Some rec) \<Rightarrow>
          (if Status rec = StatusDone \<or> Status rec = StatusFailed
           then Some (s, st, Some (Sentinel ErrJobAlreadyTerminal), [])
           else if FunctionBytes rec = [] then
             Some (s, fst (Transition S (env_now E 0) jobID failMissingPayload (env_other E 0 st)),
                   Some (Text (''job '' @ jobID @ '' has no payload'')), [])
           else dispatch_loop S E jobID rec fuel [] s st))"

section \<open>The loop ends\<close>

definition pools_ok :: "'st dispatch_env \<Rightarrow> string set \<Rightarrow> bool" where
  "pools_ok E W \<longleftrightarrow> finite W \<and> (\<forall>k. pool_wf (env_pool E k) \<and> range_order (workers (env_pool E k)) (env_order E k) \<and>
     dom (workers (env_pool E k)) \<subseteq> W)"

lemma pools_okD:
  assumes "pools_ok E W"
  shows "finite W" "pool_wf (env_pool E k)" "range_order (workers (env_pool E k)) (env_order E k)"
    "dom (workers (env_pool E k)) \<subseteq> W"
  using assms unfolding pools_ok_def by blast+

lemma selected_worker:
  assumes "pools_ok E W" "LeastLoadedAliveExcluding (env_order E k) X (env_pool E k) = (w, a, True)"
  shows "w \<in> W" "w \<notin> X"
  using LeastLoaded_cases [OF pools_okD(2,3) [OF assms(1)] assms(2)] pools_okD(4) [OF assms(1), of k] by auto

lemma dispatch_loop_returns:
  assumes "pools_ok E W" "card (W - set tried) < fuel"
  shows "\<exists>x. dispatch_loop S E jobID rec fuel tried s st = Some x"
  using assms(2)
proof (induction fuel arbitrary: tried s st)
  case 0
  then show ?case by simp
next
  case (Suc fuel)
  let ?k = "length tried"
  obtain w a ok where sel: "LeastLoadedAliveExcluding (env_order E ?k) (set tried) (env_pool E ?k) = (w, a, ok)"
    by (cases "LeastLoadedAliveExcluding (env_order E ?k) (set tried) (env_pool E ?k)")
  show ?case
  proof (cases ok)
    case False
    with sel show ?thesis by (simp add: Let_def)
  next
    case True
    with sel have "LeastLoadedAliveExcluding (env_order E ?k) (set tried) (env_pool E ?k) = (w, a, True)" by simp
    note w = selected_worker [OF assms(1) this]
    then have "card (W - set (tried @ [w])) < card (W - set tried)"
      using pools_okD(1) [OF assms(1)] by (intro psubset_card_mono) auto
    with Suc.prems have "card (W - set (tried @ [w])) < fuel" by simp
    from Suc.IH [OF this] sel True show ?thesis
      by (simp add: Let_def split: prod.splits option.splits)
  qed
qed

section \<open>What a dispatch does\<close>

text \<open>The environment moves the store only as the handlers of this program do.\<close>

definition env_ok :: "('st \<Rightarrow> abs_store) \<Rightarrow> ('st \<Rightarrow> bool) \<Rightarrow> 'st dispatch_env \<Rightarrow> bool" where
  "env_ok A I E \<longleftrightarrow>
     (\<forall>k st. I st \<longrightarrow> I (env_other E k st) \<and> store_moves (A st) (A (env_other E k st))) \<and>
     (\<forall>k conn req st. I st \<longrightarrow> I (fst (env_rpc E k conn req st)) \<and>
        store_moves (A st) (A (fst (env_rpc E k conn req st))))"

lemma env_other_ok:
  "env_ok A I E \<Longrightarrow> I st \<Longrightarrow> I (env_other E k st) \<and> store_moves (A st) (A (env_other E k st))"
  unfolding env_ok_def by blast

lemma sendExecuteTask_ok:
  assumes "env_ok A I E" "I st" "sendExecuteTask E k w a rec s st = (s', st', e)"
  shows "I st' \<and> store_moves (A st) (A st')"
proof -
  obtain s1 x where d: "getOrDial (env_dial E k) w a (if env_closed E k then Scheduler_Close s else s) = (s1, x)"
    by (cases "getOrDial (env_dial E k) w a (if env_closed E k then Scheduler_Close s else s)")
  show ?thesis
  proof (cases x)
    case (Inl err)
    with d assms(2,3) show ?thesis by (simp add: sendExecuteTask_def)
  next
    case (Inr conn)
    let ?req = "exec_request rec"
    from d Inr assms(3) have "st' = fst (env_rpc E k conn ?req st)"
      by (auto simp: sendExecuteTask_def split: prod.splits sum.splits if_splits)
    moreover have "I (fst (env_rpc E k conn ?req st)) \<and> store_moves (A st) (A (fst (env_rpc E k conn ?req st)))"
      using assms(1,2) unfolding env_ok_def by blast
    ultimately show ?thesis by simp
  qed
qed

lemma sendExecuteTask_cong:
  assumes "\<And>conn. rpc k conn (exec_request rec) st = env_rpc E k conn (exec_request rec) st"
  shows "sendExecuteTask (E\<lparr>env_rpc := rpc\<rparr>) k w a rec s st = sendExecuteTask E k w a rec s st"
  using assms by (cases E) (simp add: sendExecuteTask_def split: prod.split sum.split)

text \<open>What the outcome of a dispatch of job \<open>i\<close> from store \<open>a\<close> to store \<open>a'\<close> says.\<close>

definition dispatch_outcome ::
  "'st dispatch_env \<Rightarrow> string \<Rightarrow> abs_store \<Rightarrow> abs_store \<Rightarrow> go_error option \<Rightarrow> string list \<Rightarrow> bool" where
  "dispatch_outcome E i a a' e tried \<longleftrightarrow>
     (e = None \<longrightarrow> tried \<noteq> [] \<and> (\<exists>b r. store_moves a b \<and> a_jobs b i = Some r \<and> Status r = StatusRunning \<and>
        WorkerID r = last tried \<and> store_moves b a')) \<and>
     (e = Some (Sentinel ErrNoWorkersAvailable) \<longrightarrow> tried = [] \<and>
        (\<forall>j w. workers (env_pool E 0) j = Some w \<longrightarrow> \<not> alive w)) \<and>
     (e = Some (Sentinel ErrAllWorkersExhausted) \<longrightarrow> tried \<noteq> [] \<and>
        (\<forall>j w. workers (env_pool E (length tried)) j = Some w \<longrightarrow> alive w \<longrightarrow> j \<in> set tried)) \<and>
     (e = Some (Sentinel ErrJobAlreadyTerminal) \<longrightarrow> (\<exists>r. a_jobs a' i = Some r \<and> terminal r))"

lemma dispatch_outcome_earlier:
  "dispatch_outcome E i b a' e tried \<Longrightarrow> store_moves a b \<Longrightarrow> dispatch_outcome E i a a' e tried"
  unfolding dispatch_outcome_def by (meson rtranclp_trans)

context fallible_store
begin

lemma mark_step:
  assumes "env_ok abs inv E" "inv st"
    and "Transition S now i (markRunning w) (env_other E k st) = (st', c, e, runs)"
  shows "inv st' \<and> store_moves (abs st) (abs st') \<and>
    (e = None \<longrightarrow> (\<exists>r. a_jobs (abs st') i = Some r \<and>
       (if c then Status r = StatusRunning \<and> WorkerID r = w else terminal r)))"
proof -
  note o = env_other_ok [OF assms(1,2), of k]
  then have "inv (env_other E k st)" by blast
  note m = Transition_moves [OF this lifecycle_muts(1) assms(3)]
  have "\<exists>r. a_jobs (abs st') i = Some r \<and> (if c then Status r = StatusRunning \<and> WorkerID r = w else terminal r)"
    if "e = None"
  proof -
    from Transition_ok [OF \<open>inv (env_other E k st)\<close> mutators_ok(1) assms(3) [unfolded that]] obtain r where
      r: "a_jobs (abs (env_other E k st)) i = Some r"
        "if c then \<exists>r'. markRunning w r = Inr r' \<and> abs st' = (abs (env_other E k st))\<lparr>a_jobs :=
            (a_jobs (abs (env_other E k st)))(i \<mapsto> stamp now r')\<rparr>
         else markRunning w r = Inl skip \<and> abs st' = abs (env_other E k st)" by blast
    show ?thesis
    proof (cases c)
      case True
      with r obtain r' where "markRunning w r = Inr r'" "a_jobs (abs st') i = Some (stamp now r')" by auto
      then show ?thesis using True by (auto simp: markRunning_def split: if_splits)
    next
      case False
      with r show ?thesis by (auto simp: markRunning_def terminal_def split: if_splits)
    qed
  qed
  with o m show ?thesis by (meson rtranclp_trans)
qed

lemma dispatch_loop_outcome:
  assumes "env_ok abs inv E" "pools_ok E W" "inv st" "distinct tried"
    and "dispatch_loop S E i rec fuel tried s st = Some (s', st', e, tried')"
  shows "inv st' \<and> store_moves (abs st) (abs st') \<and> distinct tried' \<and> dispatch_outcome E i (abs st) (abs st') e tried'"
  using assms(3-5)
proof (induction fuel arbitrary: tried s st)
  case 0
  then show ?case by simp
next
  case (Suc fuel)
  let ?k = "length tried"
  obtain w a ok where sel: "LeastLoadedAliveExcluding (env_order E ?k) (set tried) (env_pool E ?k) = (w, a, ok)"
    by (cases "LeastLoadedAliveExcluding (env_order E ?k) (set tried) (env_pool E ?k)")
  show ?case
  proof (cases ok)
    case False
    with sel LeastLoaded_cases [OF pools_okD(2,3) [OF assms(2)] sel] Suc.prems show ?thesis
      by (auto simp: Let_def dispatch_outcome_def split: if_splits)
  next
    case True
    with sel have "LeastLoadedAliveExcluding (env_order E ?k) (set tried) (env_pool E ?k) = (w, a, True)" by simp
    note w = selected_worker [OF assms(2) this]
    let ?t = "tried @ [w]"
    have d: "distinct ?t" using w Suc.prems(2) by simp
    obtain st1 c e1 runs where mark:
      "Transition S (env_now E (2 * ?k + 1)) i (markRunning w) (env_other E (2 * ?k + 1) st) = (st1, c, e1, runs)"
      by (cases "Transition S (env_now E (2 * ?k + 1)) i (markRunning w) (env_other E (2 * ?k + 1) st)")
    note m = mark_step [OF assms(1) Suc.prems(1) mark]
    consider (err) x where "e1 = Some x" | (lost) "e1 = None" "\<not> c" | (marked) "e1 = None" c by (cases e1) auto
    then show ?thesis
    proof cases
      case err
      with Suc.prems(3) sel True mark have "st' = st1" "tried' = ?t"
        "e = Some (Wrapf (''mark RUNNING for job '' @ i @ '': '') x [])" by (auto simp: Let_def)
      with m d show ?thesis by (simp add: dispatch_outcome_def)
    next
      case lost
      with Suc.prems(3) sel True mark have "st' = st1" "tried' = ?t" "e = Some (Sentinel ErrJobAlreadyTerminal)"
        by (auto simp: Let_def)
      with m d lost show ?thesis by (auto simp: dispatch_outcome_def)
    next
      case marked
      obtain s1 st2 e2 where rpc: "sendExecuteTask E ?k w a rec s st1 = (s1, st2, e2)"
        by (cases "sendExecuteTask E ?k w a rec s st1")
      note r = sendExecuteTask_ok [OF assms(1) conjunct1 [OF m] rpc]
      show ?thesis
      proof (cases e2)
        case None
        with Suc.prems(3) sel True mark marked rpc have "st' = st2" "tried' = ?t" "e = None" by (auto simp: Let_def)
        moreover have "store_moves (abs st) (abs st2)" using m r by (meson rtranclp_trans)
        moreover have "dispatch_outcome E i (abs st) (abs st2) None ?t"
          using m r marked unfolding dispatch_outcome_def by auto
        ultimately show ?thesis using r d by simp
      next
        case (Some x)
        let ?st = "env_other E (2 * ?k + 2) st2"
        obtain st3 c3 e3 runs3 where rev: "Transition S (env_now E (2 * ?k + 2)) i revertPending ?st = (st3, c3, e3, runs3)"
          by (cases "Transition S (env_now E (2 * ?k + 2)) i revertPending ?st")
        note o = env_other_ok [OF assms(1) conjunct1 [OF r], of "2 * ?k + 2"]
        note v = Transition_moves [OF conjunct1 [OF o] lifecycle_muts(2) rev]
        from Suc.prems(3) sel True mark marked rpc Some rev have
          loop: "dispatch_loop S E i rec fuel ?t s1 st3 = Some (s', st', e, tried')" by (simp add: Let_def)
        note IH = Suc.IH [OF conjunct1 [OF v] d loop]
        have "store_moves (abs st) (abs st3)" using m r o v by (meson rtranclp_trans)
        with IH show ?thesis by (meson dispatch_outcome_earlier rtranclp_trans)
      qed
    qed
  qed
qed

lemma Dispatch_outcome:
  assumes "env_ok abs inv E" "pools_ok E W" "inv st" "store_ok (abs st)"
    and "Dispatch S E fuel i s st = Some (s', st', e, tried)"
  shows "inv st' \<and> store_moves (abs st) (abs st') \<and> distinct tried \<and> dispatch_outcome E i (abs st) (abs st') e tried"
proof (cases "GetJob S i st")
  case (Inl err)
  with assms show ?thesis by (auto simp: Dispatch_def dispatch_outcome_def)
next
  case (Inr x)
  then have x: "x = a_jobs (abs st) i" using GetJob_fallible [OF assms(3)] by blast
  show ?thesis
  proof (cases x)
    case None
    with Inr assms show ?thesis by (auto simp: Dispatch_def dispatch_outcome_def not_found_def)
  next
    case (Some rec)
    show ?thesis
    proof (cases "terminal rec")
      case True
      with Some x Inr assms show ?thesis by (auto simp: Dispatch_def dispatch_outcome_def terminal_def)
    next
      case False
      with assms(4) x Some have "FunctionBytes rec \<noteq> []" by (auto simp: store_ok_def job_ok_def)
      with False Some Inr assms(5) have "dispatch_loop S E i rec fuel [] s st = Some (s', st', e, tried)"
        by (simp add: Dispatch_def terminal_def)
      from dispatch_loop_outcome [OF assms(1-3) _ this] show ?thesis by simp
    qed
  qed
qed

text \<open>An \<open>ExecuteTask\<close> call is made only while its job is stored as RUNNING.\<close>

lemma dispatch_loop_rpc_running:
  assumes "env_ok abs inv E" "inv st" "ID rec = i"
    and agree: "\<And>k conn req st r. inv st \<Longrightarrow> a_jobs (abs st) (x_JobId req) = Some r \<Longrightarrow> Status r = StatusRunning \<Longrightarrow>
      rpc k conn req st = env_rpc E k conn req st"
  shows "dispatch_loop S (E\<lparr>env_rpc := rpc\<rparr>) i rec fuel tried s st = dispatch_loop S E i rec fuel tried s st"
  using assms(2)
proof (induction fuel arbitrary: tried s st)
  case 0
  then show ?case by simp
next
  case (Suc fuel)
  let ?k = "length tried" and ?E = "E\<lparr>env_rpc := rpc\<rparr>"
  obtain w a ok where sel: "LeastLoadedAliveExcluding (env_order E ?k) (set tried) (env_pool E ?k) = (w, a, ok)"
    by (cases "LeastLoadedAliveExcluding (env_order E ?k) (set tried) (env_pool E ?k)")
  obtain st1 c e1 runs where mark:
    "Transition S (env_now E (2 * ?k + 1)) i (markRunning w) (env_other E (2 * ?k + 1) st) = (st1, c, e1, runs)"
    by (cases "Transition S (env_now E (2 * ?k + 1)) i (markRunning w) (env_other E (2 * ?k + 1) st)")
  note m = mark_step [OF assms(1) Suc.prems mark]
  show ?case
  proof (cases "e1 = None \<and> c")
    case False
    with sel mark show ?thesis by (auto simp: Let_def split: option.splits)
  next
    case True
    with m obtain r where r: "a_jobs (abs st1) i = Some r" "Status r = StatusRunning" "inv st1" by auto
    have send: "sendExecuteTask ?E ?k w a rec s st1 = sendExecuteTask E ?k w a rec s st1"
      by (rule sendExecuteTask_cong, rule agree [OF r(3) _ r(2)]) (simp add: exec_request_def assms(3) r(1))
    obtain s1 st2 e2 where rpc: "sendExecuteTask E ?k w a rec s st1 = (s1, st2, e2)"
      by (cases "sendExecuteTask E ?k w a rec s st1")
    note q = sendExecuteTask_ok [OF assms(1) r(3) rpc]
    let ?st = "env_other E (2 * ?k + 2) st2"
    obtain st3 c3 e3 runs3 where rev: "Transition S (env_now E (2 * ?k + 2)) i revertPending ?st = (st3, c3, e3, runs3)"
      by (cases "Transition S (env_now E (2 * ?k + 2)) i revertPending ?st")
    note o = env_other_ok [OF assms(1) conjunct1 [OF q], of "2 * ?k + 2"]
    note v = Transition_moves [OF conjunct1 [OF o] lifecycle_muts(2) rev]
    from Suc.IH [OF conjunct1 [OF v], of "tried @ [w]" s1] sel mark True send rpc rev show ?thesis
      by (simp add: Let_def split: option.splits)
  qed
qed

end

lemma Dispatch_defined:
  assumes "pools_ok E W" "card W < fuel"
  obtains s' st' e tried where "Dispatch S E fuel i s st = Some (s', st', e, tried)"
proof -
  have "dispatch_loop S E i rec fuel [] s st \<noteq> None" for rec
    using dispatch_loop_returns [OF assms(1), of "[]" fuel S i rec s st] assms(2) by auto
  then have "Dispatch S E fuel i s st \<noteq> None" by (simp add: Dispatch_def split: sum.splits option.splits)
  then obtain x where x: "Dispatch S E fuel i s st = Some x" by blast
  obtain s' st' e tried where "x = (s', st', e, tried)" by (rule prod_cases4)
  with x that show thesis by blast
qed

section \<open>A concrete environment\<close>

text \<open>Two workers; the less loaded one refuses, the other accepts.\<close>

definition demo_env :: "mem_db dispatch_env" where
  "demo_env = \<lparr>env_pool = (\<lambda>_. demo_pool), env_order = (\<lambda>_. [''w1'', ''w2'']), env_now = (\<lambda>_. 9),
     env_other = (\<lambda>_ st. st), env_closed = (\<lambda>_. False), env_dial = (\<lambda>_ _. None),
     env_rpc = (\<lambda>k conn req st. (st, Inr \<lparr>Accepted = (conn = ''a''), RejectionReason = ''busy''\<rparr>))\<rparr>"

lemma demo_env_ok: "env_ok (store_abs mem_bolt) (store_wf mem_bolt) demo_env"
  by (simp add: env_ok_def demo_env_def)

lemma demo_pools_ok: "pools_ok demo_env {''w1'', ''w2''}"
proof -
  have "dom (workers demo_pool) = {''w1'', ''w2''}"
    using conjunct2 [OF demo_pool_wf(2) [unfolded range_order_def]] by simp
  then show ?thesis by (simp add: pools_ok_def demo_env_def demo_pool_wf)
qed

lemma demo_store_ok: "store_ok (store_abs mem_bolt demo_db)"
  by (auto simp: demo_abs store_ok_def abs_ok_def job_ok_def known_status_def terminal_def demo_job_def split: if_splits)

section \<open>Properties\<close>

text \<open>
  C40: dispatch always ends. Whatever the other goroutines, the workers and the network do
  meanwhile, with finitely many worker IDs in play the selection loop runs out of workers
  to try, and \<open>Dispatch\<close> returns.
\<close>
theorem dispatch_returns:
  assumes "pools_ok E W" "card W < fuel"
  shows "\<exists>s' st' e tried. Dispatch S E fuel i s st = Some (s', st', e, tried)"
  by (rule Dispatch_defined [OF assms]) blast

theorem dispatch_returns_witness:
  "\<exists>s' st' e tried. Dispatch (BoltStore mem_bolt) demo_env 3 ''j1'' NewScheduler demo_db = Some (s', st', e, tried)"
  by (rule dispatch_returns [OF demo_pools_ok]) simp





end
