(* ===== verification/Metrics.thy ===== *)
theory Metrics
  imports Worker_Pool "HOL-Library.Multiset"
begin

text \<open>
  \<open>Metrics\<close> of \<open>metrics.go\<close>: the atomic counters and the ring buffer of cold-start
  samples with its percentiles. The percentile index is computed in \<open>float64\<close>: a product
  of an exact integer and a constant, rounded to 53 significant bits (ties to even) and
  truncated; \<open>float_index\<close> is that computation on the constant's significand, in units of
  \<open>2 ^ -53\<close>. A slice index out of range, which would panic, is \<open>None\<close>. The mean is the
  exact quotient that the \<open>float64\<close> division rounds.
\<close>

section \<open>State and operations\<close>

record Metrics =
  totalInvocations :: int64
  totalCompleted :: int64
  totalFailed :: int64
  coldStarts :: "int64 list"
  coldHead :: nat
  coldSize :: nat
  startedAt :: gotime

definition coldStartRingSize :: nat where
  "coldStartRingSize = 1024"

definition NewMetrics :: "gotime \<Rightarrow> Metrics" where
  "NewMetrics now = \<lparr>totalInvocations = 0, totalCompleted = 0, totalFailed = 0,
     coldStarts = replicate coldStartRingSize 0, coldHead = 0, coldSize = 0, startedAt = now\<rparr>"

definition RecordInvocation :: "Metrics \<Rightarrow> Metrics" where
  "RecordInvocation m = m\<lparr>totalInvocations := totalInvocations m + 1\<rparr>"

definition RecordCompleted :: "Metrics \<Rightarrow> Metrics" where
  "RecordCompleted m = m\<lparr>totalCompleted := totalCompleted m + 1\<rparr>"

definition RecordFailed :: "Metrics \<Rightarrow> Metrics" where
  "RecordFailed m = m\<lparr>totalFailed := totalFailed m + 1\<rparr>"

definition RecordColdStart :: "int64 \<Rightarrow> Metrics \<Rightarrow> Metrics" where
  "RecordColdStart ms m =
     (if sint ms < 0 then m
      else let m1 = m\<lparr>coldStarts := (coldStarts m)[coldHead m := ms],
                      coldHead := (coldHead m + 1) mod length (coldStarts m)\<rparr>
           in if coldSize m1 < length (coldStarts m1) then m1\<lparr>coldSize := coldSize m1 + 1\<rparr> else m1)"

text \<open>Rounding to 53 significant bits, ties to even.\<close>

definition round53 :: "nat \<Rightarrow> nat" where
  "round53 x =
     (let s = bitlen x - 53; q = x div 2 ^ s; r = x mod 2 ^ s
      in (if 2 * r > 2 ^ s \<or> (2 * r = 2 ^ s \<and> odd q) then q + 1 else q) * 2 ^ s)"

definition float_index :: "nat \<Rightarrow> nat \<Rightarrow> nat" where
  "float_index n p = round53 (n * p) div 2 ^ 53"

text \<open>0.50, 0.95 and 0.99 as \<open>float64\<close>, in units of \<open>2 ^ -53\<close>.\<close>

definition p050 :: nat where "p050 = 4503599627370496"
definition p095 :: nat where "p095 = 8556839292003942"
definition p099 :: nat where "p099 = 8917127262193582"

definition pick :: "int64 list \<Rightarrow> nat \<Rightarrow> int64 option" where
  "pick ss p =
     (let k = float_index (length ss - 1) p
      in if k < length ss then Some (ss ! k) else None)"

definition snapshotPercentiles :: "Metrics \<Rightarrow> (int64 \<times> int64 \<times> int64 \<times> rat \<times> nat) option" where
  "snapshotPercentiles m =
     (if coldSize m = 0 then Some (0, 0, 0, 0, 0)
      else if coldSize m > length (coldStarts m) then None
      else let ss = sort_key sint (take (coldSize m) (coldStarts m));
               sum = sum_list ss
           in case (pick ss p050, pick ss p095, pick ss p099) of
                (Some a, Some b, Some c) \<Rightarrow>
                  Some (a, b, c, of_int (sint sum) / of_nat (length ss), length ss)
              | _ \<Rightarrow> None)"

section \<open>The ring buffer\<close>

definition ring_wf :: "Metrics \<Rightarrow> bool" where
  "ring_wf m \<longleftrightarrow> coldStarts m \<noteq> [] \<and> length (coldStarts m) = coldStartRingSize \<and> coldHead m < length (coldStarts m) \<and> coldSize m \<le> length (coldStarts m) \<and>
     (coldSize m < length (coldStarts m) \<longrightarrow> coldHead m = coldSize m)"

text \<open>The samples held, oldest first.\<close>

definition samples :: "Metrics \<Rightarrow> int64 list" where
  "samples m =
     (if coldSize m < length (coldStarts m) then take (coldSize m) (coldStarts m)
      else drop (coldHead m) (coldStarts m) @ take (coldHead m) (coldStarts m))"

definition last_n :: "nat \<Rightarrow> 'a list \<Rightarrow> 'a list" where
  "last_n n xs = drop (length xs - n) xs"

lemma mset_samples: "ring_wf m \<Longrightarrow> mset (samples m) = mset (take (coldSize m) (coldStarts m))"
proof (cases "coldSize m < length (coldStarts m)")
  case False
  assume "ring_wf m"
  with False have "coldSize m = length (coldStarts m)" by (simp add: ring_wf_def)
  moreover have "mset (drop (coldHead m) (coldStarts m) @ take (coldHead m) (coldStarts m)) = mset (coldStarts m)"
    by (metis append_take_drop_id mset_append union_commute)
  ultimately show ?thesis by (simp add: samples_def)
qed (simp add: samples_def)

lemma length_samples: "ring_wf m \<Longrightarrow> length (samples m) = coldSize m"
  by (auto simp: samples_def ring_wf_def)

lemma NewMetrics_wf [keeps_wf]: "ring_wf (NewMetrics now)"
  by (simp add: ring_wf_def NewMetrics_def coldStartRingSize_def)

lemma RecordColdStart_spec:
  assumes "ring_wf m" "sint ms \<ge> 0"
  shows "ring_wf (RecordColdStart ms m) \<and> length (coldStarts (RecordColdStart ms m)) = length (coldStarts m) \<and>
    samples (RecordColdStart ms m) = last_n (length (coldStarts m)) (samples m @ [ms])"
proof -
  let ?cs = "coldStarts m" and ?h = "coldHead m" and ?N = "length (coldStarts m)"
  note wf = assms(1) [unfolded ring_wf_def]
  have taken: "take (Suc ?h) (?cs[?h := ms]) = take ?h ?cs @ [ms]"
    using wf by (simp add: take_Suc_conv_app_nth)
  show ?thesis
  proof (cases "coldSize m < ?N")
    case True
    then have h: "?h = coldSize m" using wf by simp
    let ?m = "m\<lparr>coldStarts := ?cs[?h := ms], coldHead := (?h + 1) mod ?N, coldSize := Suc (coldSize m)\<rparr>"
    have rec: "RecordColdStart ms m = ?m" using True assms(2) by (simp add: RecordColdStart_def Let_def)
    have old: "samples m = take ?h ?cs" using True h by (simp add: samples_def)
    have new: "samples ?m = take ?h ?cs @ [ms]"
    proof (cases "Suc ?h < ?N")
      case True
      with taken h show ?thesis by (simp add: samples_def)
    next
      case False
      with True h have "Suc ?h = ?N" by simp
      with taken h show ?thesis by (simp add: samples_def)
    qed
    have "ring_wf ?m" using True h wf by (auto simp: ring_wf_def intro!: mod_less)
    moreover have "last_n ?N (take ?h ?cs @ [ms]) = take ?h ?cs @ [ms]" using True h by (simp add: last_n_def)
    ultimately show ?thesis unfolding rec new old by simp
  next
    case False
    then have full: "coldSize m = ?N" using wf by simp
    let ?m = "m\<lparr>coldStarts := ?cs[?h := ms], coldHead := (?h + 1) mod ?N\<rparr>"
    have rec: "RecordColdStart ms m = ?m" using full assms(2) by (simp add: RecordColdStart_def Let_def)
    have old: "samples m = ?cs ! ?h # drop (Suc ?h) ?cs @ take ?h ?cs"
      using full wf by (simp add: samples_def Cons_nth_drop_Suc)
    have new: "samples ?m = drop (Suc ?h) ?cs @ take ?h ?cs @ [ms]"
    proof (cases "Suc ?h < ?N")
      case True
      with taken full show ?thesis by (simp add: samples_def)
    next
      case False
      with wf have "Suc ?h = ?N" by simp
      with taken full show ?thesis by (simp add: samples_def)
    qed
    have "ring_wf ?m" using full wf by (auto simp: ring_wf_def)
    moreover have "last_n ?N (samples m @ [ms]) = drop (Suc ?h) ?cs @ take ?h ?cs @ [ms]"
      using wf unfolding old by (simp add: last_n_def)
    ultimately show ?thesis unfolding rec new by simp
  qed
qed

lemma last_n_last_n: "last_n n (last_n n xs @ [x]) = last_n n (xs @ [x])"
proof (cases "length xs \<le> n")
  case False
  then have "Suc (length xs) - n = Suc (length xs - n)" by simp
  with False show ?thesis by (simp add: last_n_def)
qed (simp add: last_n_def)

lemma ring_history:
  assumes "ring_wf m" "samples m = last_n (length (coldStarts m)) ys" "N = length (coldStarts m)"
  shows "ring_wf (fold RecordColdStart xs m) \<and>
    samples (fold RecordColdStart xs m) = last_n N (ys @ filter (\<lambda>x. sint x \<ge> 0) xs) \<and>
    length (coldStarts (fold RecordColdStart xs m)) = N"
  using assms
proof (induction xs arbitrary: m ys)
  case Nil
  then show ?case by simp
next
  case (Cons x xs)
  show ?case
  proof (cases "sint x \<ge> 0")
    case True
    note spec = RecordColdStart_spec [OF Cons.prems(1) True]
    then have "samples (RecordColdStart x m) = last_n (length (coldStarts (RecordColdStart x m))) (ys @ [x])"
      using Cons.prems(2) by (simp add: last_n_last_n)
    from Cons.IH [OF _ this, of] spec Cons.prems(3) True show ?thesis by simp
  next
    case False
    with Cons show ?thesis by (simp add: RecordColdStart_def)
  qed
qed


section \<open>Rounding\<close>

lemma bitlen_le: "x < 2 ^ k \<Longrightarrow> bitlen x \<le> k"
proof (induction k arbitrary: x)
  case 0
  then show ?case by (simp add: bitlen.simps)
next
  case (Suc k)
  then show ?case by (cases "x = 0") (simp_all add: bitlen.simps [of x] bitlen.simps [of 0])
qed

lemma round53_cases:
  assumes "x < 2 ^ 64"
  obtains s q r where "s \<le> 11" "x = q * 2 ^ s + r" "r < 2 ^ s"
    "round53 x = q * 2 ^ s \<or> round53 x = (q + 1) * 2 ^ s \<and> r > 0"
proof -
  let ?s = "bitlen x - 53"
  let ?q = "x div 2 ^ ?s" and ?r = "x mod 2 ^ ?s"
  have "round53 x = (if 2 * ?r > 2 ^ ?s \<or> (2 * ?r = 2 ^ ?s \<and> odd ?q) then ?q + 1 else ?q) * 2 ^ ?s"
    unfolding round53_def Let_def by (rule refl)
  then have "round53 x = ?q * 2 ^ ?s \<or> round53 x = (?q + 1) * 2 ^ ?s \<and> ?r > 0"
    by (cases "?r = 0") (simp_all only: mult_0_right split: if_splits, auto)
  moreover have "?s \<le> 11" using bitlen_le [OF assms] by simp
  moreover have "x = ?q * 2 ^ ?s + ?r" by (rule div_mult_mod_eq [symmetric])
  ultimately show thesis using that by simp
qed

lemma round53_bounds:
  fixes x n :: nat
  assumes "x < 2 ^ 64" "k \<ge> 11"
  shows "n * 2 ^ k \<le> x \<Longrightarrow> n * 2 ^ k \<le> round53 x"
    and "x \<le> n * 2 ^ k \<Longrightarrow> round53 x \<le> n * 2 ^ k"
    and "round53 x \<le> x + 2 ^ 11"
proof -
  obtain s q r where s: "s \<le> 11" and x: "x = q * 2 ^ s + r" "r < 2 ^ s"
    and round: "round53 x = q * 2 ^ s \<or> round53 x = (q + 1) * 2 ^ s \<and> r > 0"
    using assms(1) by (rule round53_cases)
  define u where "u = (2 :: nat) ^ s"
  define c where "c = n * 2 ^ (k - s)"
  have m: "n * 2 ^ k = c * u" using s assms(2) by (simp add: c_def u_def flip: power_add)
  have u: "0 < u" "x = q * u + r" "r < u" "round53 x = q * u \<or> round53 x = q * u + u \<and> r > 0"
    using x round by (simp_all add: u_def add_mult_distrib add.commute)
  show "n * 2 ^ k \<le> round53 x" if "n * 2 ^ k \<le> x"
  proof -
    have "c * u < (q + 1) * u" using that u unfolding m by (simp add: add_mult_distrib)
    then have "c \<le> q" by (simp only: mult_less_cancel2) simp
    then have "c * u \<le> q * u" by (rule mult_le_mono1)
    with u(4) show ?thesis unfolding m by linarith
  qed
  show "round53 x \<le> n * 2 ^ k" if "x \<le> n * 2 ^ k"
  proof (cases "r = 0")
    case True
    with u(2,4) that show ?thesis by linarith
  next
    case False
    with u(2) that have "q * u < c * u" unfolding m by linarith
    then have "q < c" by (simp only: mult_less_cancel2)
    then have "Suc q * u \<le> c * u" by (intro mult_le_mono1) simp
    then have "q * u + u \<le> c * u" by simp
    with u(4) show ?thesis unfolding m by linarith
  qed
  have "u \<le> 2 ^ 11" unfolding u_def using s by (rule power_increasing) simp
  with u(2,4) show "round53 x \<le> x + 2 ^ 11" by linarith
qed

lemma float_index_bounds:
  assumes "n < 1024" "p \<le> 2 ^ 53"
  shows "float_index n p \<le> n" and "n * p div 2 ^ 53 \<le> float_index n p"
proof -
  have np: "n * p \<le> n * 2 ^ 53" using assms(2) by simp
  also have "\<dots> < 2 ^ 64" using assms(1) by simp
  finally have b: "n * p < 2 ^ 64" .
  have "round53 (n * p) div 2 ^ 53 \<le> (n * 2 ^ 53) div 2 ^ 53" by (rule div_le_mono) (rule round53_bounds(2) [OF b _ np], simp)
  then show "float_index n p \<le> n" by (simp add: float_index_def)
  have "(n * p div 2 ^ 53) * 2 ^ 53 \<le> round53 (n * p)" by (rule round53_bounds(1) [OF b]) simp_all
  then show "n * p div 2 ^ 53 \<le> float_index n p"
    unfolding float_index_def by (simp add: less_eq_div_iff_mult_less_eq)
qed

lemma float_index_mono:
  assumes "n < 1024" "p + 2 ^ 11 \<le> p'" "p' \<le> 2 ^ 53"
  shows "float_index n p \<le> float_index n p'"
proof (cases "n = 0")
  case True
  then show ?thesis by (simp add: float_index_def)
next
  case False
  have "n * p \<le> n * 2 ^ 53" using assms by simp
  also have "\<dots> < 2 ^ 64" using assms(1) by simp
  finally have "round53 (n * p) \<le> n * p + 2 ^ 11" by (rule round53_bounds(3) [of _ 53]) simp
  also have "\<dots> \<le> n * (p + 2 ^ 11)" using False by (simp add: add_mult_distrib2)
  also have "\<dots> \<le> n * p'" using assms(2) by simp
  finally have "float_index n p \<le> n * p' div 2 ^ 53" unfolding float_index_def by (rule div_le_mono)
  also have "\<dots> \<le> float_index n p'" by (rule float_index_bounds(2)) (use assms in simp_all)
  finally show ?thesis .
qed

lemma percentile_consts: "p050 + 2 ^ 11 \<le> p095" "p095 + 2 ^ 11 \<le> p099" "p050 \<le> 2 ^ 53" "p095 \<le> 2 ^ 53" "p099 \<le> 2 ^ 53"
  by (simp_all add: p050_def p095_def p099_def)

lemma pick_Some:
  assumes "ss \<noteq> []" "length ss \<le> 1024" "p \<le> 2 ^ 53"
  shows "pick ss p = Some (ss ! float_index (length ss - 1) p)"
proof -
  have len: "0 < length ss" using assms(1) by simp
  then have "length ss - 1 < 1024" using assms(2) by linarith
  from float_index_bounds(1) [OF this assms(3)] len have "float_index (length ss - 1) p < length ss" by linarith
  then show ?thesis unfolding pick_def Let_def by (rule if_P)
qed

lemma percentiles_of_ring:
  assumes "ring_wf m" "coldSize m > 0"
  shows "\<exists>a b c mean. snapshotPercentiles m = Some (a, b, c, mean, coldSize m) \<and>
    {a, b, c} \<subseteq> set (take (coldSize m) (coldStarts m)) \<and> sint a \<le> sint b \<and> sint b \<le> sint c"
proof -
  let ?ss = "sort_key sint (take (coldSize m) (coldStarts m))"
  let ?n = "length ?ss - 1"
  from assms(1) have size: "coldSize m \<le> 1024" and len: "length (coldStarts m) = 1024"
    by (simp_all add: ring_wf_def coldStartRingSize_def)
  then have ss: "length ?ss = coldSize m" "?ss \<noteq> []" "?n < 1024" using assms(2)
    by (auto simp flip: length_0_conv)
  have set: "set ?ss \<subseteq> set (take (coldSize m) (coldStarts m))" by simp
  note i = float_index_bounds(1) [OF ss(3)] and mono = float_index_mono [OF ss(3)]
  have picks: "pick ?ss p = Some (?ss ! float_index ?n p)" if "p \<le> 2 ^ 53" for p
    using that ss size by (intro pick_Some) auto
  have mem: "?ss ! float_index ?n p \<in> set (take (coldSize m) (coldStarts m))" if "p \<le> 2 ^ 53" for p
  proof -
    have "float_index ?n p < length ?ss" using i [OF that] ss(1) assms(2) by linarith
    then show ?thesis using set nth_mem by blast
  qed
  have sorted: "sint (?ss ! j) \<le> sint (?ss ! k)" if "j \<le> k" "k \<le> ?n" for j k
  proof -
    have "k < length ?ss" using that ss(1) assms(2) by linarith
    moreover from this that(1) have "j < length ?ss" by simp
    ultimately show ?thesis
      using sorted_nth_mono [OF sorted_sort_key [of sint "take (coldSize m) (coldStarts m)"] that(1)]
      by (simp only: nth_map length_map)
  qed
  have "snapshotPercentiles m = Some (?ss ! float_index ?n p050, ?ss ! float_index ?n p095, ?ss ! float_index ?n p099,
      of_int (sint (sum_list ?ss)) / of_nat (length ?ss), length ?ss)"
    unfolding snapshotPercentiles_def Let_def picks [OF percentile_consts(3)] picks [OF percentile_consts(4)]
      picks [OF percentile_consts(5)] using assms(2) size len by simp
  moreover have "sint (?ss ! float_index ?n p050) \<le> sint (?ss ! float_index ?n p095)"
    "sint (?ss ! float_index ?n p095) \<le> sint (?ss ! float_index ?n p099)"
    by (intro sorted mono i percentile_consts)+
  moreover note mem [OF percentile_consts(3)] mem [OF percentile_consts(4)] mem [OF percentile_consts(5)]
  ultimately show ?thesis unfolding ss(1) by blast
qed

section \<open>Properties\<close>

text \<open>
  The cold-start ring buffer holds the most recent samples. After any sequence of
  recordings on fresh metrics its valid entries are, as a multiset, the last 1024
  non-negative samples, and negative ones leave no trace.
\<close>
theorem ring_holds_recent_samples:
  "let m = fold RecordColdStart xs (NewMetrics now) in
     mset (take (coldSize m) (coldStarts m)) = mset (last_n 1024 (filter (\<lambda>x. sint x \<ge> 0) xs))"
proof -
  have "samples (NewMetrics now) = last_n (length (coldStarts (NewMetrics now))) []"
    by (simp add: samples_def NewMetrics_def last_n_def coldStartRingSize_def)
  from ring_history [OF NewMetrics_wf this refl, of xs] show ?thesis
    by (auto simp: Let_def mset_samples [symmetric] NewMetrics_def coldStartRingSize_def)
qed

text \<open>
  The percentile report never panics and is ordered. Over any sequence of recordings,
  with the index computed in floating point, \<open>snapshotPercentiles\<close> returns, the three
  percentiles are recorded samples with p50 at most p95 at most p99, and the sample count is
  the number of valid entries.
\<close>
theorem percentiles_ordered:
  assumes "m = fold RecordColdStart xs (NewMetrics now)" "coldSize m > 0"
  shows "\<exists>a b c mean. snapshotPercentiles m = Some (a, b, c, mean, coldSize m) \<and>
    {a, b, c} \<subseteq> set (filter (\<lambda>x. sint x \<ge> 0) xs) \<and> sint a \<le> sint b \<and> sint b \<le> sint c"
proof -
  let ?ys = "filter (\<lambda>x. sint x \<ge> 0) xs"
  have "samples (NewMetrics now) = last_n (length (coldStarts (NewMetrics now))) []"
    by (simp add: samples_def NewMetrics_def last_n_def coldStartRingSize_def)
  from ring_history [OF NewMetrics_wf this refl, of xs] assms(1) have
    wf: "ring_wf m" and sm: "samples m = last_n 1024 ?ys"
    by (simp_all add: NewMetrics_def coldStartRingSize_def)
  have "set (take (coldSize m) (coldStarts m)) = set (last_n 1024 ?ys)"
    using mset_eq_setD [OF mset_samples [OF wf]] sm by simp
  then have "set (take (coldSize m) (coldStarts m)) \<subseteq> set ?ys"
    using set_drop_subset [of "length ?ys - 1024" ?ys] by (simp only: last_n_def)
  then show ?thesis using percentiles_of_ring [OF wf assms(2)] by (meson subset_trans)
qed

theorem percentiles_ordered_witness:
  "\<exists>a b c mean. snapshotPercentiles (fold RecordColdStart [5, 3] (NewMetrics 0)) = Some (a, b, c, mean, 2) \<and>
     sint a \<le> sint b \<and> sint b \<le> sint c"
proof -
  have "coldSize (fold RecordColdStart [5, 3] (NewMetrics 0)) = 2"
    by (simp add: RecordColdStart_def NewMetrics_def coldStartRingSize_def Let_def)
  with percentiles_ordered [OF refl, of "[5, 3]" 0] show ?thesis by auto
qed

end
