(* ===== verification/Log_Hub.thy ===== *)
theory Log_Hub
  imports Proto "HOL-Library.Sublist"
begin

text \<open>
  \<open>LogHub\<close> of \<open>loghub.go\<close>: replay buffers and subscriber mailboxes per job. A
  \<open>*logSub\<close> is a handle into a heap of mailboxes; a buffered channel is the list of its
  events, oldest first, and a send on a full channel takes the default branch. The hub's
  methods hold its mutex; a watcher's receive does not, so it is a step of its own, and
  \<open>Append\<close> of several lines is the sequence of its single-line steps (\<open>Append_Cons\<close>),
  between which a receive may fall. Each range over the subscribers touches every mailbox
  independently, so its order does not matter and it is one pointwise update.
\<close>

section \<open>State and operations\<close>

record logSub =
  ch :: "JobEvent list"
  sub_dropped :: nat

record jobLogState =
  lines :: "LogLine list"
  lines_dropped :: nat
  subs :: "nat set"
  final :: "JobEvent option"

record LogHub =
  hub_jobs :: "string \<rightharpoonup> jobLogState"
  maxLines :: nat
  mailboxes :: "nat \<rightharpoonup> logSub"
  next_sub :: nat

definition defaultMaxBufferedLines :: nat where "defaultMaxBufferedLines = 10000"
definition subChannelBuffer :: nat where "subChannelBuffer = 1024"
definition maxLineBytes :: nat where "maxLineBytes = 8192"

definition NewLogHub :: LogHub where
  "NewLogHub = \<lparr>hub_jobs = Map.empty, maxLines = defaultMaxBufferedLines, mailboxes = Map.empty, next_sub = 0\<rparr>"

definition new_state :: jobLogState where
  "new_state = \<lparr>lines = [], lines_dropped = 0, subs = {}, final = None\<rparr>"

definition hub_get :: "string \<Rightarrow> LogHub \<Rightarrow> jobLogState" where
  "hub_get jobID h = (case hub_jobs h jobID of None \<Rightarrow> new_state | Some st \<Rightarrow> st)"

definition truncated :: string where
  "truncated = [CHR 0xE2, CHR 0x80, CHR 0xA6] @ ''[truncated]''"

definition truncate_line :: "LogLine \<Rightarrow> LogLine" where
  "truncate_line l =
     (if length (Line l) > maxLineBytes then l\<lparr>Line := take maxLineBytes (Line l) @ truncated\<rparr> else l)"

definition send :: "JobEvent \<Rightarrow> logSub \<Rightarrow> logSub" where
  "send ev sub =
     (if length (ch sub) < subChannelBuffer then sub\<lparr>ch := ch sub @ [ev]\<rparr>
      else sub\<lparr>sub_dropped := sub_dropped sub + 1\<rparr>)"

definition broadcast :: "JobEvent \<Rightarrow> nat set \<Rightarrow> LogHub \<Rightarrow> LogHub" where
  "broadcast ev ss h =
     h\<lparr>mailboxes := (\<lambda>s. if s \<in> ss then map_option (send ev) (mailboxes h s) else mailboxes h s)\<rparr>"

definition append_line :: "string \<Rightarrow> LogLine \<Rightarrow> LogHub \<Rightarrow> LogHub" where
  "append_line jobID l h =
     (let st = hub_get jobID h; l' = truncate_line l;
          st' = (if length (lines st) \<ge> maxLines h then st\<lparr>lines_dropped := lines_dropped st + 1\<rparr>
                 else st\<lparr>lines := lines st @ [l']\<rparr>)
      in broadcast \<lparr>ev_JobId = jobID, Event = EvLog l'\<rparr> (subs st')
           (h\<lparr>hub_jobs := (hub_jobs h)(jobID \<mapsto> st')\<rparr>))"

definition Append :: "string \<Rightarrow> LogLine list \<Rightarrow> LogHub \<Rightarrow> LogHub" where
  "Append jobID ls h =
     (if ls = [] then h
      else let st = hub_get jobID h; h1 = h\<lparr>hub_jobs := (hub_jobs h)(jobID \<mapsto> st)\<rparr>
           in if final st \<noteq> None then h1 else fold (append_line jobID) ls h1)"

definition Subscribe :: "string \<Rightarrow> LogHub \<Rightarrow> LogHub \<times> nat \<times> JobEvent list \<times> JobEvent option" where
  "Subscribe jobID h =
     (let st = hub_get jobID h; sub = next_sub h
      in (h\<lparr>hub_jobs := (hub_jobs h)(jobID \<mapsto> st\<lparr>subs := insert sub (subs st)\<rparr>),
            mailboxes := (mailboxes h)(sub \<mapsto> \<lparr>ch = [], sub_dropped = 0\<rparr>), next_sub := Suc sub\<rparr>,
          sub, map (\<lambda>l. \<lparr>ev_JobId = jobID, Event = EvLog l\<rparr>) (lines st), final st))"

definition Unsubscribe :: "string \<Rightarrow> nat \<Rightarrow> LogHub \<Rightarrow> LogHub" where
  "Unsubscribe jobID sub h =
     (case hub_jobs h jobID of
        None \<Rightarrow> h
      | Some st \<Rightarrow>
          (let st' = st\<lparr>subs := subs st - {sub}\<rparr>
           in if final st' \<noteq> None \<and> subs st' = {} then h\<lparr>hub_jobs := (hub_jobs h)(jobID := None)\<rparr>
              else h\<lparr>hub_jobs := (hub_jobs h)(jobID \<mapsto> st')\<rparr>))"

definition Finish :: "string \<Rightarrow> JobEvent \<Rightarrow> LogHub \<Rightarrow> LogHub" where
  "Finish jobID result h =
     (case hub_jobs h jobID of
        None \<Rightarrow> h
      | Some st \<Rightarrow>
          (if final st \<noteq> None then h
           else let h1 = broadcast result (subs st)
                      (h\<lparr>hub_jobs := (hub_jobs h)(jobID \<mapsto> st\<lparr>final := Some result\<rparr>)\<rparr>)
                in if subs st = {} then h1\<lparr>hub_jobs := (hub_jobs h1)(jobID := None)\<rparr> else h1))"

definition JobCount :: "LogHub \<Rightarrow> nat" where
  "JobCount h = card (dom (hub_jobs h))"

text \<open>A watcher's receive from its mailbox, when an event is waiting.\<close>

definition recv :: "nat \<Rightarrow> LogHub \<Rightarrow> LogHub \<times> JobEvent option" where
  "recv sub h =
     (case mailboxes h sub of
        None \<Rightarrow> (h, None)
      | Some m \<Rightarrow>
          (case ch m of
             [] \<Rightarrow> (h, None)
           | ev # evs \<Rightarrow> (h\<lparr>mailboxes := (mailboxes h)(sub \<mapsto> m\<lparr>ch := evs\<rparr>)\<rparr>, Some ev)))"

section \<open>Single lines\<close>

lemma broadcast_simps [simp]:
  "hub_jobs (broadcast ev ss h) = hub_jobs h" "maxLines (broadcast ev ss h) = maxLines h"
  "next_sub (broadcast ev ss h) = next_sub h"
  "mailboxes (broadcast ev ss h) s = (if s \<in> ss then map_option (send ev) (mailboxes h s) else mailboxes h s)"
  by (simp_all add: broadcast_def)

lemma append_line_simps [simp]:
  "maxLines (append_line j l h) = maxLines h" "next_sub (append_line j l h) = next_sub h"
  "final (hub_get j (append_line j l h)) = final (hub_get j h)"
  "subs (hub_get j (append_line j l h)) = subs (hub_get j h)"
  by (simp_all add: append_line_def hub_get_def Let_def)

lemma append_line_entry: "hub_jobs (append_line j l h) j = Some (hub_get j (append_line j l h))"
  by (simp add: append_line_def hub_get_def Let_def)

lemma get_store [simp]: "hub_get j (h\<lparr>hub_jobs := (hub_jobs h)(j \<mapsto> hub_get j h)\<rparr>) = hub_get j h"
  by (simp add: hub_get_def)

lemma append_line_get_store: "append_line j l (h\<lparr>hub_jobs := (hub_jobs h)(j \<mapsto> hub_get j h)\<rparr>) = append_line j l h"
  by (simp add: append_line_def Let_def broadcast_def)

lemma Append_single: "Append j [l] h =
    (if final (hub_get j h) \<noteq> None then h\<lparr>hub_jobs := (hub_jobs h)(j \<mapsto> hub_get j h)\<rparr> else append_line j l h)"
  by (simp add: Append_def Let_def append_line_get_store)

lemma Append_Cons: "Append j (l # ls) h = Append j ls (Append j [l] h)"
proof (cases "final (hub_get j h) \<noteq> None")
  case True
  then show ?thesis by (simp add: Append_def Let_def)
next
  case False
  let ?h = "append_line j l h"
  have store: "?h\<lparr>hub_jobs := (hub_jobs ?h)(j \<mapsto> hub_get j ?h)\<rparr> = ?h"
  proof -
    have "(hub_jobs ?h)(j \<mapsto> hub_get j ?h) = hub_jobs ?h" using append_line_entry [of j l h] by (simp add: fun_upd_idem)
    then show ?thesis by simp
  qed
  from False show ?thesis
    by (cases "ls = []") (simp_all add: Append_def Let_def append_line_get_store store)
qed

section \<open>Invariant\<close>

definition entry_ok :: "LogHub \<Rightarrow> jobLogState \<Rightarrow> bool" where
  "entry_ok h st \<longleftrightarrow> length (lines st) \<le> maxLines h \<and> (final st \<noteq> None \<longrightarrow> subs st \<noteq> {}) \<and>
     (\<forall>s \<in> subs st. s < next_sub h \<and> mailboxes h s \<noteq> None)"

definition hub_wf :: "LogHub \<Rightarrow> bool" where
  "hub_wf h \<longleftrightarrow> (\<forall>j st. hub_jobs h j = Some st \<longrightarrow> entry_ok h st) \<and>
     (\<forall>j j' st st' s. hub_jobs h j = Some st \<longrightarrow> hub_jobs h j' = Some st' \<longrightarrow> s \<in> subs st \<longrightarrow> s \<in> subs st' \<longrightarrow> j = j') \<and>
     (\<forall>s m. mailboxes h s = Some m \<longrightarrow> s < next_sub h \<and> length (ch m) \<le> subChannelBuffer)"

lemma hub_wfI:
  assumes "\<And>j st. hub_jobs h j = Some st \<Longrightarrow> entry_ok h st"
    and "\<And>j j' st st' s. hub_jobs h j = Some st \<Longrightarrow> hub_jobs h j' = Some st' \<Longrightarrow> s \<in> subs st \<Longrightarrow> s \<in> subs st' \<Longrightarrow> j = j'"
    and "\<And>s m. mailboxes h s = Some m \<Longrightarrow> s < next_sub h \<and> length (ch m) \<le> subChannelBuffer"
  shows "hub_wf h"
  using assms unfolding hub_wf_def by blast

lemma hub_wfD:
  assumes "hub_wf h"
  shows "hub_jobs h j = Some st \<Longrightarrow> entry_ok h st"
    and "hub_jobs h j = Some st \<Longrightarrow> hub_jobs h j' = Some st' \<Longrightarrow> s \<in> subs st \<Longrightarrow> s \<in> subs st' \<Longrightarrow> j = j'"
    and "mailboxes h s = Some m \<Longrightarrow> s < next_sub h \<and> length (ch m) \<le> subChannelBuffer"
  using assms unfolding hub_wf_def by blast+

lemma entry_ok_mono:
  assumes "entry_ok h st" "maxLines h' = maxLines h" "next_sub h \<le> next_sub h'"
    "\<And>s. mailboxes h s \<noteq> None \<Longrightarrow> mailboxes h' s \<noteq> None"
  shows "entry_ok h' st"
  using assms unfolding entry_ok_def by (metis order_less_le_trans)

lemma hub_wf_get:
  assumes "hub_wf h" shows "entry_ok h (hub_get j h)"
proof (cases "hub_jobs h j")
  case None
  then show ?thesis by (simp add: hub_get_def new_state_def entry_ok_def)
next
  case (Some st)
  with hub_wfD(1) [OF assms] show ?thesis by (simp add: hub_get_def)
qed

lemma get_subs: "s \<in> subs (hub_get j h) \<longleftrightarrow> (\<exists>st. hub_jobs h j = Some st \<and> s \<in> subs st)"
  by (simp add: hub_get_def new_state_def split: option.splits)

lemma hub_wf_new: "hub_wf NewLogHub"
  by (rule hub_wfI) (simp_all add: NewLogHub_def)

lemma hub_wf_entry:
  assumes wf: "hub_wf h" and ok: "entry_ok h st" and sub: "subs st \<subseteq> subs (hub_get j h)"
  shows "hub_wf (h\<lparr>hub_jobs := (hub_jobs h)(j \<mapsto> st)\<rparr>)"
proof (rule hub_wfI)
  fix k st' assume "hub_jobs (h\<lparr>hub_jobs := (hub_jobs h)(j \<mapsto> st)\<rparr>) k = Some st'"
  then have "st' = st \<or> hub_jobs h k = Some st'" by (simp split: if_splits)
  then have "entry_ok h st'" using ok hub_wfD(1) [OF wf] by blast
  then show "entry_ok (h\<lparr>hub_jobs := (hub_jobs h)(j \<mapsto> st)\<rparr>) st'" by (simp add: entry_ok_def)
next
  have old: "\<exists>st0. hub_jobs h k = Some st0 \<and> s \<in> subs st0"
    if "hub_jobs (h\<lparr>hub_jobs := (hub_jobs h)(j \<mapsto> st)\<rparr>) k = Some st'" "s \<in> subs st'" for k st' s
    using that sub by (auto simp: get_subs split: if_splits)
  fix k k' st1 st2 s
  assume "hub_jobs (h\<lparr>hub_jobs := (hub_jobs h)(j \<mapsto> st)\<rparr>) k = Some st1" "s \<in> subs st1"
    "hub_jobs (h\<lparr>hub_jobs := (hub_jobs h)(j \<mapsto> st)\<rparr>) k' = Some st2" "s \<in> subs st2"
  with old obtain a b where "hub_jobs h k = Some a" "s \<in> subs a" "hub_jobs h k' = Some b" "s \<in> subs b" by metis
  then show "k = k'" using hub_wfD(2) [OF wf] by blast
next
  fix s m assume "mailboxes (h\<lparr>hub_jobs := (hub_jobs h)(j \<mapsto> st)\<rparr>) s = Some m"
  then show "s < next_sub (h\<lparr>hub_jobs := (hub_jobs h)(j \<mapsto> st)\<rparr>) \<and> length (ch m) \<le> subChannelBuffer"
    using hub_wfD(3) [OF wf] by simp
qed

lemma hub_wf_delete:
  assumes wf: "hub_wf h"
  shows "hub_wf (h\<lparr>hub_jobs := (hub_jobs h)(j := None)\<rparr>)"
proof (rule hub_wfI)
  fix k st assume "hub_jobs (h\<lparr>hub_jobs := (hub_jobs h)(j := None)\<rparr>) k = Some st"
  then have "hub_jobs h k = Some st" by (simp split: if_splits)
  then show "entry_ok (h\<lparr>hub_jobs := (hub_jobs h)(j := None)\<rparr>) st"
    using hub_wfD(1) [OF wf] by (auto simp: entry_ok_def)
qed (use hub_wfD(2,3) [OF wf] in \<open>auto split: if_splits\<close>)

lemma send_ch: "length (ch m) \<le> subChannelBuffer \<Longrightarrow> length (ch (send ev m)) \<le> subChannelBuffer"
  by (auto simp: send_def)

lemma hub_wf_broadcast:
  assumes wf: "hub_wf h"
  shows "hub_wf (broadcast ev ss h)"
proof (rule hub_wfI)
  fix k st assume "hub_jobs (broadcast ev ss h) k = Some st"
  then have "entry_ok h st" using hub_wfD(1) [OF wf] by simp
  then show "entry_ok (broadcast ev ss h) st" by (rule entry_ok_mono) simp_all
next
  fix s m assume "mailboxes (broadcast ev ss h) s = Some m"
  then obtain m0 where "mailboxes h s = Some m0" "m = m0 \<or> m = send ev m0" by (auto split: if_splits)
  with hub_wfD(3) [OF wf] show "s < next_sub (broadcast ev ss h) \<and> length (ch m) \<le> subChannelBuffer"
    by (auto intro: send_ch)
qed (use hub_wfD(2) [OF wf] in auto)

lemma append_line_wf [keeps_wf]:
  assumes "hub_wf h" "final (hub_get j h) = None"
  shows "hub_wf (append_line j l h)"
proof -
  let ?st = "hub_get j h"
  have "entry_ok h (if length (lines ?st) \<ge> maxLines h then ?st\<lparr>lines_dropped := lines_dropped ?st + 1\<rparr>
      else ?st\<lparr>lines := lines ?st @ [truncate_line l]\<rparr>)"
    using hub_wf_get [OF assms(1), of j] assms(2) by (simp add: entry_ok_def)
  then show ?thesis
    unfolding append_line_def Let_def by (intro hub_wf_broadcast hub_wf_entry assms(1)) simp_all
qed

lemma Append_wf [keeps_wf]: "hub_wf h \<Longrightarrow> hub_wf (Append j ls h)"
proof (induction ls arbitrary: h)
  case Nil
  then show ?case by (simp add: Append_def)
next
  case (Cons l ls)
  have "hub_wf (Append j [l] h)"
    using Cons.prems hub_wf_entry [OF Cons.prems hub_wf_get [OF Cons.prems] order_refl] append_line_wf [OF Cons.prems]
    by (simp add: Append_single)
  then show ?case by (subst Append_Cons) (rule Cons.IH)
qed

lemma Subscribe_eq:
  "fst (Subscribe j h) = (let st = hub_get j h in
     h\<lparr>hub_jobs := (hub_jobs h)(j \<mapsto> st\<lparr>subs := insert (next_sub h) (subs st)\<rparr>),
       mailboxes := (mailboxes h)(next_sub h \<mapsto> \<lparr>ch = [], sub_dropped = 0\<rparr>), next_sub := Suc (next_sub h)\<rparr>)"
  by (simp add: Subscribe_def Let_def)

lemma Subscribe_wf [keeps_wf]:
  assumes wf: "hub_wf h"
  shows "hub_wf (fst (Subscribe j h))"
proof -
  let ?h = "fst (Subscribe j h)" and ?s = "next_sub h"
  have fresh: "?s \<notin> subs st" if "hub_jobs h k = Some st" for k st
    using hub_wfD(1) [OF wf that] by (auto simp: entry_ok_def)
  have up: "entry_ok ?h st" if "entry_ok h st" for st
    using that by (rule entry_ok_mono) (simp_all add: Subscribe_eq Let_def)
  have jobs: "hub_jobs ?h k = (if k = j then Some ((hub_get j h)\<lparr>subs := insert ?s (subs (hub_get j h))\<rparr>) else hub_jobs h k)" for k
    by (simp add: Subscribe_eq Let_def)
  have old: "s = ?s \<and> k = j \<or> (\<exists>a. hub_jobs h k = Some a \<and> s \<in> subs a)"
    if "hub_jobs ?h k = Some st" "s \<in> subs st" for k st s
    using that unfolding jobs by (cases "k = j") (auto simp: get_subs)
  show ?thesis
  proof (rule hub_wfI)
    fix k st assume st: "hub_jobs ?h k = Some st"
    show "entry_ok ?h st"
    proof (cases "k = j")
      case True
      with st hub_wf_get [OF wf, of j] show ?thesis
        unfolding jobs by (auto simp: entry_ok_def Subscribe_eq Let_def less_Suc_eq)
    next
      case False
      with st up hub_wfD(1) [OF wf] show ?thesis unfolding jobs by simp
    qed
  next
    fix k k' st st' s
    assume a: "hub_jobs ?h k = Some st" "hub_jobs ?h k' = Some st'" "s \<in> subs st" "s \<in> subs st'"
    from old [OF a(1,3)] old [OF a(2,4)] fresh hub_wfD(2) [OF wf] show "k = k'" by blast
  next
    fix s m assume "mailboxes ?h s = Some m"
    then show "s < next_sub ?h \<and> length (ch m) \<le> subChannelBuffer"
      using hub_wfD(3) [OF wf, of s m] by (cases "s = ?s") (auto simp: Subscribe_eq Let_def)
  qed
qed

lemma Unsubscribe_wf [keeps_wf]:
  assumes "hub_wf h"
  shows "hub_wf (Unsubscribe j s h)"
proof (cases "hub_jobs h j")
  case None
  with assms show ?thesis by (simp add: Unsubscribe_def)
next
  case (Some st)
  let ?st = "st\<lparr>subs := subs st - {s}\<rparr>"
  have "hub_wf (h\<lparr>hub_jobs := (hub_jobs h)(j \<mapsto> ?st)\<rparr>)" if "\<not> (final ?st \<noteq> None \<and> subs ?st = {})"
    using that hub_wfD(1) [OF assms Some] Some by (intro hub_wf_entry assms) (auto simp: entry_ok_def hub_get_def)
  with Some hub_wf_delete [OF assms] show ?thesis by (simp add: Unsubscribe_def Let_def)
qed

lemma Finish_wf [keeps_wf]:
  assumes "hub_wf h"
  shows "hub_wf (Finish j ev h)"
proof (cases "hub_jobs h j")
  case None
  with assms show ?thesis by (simp add: Finish_def)
next
  case (Some st)
  then have get: "hub_get j h = st" by (simp add: hub_get_def)
  show ?thesis
  proof (cases "subs st = {}")
    case True
    have "(broadcast ev {} (h\<lparr>hub_jobs := (hub_jobs h)(j \<mapsto> st\<lparr>final := Some ev\<rparr>)\<rparr>))\<lparr>hub_jobs := (hub_jobs h)(j := None)\<rparr>
        = h\<lparr>hub_jobs := (hub_jobs h)(j := None)\<rparr>" by (simp add: broadcast_def)
    with True Some assms show ?thesis by (simp add: Finish_def Let_def hub_wf_delete)
  next
    case False
    then have "entry_ok h (st\<lparr>final := Some ev\<rparr>)" using hub_wfD(1) [OF assms Some] by (simp add: entry_ok_def)
    then have "hub_wf (broadcast ev (subs st) (h\<lparr>hub_jobs := (hub_jobs h)(j \<mapsto> st\<lparr>final := Some ev\<rparr>)\<rparr>))"
      by (intro hub_wf_broadcast hub_wf_entry assms) (simp_all add: get)
    with False Some assms show ?thesis by (simp add: Finish_def Let_def)
  qed
qed

lemma recv_wf [keeps_wf]:
  assumes wf: "hub_wf h"
  shows "hub_wf (fst (recv s h))"
proof (cases "\<exists>m ev evs. mailboxes h s = Some m \<and> ch m = ev # evs")
  case False
  then have "fst (recv s h) = h" by (auto simp: recv_def split: option.splits list.splits)
  with wf show ?thesis by simp
next
  case True
  then obtain m ev evs where m: "mailboxes h s = Some m" "ch m = ev # evs" by blast
  then have eq: "fst (recv s h) = h\<lparr>mailboxes := (mailboxes h)(s \<mapsto> m\<lparr>ch := evs\<rparr>)\<rparr>" by (simp add: recv_def)
  show ?thesis unfolding eq
  proof (rule hub_wfI)
    fix k st assume "hub_jobs (h\<lparr>mailboxes := (mailboxes h)(s \<mapsto> m\<lparr>ch := evs\<rparr>)\<rparr>) k = Some st"
    then have "entry_ok h st" using hub_wfD(1) [OF wf] by simp
    then show "entry_ok (h\<lparr>mailboxes := (mailboxes h)(s \<mapsto> m\<lparr>ch := evs\<rparr>)\<rparr>) st" by (rule entry_ok_mono) simp_all
  qed (use hub_wfD(2,3) [OF wf] m in \<open>force split: if_splits\<close>)+
qed

text \<open>
  The program only ever finishes a job with a result event. A hub of which that holds:
\<close>

definition hub_ok :: "LogHub \<Rightarrow> bool" where
  "hub_ok h \<longleftrightarrow> hub_wf h \<and> (\<forall>j st ev. hub_jobs h j = Some st \<longrightarrow> final st = Some ev \<longrightarrow> GetResult (Event ev) \<noteq> None)"

lemma hub_okI:
  "hub_wf h \<Longrightarrow> (\<And>j st ev. hub_jobs h j = Some st \<Longrightarrow> final st = Some ev \<Longrightarrow> GetResult (Event ev) \<noteq> None) \<Longrightarrow> hub_ok h"
  unfolding hub_ok_def by blast

lemma hub_okD:
  assumes "hub_ok h"
  shows "hub_wf h" "hub_jobs h j = Some st \<Longrightarrow> final st = Some ev \<Longrightarrow> GetResult (Event ev) \<noteq> None"
  using assms unfolding hub_ok_def by blast+

lemma hub_ok_new: "hub_ok NewLogHub"
  by (rule hub_okI [OF hub_wf_new]) (simp add: NewLogHub_def)

lemma hub_ok_get: "hub_ok h \<Longrightarrow> final (hub_get j h) = Some ev \<Longrightarrow> GetResult (Event ev) \<noteq> None"
  using hub_okD(2) [of h j] by (auto simp: hub_get_def new_state_def split: option.splits)

text \<open>An operation that adds no terminal event but a result keeps this.\<close>

lemma hub_ok_step:
  assumes "hub_ok h" "hub_wf h'"
    and "\<And>j ev. final (hub_get j h') = Some ev \<Longrightarrow> final (hub_get j h) = Some ev \<or> GetResult (Event ev) \<noteq> None"
  shows "hub_ok h'"
proof (rule hub_okI [OF assms(2)])
  fix j st ev assume "hub_jobs h' j = Some st" "final st = Some ev"
  then have "final (hub_get j h') = Some ev" by (simp add: hub_get_def)
  from assms(3) [OF this] hub_ok_get [OF assms(1)] show "GetResult (Event ev) \<noteq> None" by blast
qed

lemma append_line_get: "final (hub_get k (append_line j l h)) = final (hub_get k h)"
  by (cases "k = j") (simp_all add: append_line_def hub_get_def Let_def)

lemma Append_final: "final (hub_get k (Append j ls h)) = final (hub_get k h)"
proof -
  have fold: "final (hub_get k (fold (append_line j) xs h')) = final (hub_get k h')" for xs h'
    by (induction xs arbitrary: h') (simp_all add: append_line_get)
  have "final (hub_get k (h\<lparr>hub_jobs := (hub_jobs h)(j \<mapsto> hub_get j h)\<rparr>)) = final (hub_get k h)"
    by (cases "k = j") (simp_all add: hub_get_def)
  with fold show ?thesis by (simp add: Append_def Let_def)
qed

lemma Append_ok [keeps_wf]: "hub_ok h \<Longrightarrow> hub_ok (Append j ls h)"
  by (rule hub_ok_step [of h]) (simp_all add: Append_wf hub_okD(1) Append_final)

lemma Subscribe_ok [keeps_wf]: "hub_ok h \<Longrightarrow> hub_ok (fst (Subscribe j h))"
  by (rule hub_ok_step [of h], simp, simp add: Subscribe_wf hub_okD(1))
    (auto simp: Subscribe_eq Let_def hub_get_def split: if_splits)

lemma Unsubscribe_ok [keeps_wf]: "hub_ok h \<Longrightarrow> hub_ok (Unsubscribe j s h)"
  by (rule hub_ok_step [of h])
    (auto simp: Unsubscribe_wf hub_okD(1), auto simp: Unsubscribe_def Let_def hub_get_def new_state_def split: option.splits if_splits)

lemma Finish_ok [keeps_wf]: "hub_ok h \<Longrightarrow> GetResult (Event ev) \<noteq> None \<Longrightarrow> hub_ok (Finish j ev h)"
  by (rule hub_ok_step [of h])
    (auto simp: Finish_wf hub_okD(1), auto simp: Finish_def Let_def hub_get_def new_state_def split: option.splits if_splits)

lemma recv_jobs [simp]: "hub_jobs (fst (recv s h)) = hub_jobs h"
  by (simp add: recv_def split: option.splits list.splits)

lemma recv_ok [keeps_wf]: "hub_ok h \<Longrightarrow> hub_ok (fst (recv s h))"
  by (rule hub_ok_step [of h]) (simp_all add: recv_wf hub_okD(1) hub_get_def)

section \<open>Histories\<close>

datatype hub_op =
    HAppend string "LogLine list"
  | HSubscribe string
  | HUnsubscribe string nat
  | HFinish string JobEvent
  | HRecv nat

fun hub_step :: "hub_op \<Rightarrow> LogHub \<Rightarrow> LogHub" where
  "hub_step (HAppend j ls) h = Append j ls h"
| "hub_step (HSubscribe j) h = fst (Subscribe j h)"
| "hub_step (HUnsubscribe j s) h = Unsubscribe j s h"
| "hub_step (HFinish j ev) h = Finish j ev h"
| "hub_step (HRecv s) h = fst (recv s h)"

lemma hub_step_wf: "hub_wf h \<Longrightarrow> hub_wf (hub_step op h)"
  by (cases op) (simp_all add: keeps_wf)

lemma hub_run_wf: "hub_wf h \<Longrightarrow> hub_wf (fold hub_step ops h)"
  by (induction ops arbitrary: h) (simp_all add: hub_step_wf)

text \<open>What a step publishes for job \<open>j\<close>, and what a watcher takes out of its mailbox.\<close>

definition log_event :: "string \<Rightarrow> LogLine \<Rightarrow> JobEvent" where
  "log_event j l = \<lparr>ev_JobId = j, Event = EvLog (truncate_line l)\<rparr>"

fun publishes :: "string \<Rightarrow> hub_op \<Rightarrow> LogHub \<Rightarrow> JobEvent list" where
  "publishes j (HAppend k ls) h = (if k = j \<and> final (hub_get j h) = None then map (log_event j) ls else [])"
| "publishes j (HFinish k ev) h = (if k = j \<and> final (hub_get j h) = None then [ev] else [])"
| "publishes j _ h = []"

fun takes :: "nat \<Rightarrow> hub_op \<Rightarrow> LogHub \<Rightarrow> JobEvent list" where
  "takes s (HRecv s') h = (if s' = s then (case snd (recv s h) of None \<Rightarrow> [] | Some ev \<Rightarrow> [ev]) else [])"
| "takes s _ h = []"

fun published :: "string \<Rightarrow> hub_op list \<Rightarrow> LogHub \<Rightarrow> JobEvent list" where
  "published j [] h = []"
| "published j (op # ops) h = publishes j op h @ published j ops (hub_step op h)"

fun taken :: "nat \<Rightarrow> hub_op list \<Rightarrow> LogHub \<Rightarrow> JobEvent list" where
  "taken s [] h = []"
| "taken s (op # ops) h = takes s op h @ taken s ops (hub_step op h)"

definition watching :: "string \<Rightarrow> nat \<Rightarrow> LogHub \<Rightarrow> bool" where
  "watching j s h \<longleftrightarrow> s \<in> subs (hub_get j h)"

text \<open>
  Accounting of one mailbox: what was taken plus what is queued is what was queued plus a
  part of what was published, and every published event that is missing was counted.
\<close>

definition accounts :: "nat \<Rightarrow> LogHub \<Rightarrow> LogHub \<Rightarrow> JobEvent list \<Rightarrow> JobEvent list \<Rightarrow> bool" where
  "accounts s h h' got pub \<longleftrightarrow> (\<forall>m. mailboxes h s = Some m \<longrightarrow> (\<exists>m' kept. mailboxes h' s = Some m' \<and>
     got @ ch m' = ch m @ kept \<and> subseq kept pub \<and> sub_dropped m' + length kept = sub_dropped m + length pub))"

lemma accounts_refl: "accounts s h h [] []"
  by (auto simp: accounts_def)

lemma accounts_same: "mailboxes h' s = mailboxes h s \<Longrightarrow> accounts s h h' [] []"
  by (auto simp: accounts_def)

lemma accounts_trans:
  assumes "accounts s h h1 g1 p1" "accounts s h1 h2 g2 p2"
  shows "accounts s h h2 (g1 @ g2) (p1 @ p2)"
  unfolding accounts_def
proof clarify
  fix m assume "mailboxes h s = Some m"
  with assms(1) obtain m1 k1 where 1: "mailboxes h1 s = Some m1" "g1 @ ch m1 = ch m @ k1" "subseq k1 p1"
    "sub_dropped m1 + length k1 = sub_dropped m + length p1" unfolding accounts_def by blast
  with assms(2) obtain m2 k2 where 2: "mailboxes h2 s = Some m2" "g2 @ ch m2 = ch m1 @ k2" "subseq k2 p2"
    "sub_dropped m2 + length k2 = sub_dropped m1 + length p2" unfolding accounts_def by blast
  have "(g1 @ g2) @ ch m2 = g1 @ ch m1 @ k2" using 2(2) by simp
  also have "\<dots> = ch m @ k1 @ k2" using 1(2) by (metis append.assoc)
  finally have "(g1 @ g2) @ ch m2 = ch m @ k1 @ k2" .
  moreover have "subseq (k1 @ k2) (p1 @ p2)" using 1(3) 2(3) by (rule list_emb_append_mono)
  ultimately show "\<exists>m' kept. mailboxes h2 s = Some m' \<and> (g1 @ g2) @ ch m' = ch m @ kept \<and>
      subseq kept (p1 @ p2) \<and> sub_dropped m' + length kept = sub_dropped m + length (p1 @ p2)"
    using 1 2 by (intro exI [of _ m2] exI [of _ "k1 @ k2"]) auto
qed

lemma accounts_broadcast:
  "accounts s h (broadcast ev ss h) [] (if s \<in> ss then [ev] else [])"
  unfolding accounts_def
proof clarify
  fix m assume m: "mailboxes h s = Some m"
  show "\<exists>m' kept. mailboxes (broadcast ev ss h) s = Some m' \<and> [] @ ch m' = ch m @ kept \<and>
      subseq kept (if s \<in> ss then [ev] else []) \<and>
      sub_dropped m' + length kept = sub_dropped m + length (if s \<in> ss then [ev] else [])"
  proof (cases "s \<in> ss")
    case False
    with m show ?thesis by simp
  next
    case True
    show ?thesis
    proof (cases "length (ch m) < subChannelBuffer")
      case room: True
      with True m show ?thesis by (intro exI [of _ "send ev m"] exI [of _ "[ev]"]) (simp add: send_def)
    next
      case False
      with True m show ?thesis by (intro exI [of _ "send ev m"] exI [of _ "[]"]) (simp add: send_def)
    qed
  qed
qed

lemma get_append_line: "k \<noteq> j \<Longrightarrow> hub_get j (append_line k l h) = hub_get j h"
  by (simp add: append_line_def hub_get_def Let_def)

lemma accounts_append_line:
  "accounts s h (append_line k l h) [] (if s \<in> subs (hub_get k h) then [log_event k l] else [])"
proof -
  let ?st = "if length (lines (hub_get k h)) \<ge> maxLines h
    then (hub_get k h)\<lparr>lines_dropped := lines_dropped (hub_get k h) + 1\<rparr>
    else (hub_get k h)\<lparr>lines := lines (hub_get k h) @ [truncate_line l]\<rparr>"
  let ?h = "h\<lparr>hub_jobs := (hub_jobs h)(k \<mapsto> ?st)\<rparr>"
  have eq: "append_line k l h = broadcast (log_event k l) (subs (hub_get k h)) ?h"
    by (simp add: append_line_def Let_def log_event_def)
  have "accounts s h ?h [] []" by (rule accounts_same) simp
  from accounts_trans [OF this accounts_broadcast [of s ?h "log_event k l" "subs (hub_get k h)"]] show ?thesis
    unfolding eq by simp
qed

lemma accounts_append_lines:
  "accounts s h (fold (append_line k) ls h) [] (if s \<in> subs (hub_get k h) then map (log_event k) ls else []) \<and>
   (s \<in> subs (hub_get j h) \<longrightarrow> s \<in> subs (hub_get j (fold (append_line k) ls h)))"
proof (induction ls arbitrary: h)
  case Nil
  then show ?case by (simp add: accounts_refl)
next
  case (Cons l ls)
  have same: "subs (hub_get j (append_line k l h)) = subs (hub_get j h)" by (cases "k = j") (simp_all add: get_append_line)
  from accounts_trans [OF accounts_append_line [of s h k l] conjunct1 [OF Cons.IH [of "append_line k l h"]]]
    Cons.IH [of "append_line k l h"] same show ?case by (auto split: if_splits)
qed

lemma watching_only:
  assumes "hub_wf h" "watching j s h" "s \<in> subs (hub_get k h)"
  shows "k = j"
proof -
  from assms(2,3) obtain a b where "hub_jobs h j = Some a" "s \<in> subs a" "hub_jobs h k = Some b" "s \<in> subs b"
    unfolding watching_def get_subs by blast
  then show ?thesis using hub_wfD(2) [OF assms(1)] by blast
qed

lemma accounts_Append:
  assumes "hub_wf h" "watching j s h"
  shows "accounts s h (Append k ls h) [] (publishes j (HAppend k ls) h) \<and> watching j s (Append k ls h)"
proof -
  let ?h = "h\<lparr>hub_jobs := (hub_jobs h)(k \<mapsto> hub_get k h)\<rparr>"
  have get: "hub_get i ?h = hub_get i h" for i by (simp add: hub_get_def)
  have stay: "accounts s h ?h [] []" by (rule accounts_same) simp
  consider (nothing) "ls = []" | (closed) "ls \<noteq> []" "final (hub_get k h) \<noteq> None"
    | (opened) "ls \<noteq> []" "final (hub_get k h) = None" by blast
  then show ?thesis
  proof cases
    case nothing
    with assms show ?thesis by (simp add: Append_def accounts_refl)
  next
    case closed
    then have "Append k ls h = ?h" by (simp add: Append_def Let_def)
    with closed stay get assms(2) show ?thesis by (auto simp: watching_def)
  next
    case opened
    then have eq: "Append k ls h = fold (append_line k) ls ?h" by (simp add: Append_def Let_def)
    have sub: "s \<in> subs (hub_get k h) \<longleftrightarrow> k = j"
      using watching_only [OF assms] assms(2) unfolding watching_def by blast
    have "publishes j (HAppend k ls) h = (if s \<in> subs (hub_get k ?h) then map (log_event k) ls else [])"
      using opened unfolding get sub by (cases "k = j") simp_all
    with accounts_trans [OF stay conjunct1 [OF accounts_append_lines [of s ?h k ls j]]]
    have "accounts s h (Append k ls h) [] (publishes j (HAppend k ls) h)" unfolding eq by simp
    moreover have "watching j s (Append k ls h)"
      using conjunct2 [OF accounts_append_lines [of s ?h k ls j]] assms(2) unfolding eq watching_def get by blast
    ultimately show ?thesis by blast
  qed
qed

lemma accounts_Finish:
  assumes "hub_wf h" "watching j s h"
  shows "accounts s h (Finish k ev h) [] (publishes j (HFinish k ev) h) \<and> watching j s (Finish k ev h)"
proof (cases "hub_jobs h k")
  case None
  with assms(2) have "k \<noteq> j" by (auto simp: watching_def get_subs)
  with None assms show ?thesis by (simp add: Finish_def accounts_refl)
next
  case (Some st)
  then have get: "hub_get k h = st" by (simp add: hub_get_def)
  have sub: "s \<in> subs st \<longleftrightarrow> k = j"
    using watching_only [OF assms, of k] assms(2) get unfolding watching_def by blast
  show ?thesis
  proof (cases "final st")
    case (Some r)
    with \<open>hub_jobs h k = Some st\<close> get assms show ?thesis by (auto simp: Finish_def accounts_refl)
  next
    case None
    let ?h = "h\<lparr>hub_jobs := (hub_jobs h)(k \<mapsto> st\<lparr>final := Some ev\<rparr>)\<rparr>"
    have "accounts s h ?h [] []" by (rule accounts_same) simp
    from accounts_trans [OF this accounts_broadcast [of s ?h ev "subs st"]]
    have acc: "accounts s h (broadcast ev (subs st) ?h) [] (if s \<in> subs st then [ev] else [])" by simp
    show ?thesis
    proof (cases "k = j")
      case True
      with sub have "subs st \<noteq> {}" by auto
      with True acc sub None Some get show ?thesis by (simp add: Finish_def Let_def watching_def hub_get_def)
    next
      case False
      let ?b = "broadcast ev (subs st) ?h"
      have "accounts s h (?b\<lparr>hub_jobs := (hub_jobs ?b)(k := None)\<rparr>) [] []"
        using accounts_trans [OF acc accounts_same [of "?b\<lparr>hub_jobs := (hub_jobs ?b)(k := None)\<rparr>" s ?b]] False sub by simp
      with False acc sub None Some assms(2) show ?thesis
        by (cases "subs st = {}") (simp_all add: Finish_def Let_def watching_def hub_get_def)
    qed
  qed
qed

lemma accounts_step:
  assumes "hub_wf h" "watching j s h" "op \<noteq> HUnsubscribe j s"
  shows "accounts s h (hub_step op h) (takes s op h) (publishes j op h) \<and> watching j s (hub_step op h)"
proof (cases op)
  case (HAppend k ls)
  with accounts_Append [OF assms(1,2)] show ?thesis by simp
next
  case (HSubscribe k)
  have "s < next_sub h"
    using hub_wf_get [OF assms(1), of j] assms(2) by (auto simp: watching_def entry_ok_def)
  then have "mailboxes (fst (Subscribe k h)) s = mailboxes h s" by (simp add: Subscribe_eq Let_def)
  moreover have "watching j s (fst (Subscribe k h))"
    using assms(2) by (cases "k = j") (simp_all add: watching_def Subscribe_eq Let_def hub_get_def)
  ultimately show ?thesis using HSubscribe accounts_same by simp
next
  case (HUnsubscribe k s')
  have "mailboxes (Unsubscribe k s' h) s = mailboxes h s" by (simp add: Unsubscribe_def Let_def split: option.splits)
  moreover have "watching j s (Unsubscribe k s' h)"
  proof (cases "k = j")
    case True
    with HUnsubscribe assms(2,3) show ?thesis
      by (auto simp: watching_def get_subs Unsubscribe_def Let_def)
  next
    case False
    with assms(2) show ?thesis
      by (auto simp: watching_def get_subs Unsubscribe_def Let_def split: option.splits)
  qed
  ultimately show ?thesis using HUnsubscribe accounts_same by simp
next
  case (HFinish k ev)
  with accounts_Finish [OF assms(1,2)] show ?thesis by simp
next
  case (HRecv s')
  have "hub_jobs (fst (recv s' h)) = hub_jobs h" by (simp add: recv_def split: option.splits list.splits)
  then have "watching j s (fst (recv s' h))" using assms(2) by (simp add: watching_def hub_get_def)
  moreover have "accounts s h (fst (recv s' h)) (takes s op h) []"
  proof (cases "s' = s")
    case False
    then have "mailboxes (fst (recv s' h)) s = mailboxes h s" by (simp add: recv_def split: option.splits list.splits)
    with False HRecv accounts_same show ?thesis by simp
  next
    case True
    with HRecv show ?thesis by (auto simp: accounts_def recv_def split: list.splits)
  qed
  ultimately show ?thesis using HRecv by simp
qed

lemma accounts_run:
  assumes "hub_wf h" "watching j s h" "HUnsubscribe j s \<notin> set ops"
  shows "accounts s h (fold hub_step ops h) (taken s ops h) (published j ops h) \<and> watching j s (fold hub_step ops h)"
  using assms
proof (induction ops arbitrary: h)
  case Nil
  then show ?case by (simp add: accounts_refl)
next
  case (Cons op ops)
  from Cons.prems(3) have "op \<noteq> HUnsubscribe j s" by auto
  note st = accounts_step [OF Cons.prems(1,2) this]
  from Cons.prems(3) Cons.IH [OF hub_step_wf [OF Cons.prems(1)] conjunct2 [OF st]] accounts_trans [OF conjunct1 [OF st]]
  show ?case by simp
qed

text \<open>Published events are log lines, then at most one terminal event, then nothing.\<close>

lemma final_stays:
  assumes "watching j s h" "hub_wf h" "op \<noteq> HUnsubscribe j s" "final (hub_get j h) \<noteq> None"
  shows "final (hub_get j (hub_step op h)) \<noteq> None"
proof (cases op)
  case (HAppend k ls)
  have "final (hub_get j (fold (append_line k) ls h)) = final (hub_get j h)" for ls h
  proof (induction ls arbitrary: h)
    case (Cons l ls)
    then show ?case by (cases "k = j") (simp_all add: get_append_line)
  qed simp
  moreover have "hub_get j (h\<lparr>hub_jobs := (hub_jobs h)(k \<mapsto> hub_get k h)\<rparr>) = hub_get j h" by (simp add: hub_get_def)
  ultimately show ?thesis using HAppend assms(4) by (simp add: Append_def Let_def)
next
  case (HSubscribe k)
  with assms(4) show ?thesis by (cases "k = j") (simp_all add: Subscribe_eq Let_def hub_get_def)
next
  case (HUnsubscribe k s')
  show ?thesis
  proof (cases "k = j")
    case True
    from assms(1) obtain st where st: "hub_jobs h j = Some st" "s \<in> subs st" unfolding watching_def get_subs by blast
    moreover from True HUnsubscribe assms(3) have "s' \<noteq> s" by simp
    ultimately show ?thesis using True HUnsubscribe assms(4) by (auto simp: Unsubscribe_def Let_def hub_get_def)
  next
    case False
    with HUnsubscribe assms(4) show ?thesis by (simp add: Unsubscribe_def Let_def hub_get_def split: option.splits)
  qed
next
  case (HFinish k ev)
  with assms(4) show ?thesis
    by (cases "k = j") (auto simp: Finish_def Let_def hub_get_def new_state_def split: option.splits)
next
  case (HRecv s')
  have "hub_jobs (fst (recv s' h)) = hub_jobs h" by (simp add: recv_def split: option.splits list.splits)
  with HRecv assms(4) show ?thesis by (simp add: hub_get_def)
qed

lemma published_after_final:
  assumes "watching j s h" "hub_wf h" "HUnsubscribe j s \<notin> set ops" "final (hub_get j h) \<noteq> None"
  shows "published j ops h = []"
  using assms
proof (induction ops arbitrary: h)
  case (Cons op ops)
  from Cons.prems(3) have op: "op \<noteq> HUnsubscribe j s" "HUnsubscribe j s \<notin> set ops" by auto
  have "publishes j op h = []" using Cons.prems(4) by (cases op) auto
  moreover have "published j ops (hub_step op h) = []"
    using accounts_step [OF Cons.prems(2,1) op(1)] hub_step_wf [OF Cons.prems(2)] final_stays [OF Cons.prems(1,2) op(1) Cons.prems(4)]
    by (intro Cons.IH op(2)) simp_all
  ultimately show ?case by simp
qed simp

lemma published_shape:
  assumes "watching j s h" "hub_wf h" "HUnsubscribe j s \<notin> set ops"
  shows "\<exists>ls tail. published j ops h = map (log_event j) ls @ tail \<and>
    (tail = [] \<or> (\<exists>ev. tail = [ev] \<and> HFinish j ev \<in> set ops))"
  using assms
proof (induction ops arbitrary: h)
  case Nil
  then show ?case by simp
next
  case (Cons op ops)
  from Cons.prems(3) have op: "op \<noteq> HUnsubscribe j s" "HUnsubscribe j s \<notin> set ops" by auto
  have next_h: "watching j s (hub_step op h)" "hub_wf (hub_step op h)"
    using accounts_step [OF Cons.prems(2,1) op(1)] hub_step_wf [OF Cons.prems(2)] by simp_all
  show ?case
  proof (cases "\<exists>ev. op = HFinish j ev \<and> final (hub_get j h) = None")
    case True
    then obtain ev where ev: "op = HFinish j ev" "final (hub_get j h) = None" by blast
    from Cons.prems(1) obtain st where "hub_jobs h j = Some st" "s \<in> subs st" unfolding watching_def get_subs by blast
    with ev have "final (hub_get j (hub_step op h)) \<noteq> None" by (auto simp: Finish_def Let_def hub_get_def)
    from published_after_final [OF next_h op(2) this] ev show ?thesis
      by (intro exI [of _ "[]"] exI [of _ "[ev]"]) simp
  next
    case False
    then obtain ls0 where "publishes j op h = map (log_event j) ls0" by (cases op) (force split: if_splits)+
    with Cons.IH [OF next_h op(2)] show ?thesis by (metis append.assoc list.set_intros(2) map_append published.simps(2))
  qed
qed

lemma maxLines_step: "maxLines (hub_step op h) = maxLines h"
proof (cases op)
  case (HAppend k ls)
  have "maxLines (fold (append_line k) ls h) = maxLines h" for h by (induction ls arbitrary: h) simp_all
  with HAppend show ?thesis by (simp add: Append_def Let_def)
next
  case (HSubscribe k)
  then show ?thesis by (simp add: Subscribe_eq Let_def)
next
  case (HUnsubscribe k s)
  then show ?thesis by (simp add: Unsubscribe_def Let_def split: option.splits)
next
  case (HFinish k ev)
  then show ?thesis by (simp add: Finish_def Let_def split: option.splits)
next
  case (HRecv s)
  then show ?thesis by (simp add: recv_def split: option.splits list.splits)
qed

lemma maxLines_run: "maxLines (fold hub_step ops h) = maxLines h"
  by (induction ops arbitrary: h) (simp_all add: maxLines_step)

lemma Subscribe_result:
  assumes "Subscribe j h = (h', s, replay, t)"
  shows "h' = fst (Subscribe j h)" "watching j s h'" "mailboxes h' s = Some \<lparr>ch = [], sub_dropped = 0\<rparr>"
    "replay = map (\<lambda>l. \<lparr>ev_JobId = j, Event = EvLog l\<rparr>) (lines (hub_get j h))" "t = final (hub_get j h)"
  using assms by (auto simp: Subscribe_def Let_def watching_def hub_get_def)

text \<open>A watcher that comes and goes on a job without an entry leaves one behind.\<close>

lemma visit_leaves_entry:
  assumes "hub_jobs h j = None" "Subscribe j h = (h', s, replay, t)"
  shows "hub_jobs (Unsubscribe j s h') j = Some new_state"
  using assms by (auto simp: Subscribe_def Unsubscribe_def Let_def hub_get_def new_state_def)

section \<open>Properties\<close>

text \<open>
  The hub's memory is bounded and finished jobs are forgotten. After any sequence of
  operations every replay buffer holds at most 10000 lines, every mailbox at most 1024
  events, and a job whose terminal event was recorded keeps an entry only while somebody
  watches it.
\<close>
theorem hub_bounded:
  assumes "h = fold hub_step ops NewLogHub"
  shows "(\<forall>j st. hub_jobs h j = Some st \<longrightarrow> length (lines st) \<le> 10000 \<and> (final st \<noteq> None \<longrightarrow> subs st \<noteq> {})) \<and>
    (\<forall>s m. mailboxes h s = Some m \<longrightarrow> length (ch m) \<le> 1024)"
proof -
  have wf: "hub_wf h" unfolding assms by (rule hub_run_wf) (rule hub_wf_new)
  have "maxLines h = 10000"
    unfolding assms maxLines_run by (simp add: NewLogHub_def defaultMaxBufferedLines_def)
  then show ?thesis
    using hub_wfD(1) [OF wf] hub_wfD(3) [OF wf] unfolding entry_ok_def subChannelBuffer_def by metis
qed

theorem hub_bounded_witness:
  "\<exists>m. mailboxes (fold hub_step [HSubscribe ''j'', HFinish ''k'' \<lparr>ev_JobId = ''k'', Event = EvStatus JOB_STATUS_DONE\<rparr>] NewLogHub) 0 = Some m
     \<and> length (ch m) \<le> 1024"
proof -
  let ?h = "fold hub_step [HSubscribe ''j'', HFinish ''k'' \<lparr>ev_JobId = ''k'', Event = EvStatus JOB_STATUS_DONE\<rparr>] NewLogHub"
  have "mailboxes ?h 0 \<noteq> None"
    by (simp add: Subscribe_def Finish_def Let_def hub_get_def new_state_def NewLogHub_def)
  with hub_bounded [OF refl, of _] show ?thesis by blast
qed

text \<open>
  C25: a watcher gets everything or a count of what it missed. From its subscription on,
  while it does not unsubscribe, what the watcher has taken plus what waits in its mailbox
  is a subsequence of the published events, shorter by exactly the dropped count; so a
  watcher that never fell behind gets every event in order. What is published is log lines
  followed by at most one terminal event, and the replay is the buffer at subscription.
\<close>
theorem watcher_sees_all:
  assumes "hub_wf h" "Subscribe j h = (h1, s, replay, None)" "HUnsubscribe j s \<notin> set ops"
  shows "\<exists>m. mailboxes (fold hub_step ops h1) s = Some m \<and>
    subseq (taken s ops h1 @ ch m) (published j ops h1) \<and>
    length (taken s ops h1 @ ch m) + sub_dropped m = length (published j ops h1) \<and>
    (sub_dropped m = 0 \<longrightarrow> taken s ops h1 @ ch m = published j ops h1) \<and>
    (\<exists>ls tail. published j ops h1 = map (log_event j) ls @ tail \<and>
       (tail = [] \<or> (\<exists>ev. tail = [ev] \<and> HFinish j ev \<in> set ops))) \<and>
    replay = map (\<lambda>l. \<lparr>ev_JobId = j, Event = EvLog l\<rparr>) (lines (hub_get j h))"
proof -
  note r = Subscribe_result [OF assms(2)]
  have wf: "hub_wf h1" unfolding r(1) by (rule Subscribe_wf [OF assms(1)])
  from accounts_run [OF wf r(2) assms(3)] r(3) obtain m kept where m: "mailboxes (fold hub_step ops h1) s = Some m"
    and kept: "taken s ops h1 @ ch m = kept" "subseq kept (published j ops h1)"
      "sub_dropped m + length kept = length (published j ops h1)"
    unfolding accounts_def by auto
  then have "sub_dropped m = 0 \<longrightarrow> kept = published j ops h1" by (auto intro: subseq_same_length)
  with m kept published_shape [OF r(2) wf assms(3)] r(4) show ?thesis
    by (intro exI [of _ m]) (simp add: add.commute)
qed

definition demo_ops :: "hub_op list" where
  "demo_ops = [HAppend ''j'' [\<lparr>Line = ''x'', IsStderr = False, TsUnixMs = 0\<rparr>], HRecv 0]"

theorem watcher_sees_all_witness:
  "\<exists>m. mailboxes (fold hub_step demo_ops (fst (Subscribe ''j'' NewLogHub))) 0 = Some m \<and>
     length (taken 0 demo_ops (fst (Subscribe ''j'' NewLogHub)) @ ch m) + sub_dropped m = 1"
proof -
  let ?h1 = "fst (Subscribe ''j'' NewLogHub)"
  have s: "Subscribe ''j'' NewLogHub = (?h1, 0, [], None)"
    by (simp add: Subscribe_def Let_def hub_get_def new_state_def NewLogHub_def)
  have no: "HUnsubscribe ''j'' 0 \<notin> set demo_ops" by (simp add: demo_ops_def)
  have "final (hub_get ''j'' ?h1) = None" by (simp add: Subscribe_eq Let_def hub_get_def new_state_def NewLogHub_def)
  then have "length (published ''j'' demo_ops ?h1) = 1" by (simp add: demo_ops_def)
  with watcher_sees_all [OF hub_wf_new s no] show ?thesis by (elim exE conjE) (rule exI, rule conjI, assumption, simp)
qed

end
