(* ===== verification/LRU.thy ===== *)
theory LRU
  imports Prelude
begin

text \<open>
  The bounded result cache of \<open>lru.go\<close>. \<open>container/list\<close> elements are handles: the
  order list carries each element's handle with its entry, and \<open>items\<close> maps a key to the
  handle of its element. The reference model is a recency list of key/value pairs, most
  recent first; every operation of the cache is the plain list operation on it.
\<close>

record resultEntry =
  resultBytes :: bytes
  errorMsg :: string
  coldStartMs :: int64
  executionMs :: int64

record lruEntry =
  key :: string
  val :: resultEntry

record lruResults =
  cap :: int
  items :: "string \<rightharpoonup> nat"
  order :: "(nat \<times> lruEntry) list"
  next_element :: nat

definition zeroEntry :: resultEntry where
  "zeroEntry = \<lparr>resultBytes = [], errorMsg = [], coldStartMs = 0, executionMs = 0\<rparr>"

definition newLRUResults :: "int \<Rightarrow> lruResults" where
  "newLRUResults capacity =
     \<lparr>cap = (if capacity < 1 then 1 else capacity), items = Map.empty, order = [], next_element = 0\<rparr>"

definition MoveToFront :: "nat \<Rightarrow> (nat \<times> lruEntry) list \<Rightarrow> (nat \<times> lruEntry) list" where
  "MoveToFront el xs = filter (\<lambda>x. fst x = el) xs @ filter (\<lambda>x. fst x \<noteq> el) xs"

definition set_value :: "nat \<Rightarrow> resultEntry \<Rightarrow> (nat \<times> lruEntry) list \<Rightarrow> (nat \<times> lruEntry) list" where
  "set_value el v xs = map (\<lambda>(h, e). (h, if h = el then e\<lparr>val := v\<rparr> else e)) xs"

definition lru_Put :: "string \<Rightarrow> resultEntry \<Rightarrow> lruResults \<Rightarrow> lruResults" where
  "lru_Put k v l =
     (case items l k of
        Some el \<Rightarrow> l\<lparr>order := MoveToFront el (set_value el v (order l))\<rparr>
      | None \<Rightarrow>
          (let el = next_element l;
               l1 = l\<lparr>order := (el, \<lparr>key = k, val = v\<rparr>) # order l,
                      items := (items l)(k \<mapsto> el), next_element := Suc el\<rparr>
           in if int (length (order l1)) > cap l1
              then (let oldest = last (order l1)
                    in l1\<lparr>order := butlast (order l1), items := (items l1)(key (snd oldest) := None)\<rparr>)
              else l1))"

definition lru_Get :: "string \<Rightarrow> lruResults \<Rightarrow> lruResults \<times> resultEntry \<times> bool" where
  "lru_Get k l =
     (case items l k of
        None \<Rightarrow> (l, zeroEntry, False)
      | Some el \<Rightarrow>
          (let l' = l\<lparr>order := MoveToFront el (order l)\<rparr>
           in (l', case map_of (order l') el of None \<Rightarrow> zeroEntry | Some e \<Rightarrow> val e, True)))"

definition lru_Len :: "lruResults \<Rightarrow> nat" where
  "lru_Len l = length (order l)"

section \<open>The reference model\<close>

definition recency :: "lruResults \<Rightarrow> (string \<times> resultEntry) list" where
  "recency l = map (\<lambda>(h, e). (key e, val e)) (order l)"

definition drop_key :: "string \<Rightarrow> (string \<times> resultEntry) list \<Rightarrow> (string \<times> resultEntry) list" where
  "drop_key k xs = filter (\<lambda>x. fst x \<noteq> k) xs"

text \<open>
  Well-formedness: handles and keys are distinct, \<open>items\<close> is the index of the order list,
  fresh handles are fresh, and the list is within the capacity.
\<close>

definition lru_wf :: "lruResults \<Rightarrow> bool" where
  "lru_wf l \<longleftrightarrow> 1 \<le> cap l \<and> int (length (order l)) \<le> cap l \<and> distinct (map fst (order l)) \<and>
     distinct (map (key \<circ> snd) (order l)) \<and> (\<forall>h \<in> set (map fst (order l)). h < next_element l) \<and>
     (\<forall>k h. items l k = Some h \<longleftrightarrow> (\<exists>e. (h, e) \<in> set (order l) \<and> key e = k))"

section \<open>Lemmas\<close>

lemma lru_wf_new: "lru_wf (newLRUResults c)"
  by (simp add: lru_wf_def newLRUResults_def)

lemma recency_keys: "fst ` set (recency l) = (\<lambda>x. key (snd x)) ` set (order l)"
  by (simp add: recency_def image_image case_prod_beta)

lemma lru_wf_items: "lru_wf l \<Longrightarrow> items l k = Some h \<longleftrightarrow> (\<exists>e. (h, e) \<in> set (order l) \<and> key e = k)"
  by (simp add: lru_wf_def)

lemma lru_wf_items_None:
  assumes "lru_wf l"
  shows "items l k = None \<longleftrightarrow> k \<notin> fst ` set (recency l)"
proof
  assume none: "items l k = None"
  show "k \<notin> fst ` set (recency l)"
  proof
    assume "k \<in> fst ` set (recency l)"
    then obtain h e where "(h, e) \<in> set (order l)" "key e = k" by (auto simp: recency_keys)
    then have "items l k = Some h" by (auto simp: lru_wf_items [OF assms])
    with none show False by simp
  qed
next
  assume "k \<notin> fst ` set (recency l)"
  then have "items l k \<noteq> Some h" for h
    using lru_wf_items [OF assms, of k h] by (force simp: recency_keys)
  then show "items l k = None" by (cases "items l k") auto
qed

lemma distinct_recency: "lru_wf l \<Longrightarrow> distinct (map fst (recency l))"
  by (simp add: lru_wf_def recency_def comp_def case_prod_beta)

lemma length_recency [simp]: "length (recency l) = length (order l)"
  by (simp add: recency_def)

lemma filter_handle:
  assumes "distinct (map fst xs)" "(h, e) \<in> set xs"
  shows "filter (\<lambda>x. fst x = h) xs = [(h, e)]"
  using assms
proof (induction xs)
  case (Cons x xs)
  show ?case
  proof (cases "fst x = h")
    case True
    with Cons.prems have "h \<notin> fst ` set xs" by auto
    with Cons.prems True have "x = (h, e)" "filter (\<lambda>x. fst x = h) xs = []"
      by (auto simp: filter_empty_conv image_iff)
    then show ?thesis by simp
  next
    case False
    with Cons show ?thesis by auto
  qed
qed simp

lemma map_of_handle: "distinct (map fst xs) \<Longrightarrow> (h, e) \<in> set xs \<Longrightarrow> map_of xs h = Some e"
  by (rule map_of_is_SomeI)

lemma MoveToFront_eq:
  "distinct (map fst xs) \<Longrightarrow> (h, e) \<in> set xs \<Longrightarrow> MoveToFront h xs = (h, e) # filter (\<lambda>x. fst x \<noteq> h) xs"
  by (simp add: MoveToFront_def filter_handle)

lemma handle_key_iff:
  assumes "distinct (map fst xs)" "distinct (map (key \<circ> snd) xs)" "(h, e) \<in> set xs" "x \<in> set xs"
  shows "fst x = h \<longleftrightarrow> key (snd x) = key e"
proof -
  have "inj_on fst (set xs)" "inj_on (key \<circ> snd) (set xs)" using assms(1,2) by (simp_all add: distinct_map)
  with assms(3,4) have "fst x = fst (h, e) \<longleftrightarrow> x = (h, e)" "(key \<circ> snd) x = (key \<circ> snd) (h, e) \<longleftrightarrow> x = (h, e)"
    by (simp_all only: inj_on_eq_iff)
  then show ?thesis by simp
qed

lemma lru_wf_element:
  assumes "lru_wf l" "items l k = Some h"
  obtains e where "(h, e) \<in> set (order l)" "key e = k" "distinct (map fst (order l))"
    "distinct (map (key \<circ> snd) (order l))"
  using assms by (auto simp: lru_wf_def)

lemma map_of_recency:
  assumes "lru_wf l" "(h, e) \<in> set (order l)"
  shows "map_of (recency l) (key e) = Some (val e)"
  using assms(2) by (intro map_of_is_SomeI [OF distinct_recency [OF assms(1)]]) (force simp: recency_def)

lemma recency_others:
  assumes "lru_wf l" "(h, e) \<in> set (order l)"
  shows "map (\<lambda>(h, e). (key e, val e)) (filter (\<lambda>x. fst x \<noteq> h) (order l)) = drop_key (key e) (recency l)"
proof -
  have "filter (\<lambda>x. fst x \<noteq> h) (order l) = filter (\<lambda>x. key (snd x) \<noteq> key e) (order l)"
    using assms by (intro filter_cong refl) (simp add: handle_key_iff [OF _ _ assms(2)] lru_wf_def)
  then show ?thesis by (simp add: recency_def drop_key_def filter_map comp_def case_prod_beta)
qed


lemma set_value_simps:
  "map fst (set_value h v xs) = map fst xs" "map (key \<circ> snd) (set_value h v xs) = map (key \<circ> snd) xs"
  "length (set_value h v xs) = length xs"
  by (auto simp: set_value_def case_prod_beta)

lemma set_value_mem: "(h, e) \<in> set xs \<Longrightarrow> (h, e\<lparr>val := v\<rparr>) \<in> set (set_value h v xs)"
  by (force simp: set_value_def)

lemma set_value_others: "filter (\<lambda>x. fst x \<noteq> h) (set_value h v xs) = filter (\<lambda>x. fst x \<noteq> h) xs"
  by (induction xs) (auto simp: set_value_def)

lemma lru_Put_present:
  assumes "lru_wf l" "items l k = Some h" "(h, e) \<in> set (order l)"
  shows "lru_Put k v l = l\<lparr>order := (h, e\<lparr>val := v\<rparr>) # filter (\<lambda>x. fst x \<noteq> h) (order l)\<rparr>"
proof -
  have "distinct (map fst (set_value h v (order l)))" using assms(1) by (simp add: set_value_simps lru_wf_def)
  from MoveToFront_eq [OF this set_value_mem [OF assms(3)]] show ?thesis
    using assms(2) by (simp add: lru_Put_def set_value_others)
qed

lemma lru_wf_front:
  assumes "lru_wf l" "(h, e) \<in> set (order l)" "key e' = key e"
  shows "lru_wf (l\<lparr>order := (h, e') # filter (\<lambda>x. fst x \<noteq> h) (order l)\<rparr>)"
proof -
  let ?f = "filter (\<lambda>x. fst x \<noteq> h) (order l)"
  note wf = assms(1) [unfolded lru_wf_def]
  have "length ?f < length (order l)"
    using assms(2) by (intro length_filter_less [of "(h, e)"]) auto
  moreover have "distinct (map (key \<circ> snd) ((h, e') # ?f))"
    using wf assms by (auto simp: distinct_map_filter comp_def dest: handle_key_iff [of "order l" h e, rotated 2])
  moreover have "(\<exists>e1. (h1, e1) \<in> set ((h, e') # ?f) \<and> key e1 = k) \<longleftrightarrow> (\<exists>e1. (h1, e1) \<in> set (order l) \<and> key e1 = k)" for h1 k
    using wf assms by (auto dest: eq_key_imp_eq_value)
  ultimately show ?thesis using wf assms(2)
    unfolding lru_wf_def by (auto simp: distinct_map_filter)
qed


lemma drop_key_absent: "k \<notin> fst ` set xs \<Longrightarrow> drop_key k xs = xs"
  by (auto simp: drop_key_def filter_id_conv)

lemma length_drop_key_present:
  "k \<in> fst ` set xs \<Longrightarrow> length (drop_key k xs) < length xs"
  unfolding drop_key_def by (auto intro!: length_filter_less)

lemma lru_Put_recency:
  assumes "lru_wf l"
  shows "recency (lru_Put k v l) = take (nat (cap l)) ((k, v) # drop_key k (recency l))"
proof (cases "items l k")
  case (Some h)
  with assms obtain e where e: "(h, e) \<in> set (order l)" "key e = k" by (rule lru_wf_element)
  from e have "k \<in> fst ` set (recency l)" by (force simp: recency_keys)
  then have "length (drop_key k (recency l)) < length (order l)" using length_drop_key_present by fastforce
  moreover have "int (length (order l)) \<le> cap l" using assms by (simp add: lru_wf_def)
  ultimately have "length ((k, v) # drop_key k (recency l)) \<le> nat (cap l)" by simp
  with e recency_others [OF assms e(1)] show ?thesis
    by (simp add: lru_Put_present [OF assms Some e(1)] recency_def)
next
  case None
  then have absent: "drop_key k (recency l) = recency l"
    using lru_wf_items_None [OF assms] by (intro drop_key_absent) simp
  have len: "int (length (order l)) \<le> cap l" "1 \<le> cap l" using assms by (simp_all add: lru_wf_def)
  let ?o = "(next_element l, \<lparr>key = k, val = v\<rparr>) # order l"
  have map: "map (\<lambda>(h, e). (key e, val e)) ?o = (k, v) # recency l" by (simp add: recency_def)
  show ?thesis
  proof (cases "int (length ?o) > cap l")
    case True
    then have "recency (lru_Put k v l) = map (\<lambda>(h, e). (key e, val e)) (butlast ?o)"
      using None by (simp add: lru_Put_def Let_def recency_def)
    also have "\<dots> = butlast ((k, v) # recency l)" by (simp only: map_butlast map)
    also have "\<dots> = take (length (recency l)) ((k, v) # recency l)" by (subst butlast_conv_take) simp
    also have "length (recency l) = nat (cap l)" using True len by simp
    finally show ?thesis by (simp only: absent)
  next
    case False
    then have "recency (lru_Put k v l) = (k, v) # recency l"
      using None by (simp add: lru_Put_def Let_def recency_def)
    with False absent show ?thesis by simp
  qed
qed

lemma lru_wf_push:
  assumes "lru_wf l" "items l k = None"
  shows "distinct (map fst ((next_element l, \<lparr>key = k, val = v\<rparr>) # order l))"
    and "distinct (map (key \<circ> snd) ((next_element l, \<lparr>key = k, val = v\<rparr>) # order l))"
proof -
  show "distinct (map fst ((next_element l, \<lparr>key = k, val = v\<rparr>) # order l))"
    using assms(1) by (auto simp: lru_wf_def)
  show "distinct (map (key \<circ> snd) ((next_element l, \<lparr>key = k, val = v\<rparr>) # order l))"
    using assms(1) lru_wf_items_None [OF assms(1)] assms(2) by (simp add: lru_wf_def recency_keys comp_def)
qed

lemma index_push:
  assumes "lru_wf l" "items l k = None"
  shows "((items l)(k \<mapsto> next_element l)) k' = Some h' \<longleftrightarrow>
    (\<exists>e. (h', e) \<in> set ((next_element l, \<lparr>key = k, val = v\<rparr>) # order l) \<and> key e = k')"
proof -
  have "\<not> (\<exists>e. (h', e) \<in> set (order l) \<and> key e = k)"
    using assms lru_wf_items [OF assms(1), of k h'] by simp
  then show ?thesis using lru_wf_items [OF assms(1), of k' h'] by auto
qed

lemma lru_Put_wf [keeps_wf]:
  assumes "lru_wf l"
  shows "lru_wf (lru_Put k v l)"
proof (cases "items l k")
  case (Some h)
  with assms obtain e where e: "(h, e) \<in> set (order l)" "key e = k" by (rule lru_wf_element)
  from lru_wf_front [OF assms e(1), of "e\<lparr>val := v\<rparr>"] show ?thesis
    by (simp add: lru_Put_present [OF assms Some e(1)])
next
  case None
  let ?o = "(next_element l, \<lparr>key = k, val = v\<rparr>) # order l"
  let ?i = "(items l)(k \<mapsto> next_element l)"
  note d = lru_wf_push [OF assms None, of v] and ix = index_push [OF assms None, of _ _ v]
  have base: "1 \<le> cap l" "int (length (order l)) \<le> cap l" "\<forall>h \<in> set (map fst ?o). h < Suc (next_element l)"
    using assms by (auto simp: lru_wf_def)
  show ?thesis
  proof (cases "int (length ?o) > cap l")
    case False
    with None d ix base show ?thesis
      unfolding lru_wf_def by (simp add: lru_Put_def Let_def)
  next
    case True
    obtain ys hz z where o: "?o = ys @ [(hz, z)]" by (metis list.distinct(1) rev_exhaust surj_pair)
    then have split: "butlast ?o = ys" "last ?o = (hz, z)" by (metis butlast_snoc, metis last_snoc)
    have put: "lru_Put k v l = l\<lparr>order := ys, items := ?i(key z := None), next_element := Suc (next_element l)\<rparr>"
      using True None split by (simp add: lru_Put_def Let_def)
    from d have d': "distinct (map fst ys)" "distinct (map (key \<circ> snd) ys)" "hz \<notin> fst ` set ys"
      "key z \<notin> (key \<circ> snd) ` set ys" unfolding o by auto
    have "(?i(key z := None)) k' = Some h' \<longleftrightarrow> (\<exists>e. (h', e) \<in> set ys \<and> key e = k')" for k' h'
      using ix [of k' h'] d'(4) unfolding o by (cases "k' = key z") force+
    moreover have "length ys = length (order l)" using arg_cong [OF o, of length] by simp
    moreover have "\<forall>h \<in> set (map fst ys). h < Suc (next_element l)" using base(3) unfolding o by simp
    ultimately show ?thesis using base d' unfolding lru_wf_def put by simp
  qed
qed

lemma lru_Get_hit:
  assumes "lru_wf l" "map_of (recency l) k = Some v"
  shows "\<exists>l'. lru_Get k l = (l', v, True) \<and> lru_wf l' \<and> recency l' = (k, v) # drop_key k (recency l)"
proof -
  from assms(2) have "k \<in> fst ` set (recency l)" by (force dest: map_of_SomeD)
  then have "items l k \<noteq> None" using lru_wf_items_None [OF assms(1), of k] by simp
  then obtain h where h: "items l k = Some h" by blast
  with assms(1) obtain e where e: "(h, e) \<in> set (order l)" "key e = k" "distinct (map fst (order l))"
    by (rule lru_wf_element)
  let ?l = "l\<lparr>order := (h, e) # filter (\<lambda>x. fst x \<noteq> h) (order l)\<rparr>"
  have "val e = v" using map_of_recency [OF assms(1) e(1)] e assms(2) by simp
  moreover have "lru_Get k l = (?l, val e, True)"
    using h MoveToFront_eq [OF e(3,1)] by (simp add: lru_Get_def)
  moreover have "recency ?l = (k, val e) # drop_key k (recency l)"
    using recency_others [OF assms(1) e(1)] e by (simp add: recency_def)
  ultimately show ?thesis using lru_wf_front [OF assms(1) e(1) refl] by blast
qed

lemma lru_Get_miss:
  assumes "lru_wf l" "map_of (recency l) k = None"
  shows "lru_Get k l = (l, zeroEntry, False)"
  using assms lru_wf_items_None [OF assms(1), of k] by (simp add: lru_Get_def map_of_eq_None_iff)

lemma lru_Get_wf [keeps_wf]: "lru_wf l \<Longrightarrow> lru_wf (fst (lru_Get k l))"
  using lru_Get_hit [of l k] lru_Get_miss [of l k] by (cases "map_of (recency l) k") auto

section \<open>Histories of calls\<close>

datatype lru_call = CallPut string resultEntry | CallGet string

text \<open>The answers a history of calls gets, and the cache after it.\<close>

fun lru_run :: "lru_call list \<Rightarrow> lruResults \<Rightarrow> (resultEntry \<times> bool) list \<times> lruResults" where
  "lru_run [] l = ([], l)"
| "lru_run (CallPut k v # calls) l = lru_run calls (lru_Put k v l)"
| "lru_run (CallGet k # calls) l =
     (case lru_Get k l of (l', v, ok) \<Rightarrow> (case lru_run calls l' of (answers, l'') \<Rightarrow> ((v, ok) # answers, l'')))"

text \<open>The same history on a list of at most \<open>n\<close> pairs, most recent first.\<close>

fun ref_run :: "nat \<Rightarrow> lru_call list \<Rightarrow> (string \<times> resultEntry) list \<Rightarrow>
    (resultEntry \<times> bool) list \<times> (string \<times> resultEntry) list" where
  "ref_run n [] xs = ([], xs)"
| "ref_run n (CallPut k v # calls) xs = ref_run n calls (take n ((k, v) # drop_key k xs))"
| "ref_run n (CallGet k # calls) xs =
     (case map_of xs k of
        None \<Rightarrow> (case ref_run n calls xs of (answers, ys) \<Rightarrow> ((zeroEntry, False) # answers, ys))
      | Some v \<Rightarrow> (case ref_run n calls ((k, v) # drop_key k xs) of (answers, ys) \<Rightarrow> ((v, True) # answers, ys)))"

lemma lru_cap [simp]: "cap (lru_Put k v l) = cap l" "cap (fst (lru_Get k l)) = cap l"
  by (auto simp: lru_Put_def lru_Get_def Let_def split: option.splits)

lemma lru_run_refines:
  assumes "lru_wf l"
  shows "case lru_run calls l of (answers, l') \<Rightarrow> lru_wf l' \<and> cap l' = cap l \<and>
    ref_run (nat (cap l)) calls (recency l) = (answers, recency l')"
  using assms
proof (induction calls arbitrary: l)
  case Nil
  then show ?case by simp
next
  case (Cons call calls)
  show ?case
  proof (cases call)
    case (CallPut k v)
    with Cons.IH [OF lru_Put_wf [OF Cons.prems], of k v] show ?thesis
      by (simp add: lru_Put_recency [OF Cons.prems])
  next
    case (CallGet k)
    show ?thesis
    proof (cases "map_of (recency l) k")
      case None
      with Cons.IH [OF Cons.prems] lru_Get_miss [OF Cons.prems None] CallGet show ?thesis
        by (auto split: prod.splits)
    next
      case (Some v)
      from lru_Get_hit [OF Cons.prems Some] obtain l' where
        l': "lru_Get k l = (l', v, True)" "lru_wf l'" "recency l' = (k, v) # drop_key k (recency l)" by blast
      have "cap l' = cap l" using lru_cap(2) [of k l] l'(1) by simp
      with Cons.IH [OF l'(2)] l' Some CallGet show ?thesis by (auto split: prod.splits)
    qed
  qed
qed

section \<open>Properties\<close>

text \<open>
  C24: the cache is a least-recently-used map. Over any history of \<open>Put\<close> and \<open>Get\<close>
  calls on a fresh cache, every answer and the final contents, in recency order, are those
  of a list that moves a touched key to the front and keeps the first capacity entries; the
  size never exceeds the capacity (at least one).
\<close>
theorem lru_is_recency_list:
  "case lru_run calls (newLRUResults c) of (answers, l) \<Rightarrow>
     ref_run (nat (max 1 c)) calls [] = (answers, recency l) \<and> int (lru_Len l) \<le> max 1 c"
proof -
  have c: "cap (newLRUResults c) = max 1 c" "recency (newLRUResults c) = []"
    by (simp_all add: newLRUResults_def recency_def)
  from lru_run_refines [OF lru_wf_new [of c], of calls] show ?thesis
    by (auto simp: c lru_wf_def lru_Len_def split: prod.splits)
qed

end
