(* ===== verification/Server.thy ===== *)
theory Server
  imports Scheduler Metrics Log_Hub LRU Config
begin

text \<open>
  \<open>Server\<close> of \<open>server.go\<close>: its state, and the parts every handler uses: calls of its
  store, the pending queue, the terminal notification of \<open>watch.go\<close>.

  A handler runs concurrently with every other goroutine. Between two of its own atomic
  actions the others may change the server; \<open>others k\<close> is that change before the
  \<open>k\<close>-th action, and the clock is read through \<open>clock\<close>. A send to a full queue blocks
  until the others made room; if they make none the handler never returns, which is
  \<open>None\<close>. The sections after the definitions give the rely condition \<open>srv_moves\<close> that
  handlers assume of each other and prove of themselves.
\<close>

section \<open>State\<close>

record 'st Server =
  cfg :: Config
  workerPool :: WorkerPool
  scheduler :: Scheduler
  jobStore :: 'st
  metrics :: Metrics
  pendingQueue :: "string list"
  results :: lruResults
  logHub :: LogHub
  shuttingDown :: bool
  stalledDispatches :: int64

record 'st handler_env =
  others :: "nat \<Rightarrow> 'st Server \<Rightarrow> 'st Server"
  clock :: "nat \<Rightarrow> gotime"

definition pendingQueueSize :: nat where "pendingQueueSize = 10000"
definition resultsCacheSize :: int where "resultsCacheSize = 10000"

definition NewServerWithStore :: "gotime \<Rightarrow> Config \<Rightarrow> 'st \<Rightarrow> 'st Server" where
  "NewServerWithStore now c store =
     (let pool = NewWorkerPool (WorkerTimeout c);
          sched = SetRPCTimeout (ExecuteTaskTimeout c) NewScheduler
      in \<lparr>cfg = c, workerPool = SetReaper pool, scheduler = sched, jobStore = store,
          metrics = NewMetrics now, pendingQueue = [], results = newLRUResults resultsCacheSize,
          logHub = NewLogHub, shuttingDown = False, stalledDispatches = 0\<rparr>)"

text \<open>The store constructor of each mode is an argument.\<close>

definition NewServer ::
  "(Config \<Rightarrow> 'st result) \<Rightarrow> (string \<Rightarrow> 'st result) \<Rightarrow> gotime \<Rightarrow> Config \<Rightarrow> 'st Server result" where
  "NewServer openRaft openBolt now c =
     rbind (if RaftEnabled c then openRaft c else openBolt (DBPath c))
       (\<lambda>store. Inr (NewServerWithStore now c store))"

text \<open>\<open>Close\<close> also closes the store, and ignores the error that may return.\<close>

definition Server_Close :: "'st Store \<Rightarrow> 'st Server \<Rightarrow> 'st Server \<times> go_error option" where
  "Server_Close S s = (s\<lparr>scheduler := Scheduler_Close (scheduler s)\<rparr>, Close S (jobStore s))"

text \<open>\<open>s.jobStore\<close> as a store whose state is the server's.\<close>

definition on_store :: "'st Store \<Rightarrow> 'st Server Store" where
  "on_store S = \<lparr>
     PutJob = (\<lambda>now r s. case PutJob S now r (jobStore s) of (st, e) \<Rightarrow> (s\<lparr>jobStore := st\<rparr>, e)),
     GetJob = (\<lambda>i s. GetJob S i (jobStore s)),
     Transition = (\<lambda>now i f s. case Transition S now i f (jobStore s) of
        (st, c, e, runs) \<Rightarrow> (s\<lparr>jobStore := st\<rparr>, c, e, runs)),
     SubmitWithIdempotency = (\<lambda>now r k s. case SubmitWithIdempotency S now r k (jobStore s) of
        (st, i, c, e) \<Rightarrow> (s\<lparr>jobStore := st\<rparr>, i, c, e)),
     ListUnfinished = (\<lambda>s. ListUnfinished S (jobStore s)),
     ListRunningOnWorker = (\<lambda>w s. ListRunningOnWorker S w (jobStore s)),
     Ping = (\<lambda>s. Ping S (jobStore s)),
     Close = (\<lambda>s. Close S (jobStore s))\<rparr>"

section \<open>Queue, statuses, terminal events\<close>

definition enqueue :: "('st Server \<Rightarrow> 'st Server) \<Rightarrow> string \<Rightarrow> 'st Server \<Rightarrow> 'st Server option" where
  "enqueue wait jobID s =
     (if shuttingDown s then Some s
      else if length (pendingQueue s) < pendingQueueSize
      then Some (s\<lparr>pendingQueue := pendingQueue s @ [jobID]\<rparr>)
      else let s1 = wait s
           in if length (pendingQueue s1) < pendingQueueSize
              then Some (s1\<lparr>pendingQueue := pendingQueue s1 @ [jobID]\<rparr>)
              else None)"

definition QueueDepth :: "'st Server \<Rightarrow> int64" where
  "QueueDepth s = of_nat (length (pendingQueue s)) + stalledDispatches s"

definition BeginShutdown :: "'st Server \<Rightarrow> 'st Server" where
  "BeginShutdown s = s\<lparr>shuttingDown := True\<rparr>"

definition mapStatus :: "JobStatus \<Rightarrow> pb_JobStatus" where
  "mapStatus s =
     (if s = StatusPending then JOB_STATUS_PENDING
      else if s = StatusRunning then JOB_STATUS_RUNNING
      else if s = StatusDone then JOB_STATUS_DONE
      else if s = StatusFailed then JOB_STATUS_FAILED
      else JOB_STATUS_UNKNOWN)"

definition storeErrToStatus :: "go_error \<Rightarrow> string \<Rightarrow> grpc_error" where
  "storeErrToStatus err ctx =
     (if errors_Is err ErrNotLeader then GrpcStatus FailedPrecondition (ctx @ '': '' @ err_Error err)
      else GrpcStatus Internal (ctx @ '': '' @ err_Error err))"

definition statusEvent :: "string \<Rightarrow> JobStatus \<Rightarrow> JobEvent" where
  "statusEvent jobID st = \<lparr>ev_JobId = jobID, Event = EvStatus (mapStatus st)\<rparr>"

definition jobResultEvent :: "JobRecord \<Rightarrow> JobEvent" where
  "jobResultEvent rec = \<lparr>ev_JobId = ID rec, Event = EvResult \<lparr>r_Status = mapStatus (Status rec),
     r_ResultBytes = ResultBytes rec, r_Error = Error rec, r_ColdStartMs = ColdStartMs rec,
     r_TotalDurationMs = ColdStartMs rec + ExecutionMs rec, r_RetryCount = ucast (RetryCount rec),
     r_WorkerId = WorkerID rec\<rparr>\<rparr>"

definition notifyTerminal :: "'st Store \<Rightarrow> ('st Server \<Rightarrow> 'st Server) \<Rightarrow> string \<Rightarrow> 'st Server \<Rightarrow> 'st Server" where
  "notifyTerminal S other jobID s =
     (case GetJob (on_store S) jobID s of
        Inl e \<Rightarrow> s
      | Inr None \<Rightarrow> s
      | Inr (Some rec) \<Rightarrow>
          (if Status rec \<noteq> StatusDone \<and> Status rec \<noteq> StatusFailed then s
           else let s1 = other s in s1\<lparr>logHub := Finish jobID (jobResultEvent rec) (logHub s1)\<rparr>))"

section \<open>What every handler keeps\<close>

text \<open>
  The invariant of the whole server: the store's jobs are well-formed, and every bounded
  structure is within its bound.
\<close>

definition srv_ok :: "('st \<Rightarrow> abs_store) \<Rightarrow> ('st \<Rightarrow> bool) \<Rightarrow> 'st Server \<Rightarrow> bool" where
  "srv_ok A I s \<longleftrightarrow> I (jobStore s) \<and> store_ok (A (jobStore s)) \<and> hub_ok (logHub s) \<and> lru_wf (results s) \<and>
     ring_wf (metrics s) \<and> pool_wf (workerPool s) \<and> length (pendingQueue s) \<le> pendingQueueSize"

text \<open>
  No job is forgotten: every PENDING job is in the queue or in the hands of a goroutine
  that will queue or settle it. \<open>M\<close> is the set of jobs in somebody's hands.
\<close>

definition accounted :: "('st \<Rightarrow> abs_store) \<Rightarrow> string set \<Rightarrow> 'st Server \<Rightarrow> bool" where
  "accounted A M s \<longleftrightarrow> (\<forall>i r. a_jobs (A (jobStore s)) i = Some r \<longrightarrow> Status r = StatusPending \<longrightarrow>
     i \<in> set (pendingQueue s) \<or> i \<in> M)"

text \<open>
  The move of a goroutine that holds the jobs \<open>X\<close> before and \<open>Y\<close> after: the invariant is
  kept, the store moves by lifecycle steps, the configuration is fixed, shutdown is not
  taken back, and (\<open>L\<close>) while the server is not shutting down no job is forgotten. A move
  that holds nothing before and after is what handlers guarantee, and what they tolerate
  from the others at each of their yield points.
\<close>

definition srv_moves ::
  "('st \<Rightarrow> abs_store) \<Rightarrow> ('st \<Rightarrow> bool) \<Rightarrow> bool \<Rightarrow> string set \<Rightarrow> string set \<Rightarrow> 'st Server \<Rightarrow> 'st Server \<Rightarrow> bool" where
  "srv_moves A I L X Y s s' \<longleftrightarrow>
     (srv_ok A I s \<longrightarrow> srv_ok A I s' \<and> store_moves (A (jobStore s)) (A (jobStore s')) \<and>
        cfg s' = cfg s \<and> (shuttingDown s \<longrightarrow> shuttingDown s') \<and>
        (L \<and> \<not> shuttingDown s' \<longrightarrow> (\<forall>M. accounted A (M \<union> X) s \<longrightarrow> accounted A (M \<union> Y) s')))"

definition env_moves :: "('st \<Rightarrow> abs_store) \<Rightarrow> ('st \<Rightarrow> bool) \<Rightarrow> bool \<Rightarrow> 'st handler_env \<Rightarrow> bool" where
  "env_moves A I L E \<longleftrightarrow> (\<forall>k s. srv_moves A I L {} {} s (others E k s))"

lemma srv_moves_refl [simp, intro]: "srv_moves A I L X X s s"
  by (simp add: srv_moves_def)

lemma srv_moves_trans [trans]:
  "srv_moves A I L X Y s s1 \<Longrightarrow> srv_moves A I L Y Z s1 s2 \<Longrightarrow> srv_moves A I L X Z s s2"
  unfolding srv_moves_def by (metis rtranclp_trans)

lemma srv_moves_frame: "srv_moves A I L {} {} s s' \<Longrightarrow> srv_moves A I L X X s s'"
  unfolding srv_moves_def by simp

lemma srv_moves_unaccounted: "srv_moves A I False X Y s s' \<Longrightarrow> srv_moves A I False X' Y' s s'"
  unfolding srv_moves_def by simp

lemma env_movesD: "env_moves A I L E \<Longrightarrow> srv_moves A I L X X s (others E k s)"
  unfolding env_moves_def by (blast intro: srv_moves_frame)

lemma srv_movesD:
  assumes "srv_moves A I L X Y s s'" "srv_ok A I s"
  shows "srv_ok A I s'" "store_moves (A (jobStore s)) (A (jobStore s'))" "cfg s' = cfg s"
    "shuttingDown s \<Longrightarrow> shuttingDown s'"
  using assms by (simp_all add: srv_moves_def)

lemma srv_okD:
  assumes "srv_ok A I s"
  shows "I (jobStore s)" "store_ok (A (jobStore s))" "hub_ok (logHub s)" "lru_wf (results s)"
    "ring_wf (metrics s)" "pool_wf (workerPool s)" "length (pendingQueue s) \<le> pendingQueueSize"
  using assms by (simp_all add: srv_ok_def)

text \<open>Each component operation is such a move.\<close>

lemma srv_moves_fields:
  "\<lbrakk>hub_ok (logHub s) \<Longrightarrow> hub_ok h\<rbrakk> \<Longrightarrow> srv_moves A I L X X s (s\<lparr>logHub := h\<rparr>)"
  "\<lbrakk>lru_wf (results s) \<Longrightarrow> lru_wf l\<rbrakk> \<Longrightarrow> srv_moves A I L X X s (s\<lparr>results := l\<rparr>)"
  "\<lbrakk>ring_wf (metrics s) \<Longrightarrow> ring_wf m\<rbrakk> \<Longrightarrow> srv_moves A I L X X s (s\<lparr>metrics := m\<rparr>)"
  "\<lbrakk>pool_wf (workerPool s) \<Longrightarrow> pool_wf p\<rbrakk> \<Longrightarrow> srv_moves A I L X X s (s\<lparr>workerPool := p\<rparr>)"
  "srv_moves A I L X X s (s\<lparr>scheduler := sc\<rparr>)"
  "srv_moves A I L X X s (s\<lparr>stalledDispatches := n\<rparr>)"
  by (simp_all add: srv_moves_def srv_ok_def accounted_def)

lemma srv_moves_store:
  assumes "srv_ok A I s \<Longrightarrow> I st \<and> store_moves (A (jobStore s)) (A st)"
    and "\<And>i r. srv_ok A I s \<Longrightarrow> a_jobs (A st) i = Some r \<Longrightarrow> Status r = StatusPending \<Longrightarrow> i \<notin> Y \<Longrightarrow>
      i \<notin> X \<and> (\<exists>r'. a_jobs (A (jobStore s)) i = Some r' \<and> Status r' = StatusPending)"
  shows "srv_moves A I L X Y s (s\<lparr>jobStore := st\<rparr>)"
proof -
  have "store_ok (A st)" if "srv_ok A I s"
    using assms(1) [OF that] srv_okD(2) [OF that] store_moves_ok by blast
  moreover have "accounted A (M \<union> Y) (s\<lparr>jobStore := st\<rparr>)" if "srv_ok A I s" "accounted A (M \<union> X) s" for M
    using assms(2) [OF that(1)] that(2) unfolding accounted_def by fastforce
  ultimately show ?thesis using assms(1) by (simp add: srv_moves_def srv_ok_def)
qed

lemma BeginShutdown_moves: "srv_moves A I L X X s (BeginShutdown s)"
  by (simp add: srv_moves_def srv_ok_def BeginShutdown_def)

text \<open>Taking a job in hand, and letting go of one that is not PENDING.\<close>

lemma srv_moves_hold: "X \<subseteq> Y \<Longrightarrow> srv_moves A I L X Y s s"
  unfolding srv_moves_def accounted_def by blast

lemma srv_moves_release:
  assumes "\<And>r. srv_ok A I s \<Longrightarrow> a_jobs (A (jobStore s)) i = Some r \<Longrightarrow> Status r \<noteq> StatusPending"
  shows "srv_moves A I L (insert i X) X s s"
  using assms unfolding srv_moves_def accounted_def by (metis Un_insert_right insert_iff rtranclp.rtrancl_refl)

lemma queue_push_moves:
  "length (pendingQueue s) < pendingQueueSize \<Longrightarrow>
     srv_moves A I L (insert i X) X s (s\<lparr>pendingQueue := pendingQueue s @ [i]\<rparr>)"
  by (auto simp: srv_moves_def srv_ok_def accounted_def)

lemma queue_pop_moves:
  "pendingQueue s = i # q \<Longrightarrow> srv_moves A I L X (insert i X) s (s\<lparr>pendingQueue := q\<rparr>)"
  by (auto simp: srv_moves_def srv_ok_def accounted_def)

lemma RecordX_wf [keeps_wf]:
  "ring_wf m \<Longrightarrow> ring_wf (RecordInvocation m)" "ring_wf m \<Longrightarrow> ring_wf (RecordCompleted m)"
  "ring_wf m \<Longrightarrow> ring_wf (RecordFailed m)"
  by (simp_all add: ring_wf_def RecordInvocation_def RecordCompleted_def RecordFailed_def)

lemma RecordColdStart_wf [keeps_wf]: "ring_wf m \<Longrightarrow> ring_wf (RecordColdStart ms m)"
  using RecordColdStart_spec [of m ms] by (cases "sint ms < 0") (simp_all add: RecordColdStart_def)

lemma enqueue_moves:
  assumes "\<And>X. srv_moves A I L X X s (wait s)" "enqueue wait i s = Some s'"
  shows "srv_moves A I L (insert i X) X s s'"
proof (cases "shuttingDown s")
  case True
  with assms(2) show ?thesis by (simp add: enqueue_def srv_moves_def)
next
  case False
  show ?thesis
  proof (cases "length (pendingQueue s) < pendingQueueSize")
    case True
    with assms(2) False have s': "s' = s\<lparr>pendingQueue := pendingQueue s @ [i]\<rparr>" by (simp add: enqueue_def)
    show ?thesis unfolding s' by (rule queue_push_moves [OF True])
  next
    case full: False
    with assms(2) \<open>\<not> shuttingDown s\<close> have room: "length (pendingQueue (wait s)) < pendingQueueSize"
      and s': "s' = (wait s)\<lparr>pendingQueue := pendingQueue (wait s) @ [i]\<rparr>"
      by (simp_all add: enqueue_def Let_def split: if_splits)
    show ?thesis unfolding s' by (rule srv_moves_trans [OF assms(1) queue_push_moves [OF room]])
  qed
qed

text \<open>A queued job is there afterwards, unless the server is shutting down.\<close>

lemma enqueue_queue:
  assumes "enqueue wait i s = Some s'"
  shows "if shuttingDown s then s' = s
    else (s' = s\<lparr>pendingQueue := pendingQueue s @ [i]\<rparr> \<or> s' = (wait s)\<lparr>pendingQueue := pendingQueue (wait s) @ [i]\<rparr>)"
  using assms by (auto simp: enqueue_def Let_def split: if_splits)

lemma new_server_ok:
  "I st \<Longrightarrow> store_ok (A st) \<Longrightarrow> srv_ok A I (NewServerWithStore now c st)"
  by (simp add: srv_ok_def NewServerWithStore_def Let_def hub_ok_new lru_wf_new NewMetrics_wf
      SetReaper_wf NewWorkerPool_wf)

section \<open>The server's store meets the store's contract\<close>

lemma on_store_simps [simp]:
  "GetJob (on_store S) i s = GetJob S i (jobStore s)"
  "ListUnfinished (on_store S) s = ListUnfinished S (jobStore s)"
  "ListRunningOnWorker (on_store S) w s = ListRunningOnWorker S w (jobStore s)"
  "Ping (on_store S) s = Ping S (jobStore s)"
  by (simp_all add: on_store_def)

lemma on_store_Transition:
  "Transition (on_store S) now i f s = (s', c, e, runs) \<longleftrightarrow>
     (\<exists>st. Transition S now i f (jobStore s) = (st, c, e, runs) \<and> s' = s\<lparr>jobStore := st\<rparr>)"
  by (auto simp: on_store_def split: prod.splits)

lemma on_store_Submit:
  "SubmitWithIdempotency (on_store S) now r k s = (s', i, c, e) \<longleftrightarrow>
     (\<exists>st. SubmitWithIdempotency S now r k (jobStore s) = (st, i, c, e) \<and> s' = s\<lparr>jobStore := st\<rparr>)"
  by (auto simp: on_store_def split: prod.splits)

lemma on_store_PutJob:
  "PutJob (on_store S) now r s = (s', e) \<longleftrightarrow>
     (\<exists>st. PutJob S now r (jobStore s) = (st, e) \<and> s' = s\<lparr>jobStore := st\<rparr>)"
  by (auto simp: on_store_def split: prod.splits)

locale served =
  fixes S :: "'st Store" and A :: "'st \<Rightarrow> abs_store" and I :: "'st \<Rightarrow> bool"
  assumes store: "fallible_store S A I"

sublocale served \<subseteq> sv: fallible_store "on_store S" "\<lambda>s. A (jobStore s)" "\<lambda>s. I (jobStore s)"
proof (unfold_locales, goal_cases)
  case 1 then show ?case by (rule fallible_store.abs_finite [OF store])
next
  case 2 then show ?case by (rule fallible_store.abs_ID [OF store])
next
  case 3 then show ?case unfolding on_store_simps by (rule fallible_store.GetJob_fallible [OF store])
next
  case (4 s f now i s' c e runs)
  from 4(3) obtain st where t: "Transition S now i f (jobStore s) = (st, c, e, runs)" "s' = s\<lparr>jobStore := st\<rparr>"
    unfolding on_store_Transition by blast
  from fallible_store.Transition_fallible [OF store 4(1,2) t(1)] t(2) show ?case by simp
next
  case (5 s now r k s' i c e)
  from 5(2) obtain st where t: "SubmitWithIdempotency S now r k (jobStore s) = (st, i, c, e)" "s' = s\<lparr>jobStore := st\<rparr>"
    unfolding on_store_Submit by blast
  from fallible_store.Submit_fallible [OF store 5(1) t(1)] t(2) show ?case by simp
next
  case (6 s now r s' e)
  from 6(2) obtain st where t: "PutJob S now r (jobStore s) = (st, e)" "s' = s\<lparr>jobStore := st\<rparr>"
    unfolding on_store_PutJob by blast
  from fallible_store.PutJob_fallible [OF store 6(1) t(1)] t(2) show ?case by simp
next
  case 7 then show ?case unfolding on_store_simps by (rule fallible_store.ListUnfinished_fallible [OF store])
next
  case 8 then show ?case unfolding on_store_simps by (rule fallible_store.ListRunningOnWorker_fallible [OF store])
qed

text \<open>
  A transition by a lifecycle mutator. In general its job may have become PENDING; not so
  for a mutator that never makes a job PENDING.
\<close>

definition never_pends :: "mutator \<Rightarrow> bool" where
  "never_pends f \<longleftrightarrow> (\<forall>r r'. f r = Inr r' \<longrightarrow> Status r' = StatusPending \<longrightarrow> Status r = StatusPending)"

lemma never_pends_muts [simp]:
  "never_pends (markRunning w)" "never_pends (failDispatch msg)" "never_pends (report req)"
  by (auto simp: never_pends_def mutator_defs Let_def status_defs split: if_splits)

context served
begin

lemma Transition_effect:
  assumes "lifecycle_mut f" "Transition (on_store S) now i f s = (s', c, e, runs)" "srv_ok A I s"
  obtains st where "s' = s\<lparr>jobStore := st\<rparr>" "I st" "store_moves (A (jobStore s)) (A st)"
    "(A st, c, e, runs) = spec_Transition now i f (A (jobStore s)) \<or> A st = A (jobStore s) \<and> e \<noteq> None"
proof -
  from assms(2) obtain st where t: "Transition S now i f (jobStore s) = (st, c, e, runs)" and s': "s' = s\<lparr>jobStore := st\<rparr>"
    unfolding on_store_Transition by blast
  from assms(1) have "mut_ok f" by (simp add: lifecycle_mut_def)
  note f = fallible_store.Transition_fallible [OF store srv_okD(1) [OF assms(3)] this t]
  note m = fallible_store.Transition_moves [OF store srv_okD(1) [OF assms(3)] assms(1) t]
  show thesis by (rule that [OF s' conjunct1 [OF m] conjunct2 [OF m] conjunct2 [OF f]])
qed

lemma Transition_srv_moves:
  assumes "lifecycle_mut f" "Transition (on_store S) now i f s = (s', c, e, runs)" "never_pends f \<or> i \<in> Y" "X \<subseteq> Y"
  shows "srv_moves A I L X Y s s'"
proof (cases "srv_ok A I s")
  case False
  then show ?thesis by (simp add: srv_moves_def)
next
  case True
  from Transition_effect [OF assms(1,2) True] obtain st where s': "s' = s\<lparr>jobStore := st\<rparr>"
    and st: "I st" "store_moves (A (jobStore s)) (A st)"
    and eff: "(A st, c, e, runs) = spec_Transition now i f (A (jobStore s)) \<or> A st = A (jobStore s) \<and> e \<noteq> None"
    by blast
  have pend: "\<exists>r'. a_jobs (A (jobStore s)) j = Some r' \<and> Status r' = StatusPending"
    if "a_jobs (A st) j = Some r" "Status r = StatusPending" "j \<notin> Y" for j r
  proof (cases "j = i \<and> A st \<noteq> A (jobStore s)")
    case False
    with eff that spec_Transition_other [of now i f "A (jobStore s)"] show ?thesis by metis
  next
    case True
    with that assms(3) have "never_pends f" by blast
    with True eff that show ?thesis
      by (auto simp: spec_Transition_def never_pends_def split: option.splits sum.splits)
  qed
  show ?thesis unfolding s'
    by (rule srv_moves_store) (use st pend assms(4) in auto)
qed

text \<open>A transition that reports an error, or that the mutator skipped, changed nothing.\<close>

lemma Transition_error_moves:
  assumes "lifecycle_mut f" "Transition (on_store S) now i f s = (s', c, e, runs)" "e \<noteq> None \<or> \<not> c"
  shows "srv_moves A I L X X s s'"
proof (cases "srv_ok A I s")
  case False
  then show ?thesis by (simp add: srv_moves_def)
next
  case True
  from Transition_effect [OF assms(1,2) True] obtain st where s': "s' = s\<lparr>jobStore := st\<rparr>"
    and st: "I st" "store_moves (A (jobStore s)) (A st)"
    and eff: "(A st, c, e, runs) = spec_Transition now i f (A (jobStore s)) \<or> A st = A (jobStore s) \<and> e \<noteq> None"
    by blast
  then have "A st = A (jobStore s)" using assms(3)
    by (auto simp: spec_Transition_def split: option.splits sum.splits)
  then show ?thesis unfolding s' by (intro srv_moves_store) (use st in auto)
qed

lemma notifyTerminal_moves:
  assumes "\<And>s X. srv_moves A I L X X s (other s)"
  shows "srv_moves A I L X X s (notifyTerminal S other i s)"
proof -
  have "srv_moves A I L X X s ((other s)\<lparr>logHub := Finish i (jobResultEvent r) (logHub (other s))\<rparr>)" for r
    by (rule srv_moves_trans [OF assms], rule srv_moves_fields(1)) (simp add: Finish_ok jobResultEvent_def)
  then show ?thesis by (simp add: notifyTerminal_def Let_def split: sum.splits option.splits)
qed

end

text \<open>A server whose store does not fail by itself.\<close>

locale live_server = served +
  assumes live: "reliable_store S A I"

sublocale live_server \<subseteq> lv: reliable_store "on_store S" "\<lambda>s. A (jobStore s)" "\<lambda>s. I (jobStore s)"
proof (unfold_locales, goal_cases)
  case 1 then show ?case unfolding on_store_simps by (rule reliable_store.GetJob_reliable [OF live])
next
  case (2 s f now i s' c e runs)
  from 2(4) obtain st where t: "Transition S now i f (jobStore s) = (st, c, e, runs)" "s' = s\<lparr>jobStore := st\<rparr>"
    unfolding on_store_Transition by blast
  from reliable_store.Transition_reliable [OF live 2(1-3) t(1)] t(2) show ?case by simp
next
  case (3 s now r k s' i c e)
  from 3(7) obtain st where t: "SubmitWithIdempotency S now r k (jobStore s) = (st, i, c, e)" "s' = s\<lparr>jobStore := st\<rparr>"
    unfolding on_store_Submit by blast
  from reliable_store.Submit_reliable [OF live 3(1-6) t(1)] t(2) show ?case by simp
next
  case 4 then show ?case unfolding on_store_simps by (rule reliable_store.ListUnfinished_reliable [OF live])
next
  case 5 then show ?case unfolding on_store_simps by (rule reliable_store.ListRunningOnWorker_reliable [OF live])
qed

context live_server
begin

lemma on_store_reliable: "reliable_store (on_store S) (\<lambda>s. A (jobStore s)) (\<lambda>s. I (jobStore s))"
  by unfold_locales

end

text \<open>Both modes of the bbolt store serve.\<close>

sublocale bolt_db \<subseteq> srv: served "BoltStore B" "store_abs B" "store_wf B"
  by unfold_locales

sublocale bolt_live \<subseteq> lsrv: live_server "BoltStore B" "store_abs B" "store_wf B"
  by unfold_locales

lemma bolt_served: "bolt_db B \<Longrightarrow> served (BoltStore B) (store_abs B) (store_wf B)"
  by (rule served.intro) (rule bolt_db.BoltStore_fallible)

lemma bolt_live_server: "bolt_live B \<Longrightarrow> live_server (BoltStore B) (store_abs B) (store_wf B)"
  by (intro live_server.intro live_server_axioms.intro bolt_served bolt_live.BoltStore_reliable)
    (simp_all add: bolt_live_def)

section \<open>A concrete server\<close>

text \<open>Nobody else running, and a fixed clock; a server over the example database.\<close>

definition quiet_env :: "gotime \<Rightarrow> 'st handler_env" where
  "quiet_env t = \<lparr>others = (\<lambda>_ s. s), clock = (\<lambda>_. t)\<rparr>"

lemma quiet_env_simps [simp]: "others (quiet_env t) k = (\<lambda>s. s)" "clock (quiet_env t) k = t"
  by (simp_all add: quiet_env_def)

lemma quiet_env_moves: "env_moves A I L (quiet_env t)"
  by (simp add: env_moves_def)

definition demo_config :: Config where
  "demo_config = LoadConfig (\<lambda>_. [])"

definition demo_server :: "mem_db Server" where
  "demo_server = NewServerWithStore 1 demo_config demo_db"

lemma demo_server_simps [simp]:
  "jobStore demo_server = demo_db" "cfg demo_server = demo_config" "pendingQueue demo_server = []"
  "shuttingDown demo_server = False" "stalledDispatches demo_server = 0"
  by (simp_all add: demo_server_def NewServerWithStore_def Let_def)

lemma demo_server_ok: "srv_ok (store_abs mem_bolt) (store_wf mem_bolt) demo_server"
  unfolding demo_server_def by (rule new_server_ok) (rule demo_wf demo_store_ok)+

end
