(* ===== verification/Handlers.thy ===== *)
theory Handlers
  imports Server
begin

text \<open>
  The unary RPC handlers of \<open>server.go\<close>: registration and heartbeats, result reports,
  invocation, job status, and the \<open>/metrics\<close> snapshot. A handler returns the server after
  it and its response or gRPC error. The error rate is the exact quotient that the
  \<open>float64\<close> division rounds, and the uptime the whole seconds passed; payload sizes are
  the lengths of the slices. UUIDs are generated outside the program: the new job's ID is
  an argument.
\<close>

section \<open>Worker-facing RPCs\<close>

definition RegisterWorker ::
  "gotime \<Rightarrow> RegisterWorkerRequest \<Rightarrow> 'st Server \<Rightarrow> 'st Server \<times> RegisterWorkerResponse rpc" where
  "RegisterWorker now req s =
     (if w_WorkerId req = [] \<or> w_Address req = []
      then (s, Inl (GrpcStatus InvalidArgument ''worker_id and address required''))
      else let capacity = (if sint (w_Capacity req) \<le> 0 then 1 else w_Capacity req)
           in (s\<lparr>workerPool := Register now (w_WorkerId req) (w_Address req) (scast capacity) (workerPool s)\<rparr>,
               Inr \<lparr>w_Echo = w_WorkerId req,
                    HeartbeatIntervalMs = word_of_int (quot (HeartbeatInterval (cfg s)) Millisecond)\<rparr>))"

text \<open>The response is \<open>should_drain\<close>.\<close>

definition Heartbeat :: "gotime \<Rightarrow> HeartbeatRequest \<Rightarrow> 'st Server \<Rightarrow> 'st Server \<times> bool rpc" where
  "Heartbeat now req s =
     (if h_WorkerId req = [] then (s, Inl (GrpcStatus InvalidArgument ''worker_id required''))
      else case RecordHeartbeat now (h_WorkerId req) (scast (h_ActiveTasks req)) (workerPool s) of
             (p, known) \<Rightarrow> (s\<lparr>workerPool := p\<rparr>, Inr (\<not> known)))"

definition result_entry :: "ReportTaskResultRequest \<Rightarrow> resultEntry" where
  "result_entry req = \<lparr>resultBytes = t_ResultBytes req, errorMsg = t_Error req,
     coldStartMs = t_ColdStartMs req, executionMs = t_ExecutionMs req\<rparr>"

text \<open>The response is \<open>acknowledged\<close>.\<close>

definition ReportTaskResult ::
  "'st Store \<Rightarrow> 'st handler_env \<Rightarrow> ReportTaskResultRequest \<Rightarrow> 'st Server \<Rightarrow> 'st Server \<times> bool rpc" where
  "ReportTaskResult S E req s =
     (if t_JobId req = [] then (s, Inl (GrpcStatus InvalidArgument ''job_id required''))
      else
        let s1 = others E 0 (s\<lparr>results := lru_Put (t_JobId req) (result_entry req) (results s)\<rparr>);
            s2 = others E 1 (s1\<lparr>logHub := Append (t_JobId req) (TailLines req) (logHub s1)\<rparr>)
        in case Transition (on_store S) (clock E 0) (t_JobId req) (report req) s2 of
             (s3, _, Some err, _) \<Rightarrow> (s3, Inl (storeErrToStatus err ''transition job''))
           | (s3, _, None, _) \<Rightarrow>
               (let s4 = others E 4 (notifyTerminal S (others E 3) (t_JobId req) (others E 2 s3));
                    s5 = others E 5 (s4\<lparr>metrics := RecordColdStart (t_ColdStartMs req) (metrics s4)\<rparr>);
                    s6 = (if Success req then s5\<lparr>metrics := RecordCompleted (metrics s5)\<rparr>
                          else s5\<lparr>metrics := RecordFailed (metrics s5)\<rparr>)
                in (s6, Inr True)))"

section \<open>SDK-facing RPCs\<close>

definition new_job :: "string \<Rightarrow> gotime \<Rightarrow> InvokeFunctionRequest \<Rightarrow> JobRecord" where
  "new_job uuid now req = zeroJob\<lparr>ID := uuid, Status := StatusPending, FunctionName := i_FunctionName req,
     FunctionBytes := i_FunctionBytes req, ArgsBytes := i_ArgsBytes req, CreatedAt := now\<rparr>"

definition payload_too_large :: "Config \<Rightarrow> InvokeFunctionRequest \<Rightarrow> bool" where
  "payload_too_large c req \<longleftrightarrow> sint (MaxPayloadBytes c) > 0 \<and>
     int (length (i_FunctionBytes req) + length (i_ArgsBytes req)) > sint (MaxPayloadBytes c)"

text \<open>The response is \<open>job_id\<close>.\<close>

definition InvokeFunction ::
  "'st Store \<Rightarrow> 'st handler_env \<Rightarrow> string \<Rightarrow> InvokeFunctionRequest \<Rightarrow> 'st Server \<Rightarrow> ('st Server \<times> string rpc) option" where
  "InvokeFunction S E uuid req s =
     (if i_FunctionBytes req = [] then Some (s, Inl (GrpcStatus InvalidArgument ''function_bytes required''))
      else if payload_too_large (cfg s) req then
        Some (s, Inl (GrpcStatus InvalidArgument
          (''payload too large: '' @ show_nat (length (i_FunctionBytes req) + length (i_ArgsBytes req)) @
           '' bytes (max '' @ show_int (sint (MaxPayloadBytes (cfg s))) @ '')'')))
      else case SubmitWithIdempotency (on_store S) (clock E 1) (new_job uuid (clock E 0) req) (i_IdempotencyKey req) s of
        (s1, jobID, created, Some err) \<Rightarrow> Some (s1, Inl (storeErrToStatus err ''persist job''))
      | (s1, jobID, created, None) \<Rightarrow>
          (if created then
             (case enqueue (others E 1) jobID (others E 0 s1) of
                None \<Rightarrow> None
              | Some s2 \<Rightarrow> (let s3 = others E 2 s2
                            in Some (s3\<lparr>metrics := RecordInvocation (metrics s3)\<rparr>, Inr jobID)))
           else Some (s1, Inr jobID)))"

definition base_status :: "gotime \<Rightarrow> JobRecord \<Rightarrow> JobStatusResponse" where
  "base_status now rec = \<lparr>s_JobId = ID rec, s_Status = mapStatus (Status rec), s_ResultBytes = [],
     s_Error = Error rec, s_ColdStartMs = 0,
     s_TotalDurationMs = word_of_int (quot (time_Sub now (CreatedAt rec)) Millisecond),
     s_RetryCount = ucast (RetryCount rec), s_WorkerId = WorkerID rec\<rparr>"

text \<open>A terminal job's result: from the cache if it is there, else from the record.\<close>

definition with_result :: "JobRecord \<Rightarrow> resultEntry \<Rightarrow> bool \<Rightarrow> JobStatusResponse \<Rightarrow> JobStatusResponse" where
  "with_result rec entry hit resp =
     (if hit then
        resp\<lparr>s_ResultBytes := resultBytes entry, s_ColdStartMs := coldStartMs entry,
             s_Error := (if errorMsg entry \<noteq> [] \<and> s_Error resp = [] then errorMsg entry else s_Error resp),
             s_TotalDurationMs := executionMs entry + coldStartMs entry\<rparr>
      else if length (ResultBytes rec) > 0 \<or> sint (ColdStartMs rec) > 0 \<or> sint (ExecutionMs rec) > 0 then
        resp\<lparr>s_ResultBytes := ResultBytes rec, s_ColdStartMs := ColdStartMs rec,
             s_TotalDurationMs := ColdStartMs rec + ExecutionMs rec\<rparr>
      else resp)"

definition GetJobStatus ::
  "'st Store \<Rightarrow> 'st handler_env \<Rightarrow> string \<Rightarrow> 'st Server \<Rightarrow> 'st Server \<times> JobStatusResponse rpc" where
  "GetJobStatus S E jobID s =
     (if jobID = [] then (s, Inl (GrpcStatus InvalidArgument ''job_id required''))
      else case GetJob (on_store S) jobID s of
        Inl err \<Rightarrow> (s, Inl (GrpcStatus Internal (''load job: '' @ err_Error err)))
      | Inr None \<Rightarrow> (s, Inl (GrpcStatus NotFound (''job '' @ jobID @ '' not found'')))
      | Inr (Some rec) \<Rightarrow>
          (let resp = base_status (clock E 0) rec
           in if Status rec = StatusDone \<or> Status rec = StatusFailed then
                (let s1 = others E 0 s
                 in case lru_Get (ID rec) (results s1) of
                      (l, entry, hit) \<Rightarrow> (s1\<lparr>results := l\<rparr>, Inr (with_result rec entry hit resp)))
              else (s, Inr resp)))"

section \<open>The metrics snapshot\<close>

record MetricsSnapshot =
  UptimeS :: int
  ActiveWorkers :: nat
  TotalWorkers :: nat
  QueuedJobs :: nat
  TotalInvocations :: int64
  TotalCompleted :: int64
  TotalFailed :: int64
  InFlightJobs :: int64
  ErrorRate :: rat
  ColdStartSamples :: nat
  P50ColdStartMs :: int64
  P95ColdStartMs :: int64
  P99ColdStartMs :: int64
  MeanColdStartMs :: rat
  Workers :: "WorkerMetrics list"

definition Server_MetricsSnapshot :: "gotime \<Rightarrow> string list \<Rightarrow> 'st Server \<Rightarrow> MetricsSnapshot option" where
  "Server_MetricsSnapshot now ks s =
     (case snapshotPercentiles (metrics s) of
        None \<Rightarrow> None
      | Some (p50, p95, p99, mean, n) \<Rightarrow>
          (let ws = pool_Snapshot now ks (workerPool s);
               total = totalInvocations (metrics s);
               failed = totalFailed (metrics s);
               completed = totalCompleted (metrics s);
               errRate = (if sint (completed + failed) > 0
                          then of_int (sint failed) / of_int (sint (completed + failed)) else 0)
           in Some \<lparr>UptimeS = quot (time_Sub now (startedAt (metrics s))) Second,
                ActiveWorkers = length (filter MAlive ws), TotalWorkers = length ws,
                QueuedJobs = length (pendingQueue s), TotalInvocations = total, TotalCompleted = completed,
                TotalFailed = failed, InFlightJobs = total - completed - failed, ErrorRate = errRate,
                ColdStartSamples = n, P50ColdStartMs = p50, P95ColdStartMs = p95, P99ColdStartMs = p99,
                MeanColdStartMs = mean, Workers = ws\<rparr>))"

text \<open>
  What a report leaves behind: \<open>m\<close> is the store when its transition runs. Either the job
  was already terminal and keeps its result, or it ends with this one.
\<close>

definition reported :: "ReportTaskResultRequest \<Rightarrow> JobRecord \<Rightarrow> bool" where
  "reported req r \<longleftrightarrow> Status r = (if Success req then StatusDone else StatusFailed) \<and>
     Error r = (if Success req then [] else t_Error req) \<and> ResultBytes r = t_ResultBytes req \<and>
     ColdStartMs r = t_ColdStartMs req \<and> ExecutionMs r = t_ExecutionMs req \<and> FunctionBytes r = [] \<and> ArgsBytes r = []"

lemma report_cases:
  "report req r = Inl skip \<and> terminal r \<or>
    (\<exists>r'. report req r = Inr r' \<and> \<not> terminal r \<and> reported req r' \<and> CreatedAt r' = CreatedAt r)"
  by (auto simp: report_def terminal_def reported_def Let_def)

lemma reported_terminal: "reported req r \<Longrightarrow> terminal r"
  by (auto simp: reported_def terminal_def)

lemma reported_UpdatedAt [simp]:
  "reported req (r\<lparr>UpdatedAt := t\<rparr>) = reported req r" "terminal (r\<lparr>UpdatedAt := t\<rparr>) = terminal r"
  by (simp_all add: reported_def terminal_def)

section \<open>Every handler makes a server move\<close>

lemma RegisterWorker_moves: "srv_moves A I L X X s (fst (RegisterWorker now req s))"
  by (simp add: RegisterWorker_def Let_def Register_wf srv_moves_fields)

lemma Heartbeat_moves: "srv_moves A I L X X s (fst (Heartbeat now req s))"
proof -
  have "pool_wf (workerPool s) \<Longrightarrow> RecordHeartbeat now i n (workerPool s) = (p, known) \<Longrightarrow> pool_wf p" for i n p known
    using RecordHeartbeat_wf [of "workerPool s" now i n] by simp
  then show ?thesis by (auto simp: Heartbeat_def split: prod.split intro!: srv_moves_fields)
qed

context served
begin

lemma ReportTaskResult_moves:
  assumes "env_moves A I L E" "ReportTaskResult S E req s = (s', resp)"
  shows "srv_moves A I L X X s s'"
proof (cases "t_JobId req = []")
  case True
  with assms(2) show ?thesis by (simp add: ReportTaskResult_def)
next
  case False
  note e = env_movesD [OF assms(1)]
  define s1 where "s1 = others E 0 (s\<lparr>results := lru_Put (t_JobId req) (result_entry req) (results s)\<rparr>)"
  define s2 where "s2 = others E 1 (s1\<lparr>logHub := Append (t_JobId req) (TailLines req) (logHub s1)\<rparr>)"
  obtain s3 c err runs where t: "Transition (on_store S) (clock E 0) (t_JobId req) (report req) s2 = (s3, c, err, runs)"
    by (rule prod_cases4)
  have "srv_moves A I L X X s s1"
    unfolding s1_def by (rule srv_moves_trans [OF srv_moves_fields(2) [OF lru_Put_wf] e])
  also have "srv_moves A I L X X s1 s2"
    unfolding s2_def by (rule srv_moves_trans [OF srv_moves_fields(1) [OF Append_ok] e])
  also have "srv_moves A I L X X s2 s3"
    by (rule Transition_srv_moves [OF lifecycle_muts(5) t]) simp_all
  finally have m3: "srv_moves A I L X X s s3" .
  show ?thesis
  proof (cases err)
    case (Some x)
    with False assms(2) t m3 show ?thesis by (simp add: ReportTaskResult_def Let_def s1_def s2_def)
  next
    case None
    define s4 where "s4 = others E 4 (notifyTerminal S (others E 3) (t_JobId req) (others E 2 s3))"
    define s5 where "s5 = others E 5 (s4\<lparr>metrics := RecordColdStart (t_ColdStartMs req) (metrics s4)\<rparr>)"
    note m3
    also have "srv_moves A I L X X s3 s4"
      unfolding s4_def by (rule srv_moves_trans [OF e srv_moves_trans [OF notifyTerminal_moves [OF e] e]])
    also have "srv_moves A I L X X s4 s5"
      unfolding s5_def by (rule srv_moves_trans [OF srv_moves_fields(3) [OF RecordColdStart_wf] e])
    also have "srv_moves A I L X X s5 (if Success req then s5\<lparr>metrics := RecordCompleted (metrics s5)\<rparr>
                          else s5\<lparr>metrics := RecordFailed (metrics s5)\<rparr>)"
      by (simp add: srv_moves_fields RecordX_wf)
    finally show ?thesis
      using False assms(2) t None by (auto simp: ReportTaskResult_def Let_def s1_def s2_def s4_def s5_def)
  qed
qed

text \<open>Submission of a new job: it is in the submitter's hands, to be queued.\<close>

lemma Submit_effect:
  assumes "srv_ok A I s" "a_jobs (A (jobStore s)) uuid = None" "i_FunctionBytes req \<noteq> []" "created_at \<noteq> 0"
    and "SubmitWithIdempotency (on_store S) now (new_job uuid created_at req) k s = (s', i, c, e)"
  obtains st where "s' = s\<lparr>jobStore := st\<rparr>" "I st" "store_moves (A (jobStore s)) (A st)"
    "(A st, i, c, e) = spec_Submit now (new_job uuid created_at req) k (A (jobStore s)) \<or> A st = A (jobStore s) \<and> e \<noteq> None"
proof -
  let ?r = "new_job uuid created_at req"
  from assms(5) obtain st where t: "SubmitWithIdempotency S now ?r k (jobStore s) = (st, i, c, e)" and s': "s' = s\<lparr>jobStore := st\<rparr>"
    unfolding on_store_Submit by blast
  note f = fallible_store.Submit_fallible [OF store srv_okD(1) [OF assms(1)] t]
  have r: "ID ?r = uuid" "Status ?r = StatusPending" "WorkerID ?r = []" "FunctionBytes ?r \<noteq> []" "CreatedAt ?r \<noteq> 0"
    using assms(3,4) by (simp_all add: new_job_def zeroJob_def)
  have "store_moves (A (jobStore s)) (A st)" if "A st \<noteq> A (jobStore s)"
  proof -
    from f that have sp: "spec_Submit now ?r k (A (jobStore s)) = (A st, i, c, e)" by metis
    with that have "spec_Submit now ?r k (A (jobStore s)) = (A st, ID ?r, True, None)"
      by (auto simp: spec_Submit_def Let_def split: option.splits if_splits)
    with r assms(2) show ?thesis by (auto intro!: r_into_rtranclp store_step.new)
  qed
  then have "store_moves (A (jobStore s)) (A st)" by (cases "A st = A (jobStore s)") auto
  with f s' that show thesis by blast
qed

lemma Submit_srv_moves:
  assumes "srv_ok A I s \<Longrightarrow> a_jobs (A (jobStore s)) uuid = None" "i_FunctionBytes req \<noteq> []" "created_at \<noteq> 0"
    and "SubmitWithIdempotency (on_store S) now (new_job uuid created_at req) k s = (s', i, c, e)"
  shows "srv_moves A I L X (if c \<and> e = None then insert i X else X) s s'"
proof (cases "srv_ok A I s")
  case False
  then show ?thesis by (simp add: srv_moves_def)
next
  case True
  from Submit_effect [OF True assms(1) [OF True] assms(2-4)] obtain st where s': "s' = s\<lparr>jobStore := st\<rparr>"
    and st: "I st" "store_moves (A (jobStore s)) (A st)"
    and eff: "(A st, i, c, e) = spec_Submit now (new_job uuid created_at req) k (A (jobStore s)) \<or> A st = A (jobStore s) \<and> e \<noteq> None"
    by blast
  show ?thesis unfolding s'
  proof (rule srv_moves_store)
    fix j r
    assume "a_jobs (A st) j = Some r" "Status r = StatusPending" "j \<notin> (if c \<and> e = None then insert i X else X)"
    with eff show "j \<notin> X \<and> (\<exists>r'. a_jobs (A (jobStore s)) j = Some r' \<and> Status r' = StatusPending)"
      by (auto simp: spec_Submit_def Let_def split: option.splits if_splits)
  qed (use st in simp)
qed

lemma InvokeFunction_moves:
  assumes "env_moves A I L E" "InvokeFunction S E uuid req s = Some (s', resp)"
    and "srv_ok A I s \<Longrightarrow> a_jobs (A (jobStore s)) uuid = None" "clock E 0 \<noteq> 0"
  shows "srv_moves A I L X X s s'"
proof (cases "i_FunctionBytes req = [] \<or> payload_too_large (cfg s) req")
  case True
  with assms(2) have "s' = s" by (auto simp: InvokeFunction_def split: if_splits)
  then show ?thesis by simp
next
  case False
  note e = env_movesD [OF assms(1)]
  obtain s1 i c err where
    t: "SubmitWithIdempotency (on_store S) (clock E 1) (new_job uuid (clock E 0) req) (i_IdempotencyKey req) s = (s1, i, c, err)"
    by (rule prod_cases4)
  from False have ne: "i_FunctionBytes req \<noteq> []" by simp
  note m1 = Submit_srv_moves [OF assms(3) ne assms(4) t]
  show ?thesis
  proof (cases "c \<and> err = None")
    case True
    with False assms(2) t obtain s2 where q: "enqueue (others E 1) i (others E 0 s1) = Some s2"
      and s': "s' = (others E 2 s2)\<lparr>metrics := RecordInvocation (metrics (others E 2 s2))\<rparr>"
      by (auto simp: InvokeFunction_def Let_def split: option.splits)
    from m1 True have "srv_moves A I L X (insert i X) s s1" by simp
    also have "srv_moves A I L (insert i X) (insert i X) s1 (others E 0 s1)" by (rule e)
    also have "srv_moves A I L (insert i X) X (others E 0 s1) s2" by (rule enqueue_moves [OF e q])
    also have "srv_moves A I L X X s2 (others E 2 s2)" by (rule e)
    also have "srv_moves A I L X X (others E 2 s2) s'"
      unfolding s' by (rule srv_moves_fields(3) [OF RecordX_wf(1)])
    finally show ?thesis .
  next
    case old: False
    with False assms(2) t have "s' = s1" by (auto simp: InvokeFunction_def split: option.splits)
    with m1 old show ?thesis by auto
  qed
qed

lemma GetJobStatus_moves:
  assumes "env_moves A I L E" "GetJobStatus S E i s = (s', resp)"
  shows "srv_moves A I L X X s s'"
proof -
  have "srv_moves A I L X X s ((others E 0 s)\<lparr>results := fst (lru_Get k (results (others E 0 s)))\<rparr>)" for k
    by (rule srv_moves_trans [OF env_movesD [OF assms(1)] srv_moves_fields(2) [OF lru_Get_wf]])
  moreover have "s' = s \<or> (\<exists>k. s' = (others E 0 s)\<lparr>results := fst (lru_Get k (results (others E 0 s)))\<rparr>)"
    using assms(2) by (auto simp: GetJobStatus_def Let_def split: if_splits sum.splits option.splits prod.splits)
      (metis fst_conv)+
  ultimately show ?thesis by auto
qed

lemma ReportTaskResult_result:
  assumes "env_moves A I L E" "srv_ok A I s" "ReportTaskResult S E req s = (s', Inr ack)"
  obtains m r r' where "ack" "store_moves (A (jobStore s)) m" "a_jobs m (t_JobId req) = Some r"
    "a_jobs (A (jobStore s')) (t_JobId req) = Some r'" "terminal r'"
    "if terminal r then r' = r\<lparr>UpdatedAt := UpdatedAt r'\<rparr> else reported req r'"
proof -
  let ?i = "t_JobId req"
  note e = env_movesD [OF assms(1)]
  define s1 where "s1 = others E 0 (s\<lparr>results := lru_Put ?i (result_entry req) (results s)\<rparr>)"
  define s2 where "s2 = others E 1 (s1\<lparr>logHub := Append ?i (TailLines req) (logHub s1)\<rparr>)"
  obtain s3 c err runs where t: "Transition (on_store S) (clock E 0) ?i (report req) s2 = (s3, c, err, runs)"
    by (rule prod_cases4)
  have "srv_moves A I L {} {} s s1"
    unfolding s1_def by (rule srv_moves_trans [OF srv_moves_fields(2) [OF lru_Put_wf] e])
  also have "srv_moves A I L {} {} s1 s2"
    unfolding s2_def by (rule srv_moves_trans [OF srv_moves_fields(1) [OF Append_ok] e])
  finally have m2: "srv_moves A I L {} {} s s2" .
  note ok2 = srv_movesD(1) [OF m2 assms(2)]
  define s4 where "s4 = others E 4 (notifyTerminal S (others E 3) ?i (others E 2 s3))"
  define s5 where "s5 = others E 5 (s4\<lparr>metrics := RecordColdStart (t_ColdStartMs req) (metrics s4)\<rparr>)"
  have m35: "srv_moves A I L {} {} s3 s5"
    unfolding s5_def s4_def
    by (rule srv_moves_trans [OF srv_moves_trans [OF e srv_moves_trans [OF notifyTerminal_moves [OF e] e]]
          srv_moves_trans [OF srv_moves_fields(3) [OF RecordColdStart_wf] e]])
  from assms(3) t have err: "err = None" and ack: ack and st': "jobStore s' = jobStore s5"
    by (auto simp: ReportTaskResult_def Let_def s1_def s2_def s4_def s5_def split: if_splits option.splits)
  from Transition_effect [OF lifecycle_muts(5) t ok2] obtain st where st: "s3 = s2\<lparr>jobStore := st\<rparr>"
    and eff: "(A st, c, err, runs) = spec_Transition (clock E 0) ?i (report req) (A (jobStore s2)) \<or> A st = A (jobStore s2) \<and> err \<noteq> None"
    by blast
  have m23: "srv_moves A I L {} {} s2 s3" by (rule Transition_srv_moves [OF lifecycle_muts(5) t]) simp_all
  note ok3 = srv_movesD(1) [OF m23 ok2]
  from eff err obtain r where r: "a_jobs (A (jobStore s2)) ?i = Some r"
    by (auto simp: spec_Transition_def split: option.splits)
  have "CreatedAt r \<noteq> 0" using srv_okD(2) [OF ok2] r by (simp add: store_ok_def)
  obtain r3 where r3: "a_jobs (A (jobStore s3)) ?i = Some r3" "terminal r3" "CreatedAt r3 \<noteq> 0"
    "if terminal r then r3 = r else reported req r3"
    using report_cases [of req r] eff err r st \<open>CreatedAt r \<noteq> 0\<close>
    by (auto simp: spec_Transition_def skip_def stamp_CreatedAt dest: reported_terminal)
      (auto simp: reported_def terminal_def stamp_CreatedAt split: if_splits)
  from store_moves_job [OF srv_movesD(2) [OF m35 ok3] r3(1)] obtain r' where
    r': "a_jobs (A (jobStore s5)) ?i = Some r'" "job_step\<^sup>*\<^sup>* r3 r'" by blast
  from terminal_stays [OF r'(2) r3(2,3)] have eq: "r' = r3\<lparr>UpdatedAt := UpdatedAt r'\<rparr>" .
  have "terminal r'" using r3(2) by (subst eq) simp
  moreover have "if terminal r then r' = r\<lparr>UpdatedAt := UpdatedAt r'\<rparr> else reported req r'"
  proof (cases "terminal r")
    case True
    with r3(4) eq show ?thesis by simp
  next
    case False
    with r3(4) have "reported req r'" by (subst eq) simp
    with False show ?thesis by simp
  qed
  ultimately show thesis
    by (intro that [OF ack srv_movesD(2) [OF m2 assms(2)] r, of r']) (simp_all add: st' r'(1))
qed

text \<open>What an accepted invocation leaves behind.\<close>

lemma InvokeFunction_result:
  assumes "env_moves A I L E" "srv_ok A I s" "a_jobs (A (jobStore s)) uuid = None" "clock E 0 \<noteq> 0"
    and "InvokeFunction S E uuid req s = Some (s', Inr i)"
  shows "(i_IdempotencyKey req \<noteq> [] \<and> a_idem (A (jobStore s)) (i_IdempotencyKey req) = Some i \<and>
      A (jobStore s') = A (jobStore s) \<and> pendingQueue s' = pendingQueue s \<and> metrics s' = metrics s) \<or>
    (i = uuid \<and> (i_IdempotencyKey req \<noteq> [] \<longrightarrow> a_idem (A (jobStore s')) (i_IdempotencyKey req) = Some i) \<and>
      (\<exists>r. a_jobs (A (jobStore s')) i = Some r \<and>
        job_step\<^sup>*\<^sup>* (stamp (clock E 1) ((new_job uuid (clock E 0) req)\<lparr>IdempotencyKey := i_IdempotencyKey req\<rparr>)) r) \<and>
      (\<exists>m. srv_moves A I L {} {} m s' \<and> \<not> (\<not> shuttingDown m \<and> (\<forall>q. pendingQueue m \<noteq> q @ [i]))))"
proof -
  let ?k = "i_IdempotencyKey req" and ?r = "new_job uuid (clock E 0) req"
  note e = env_movesD [OF assms(1)]
  obtain s1 j c err where
    t: "SubmitWithIdempotency (on_store S) (clock E 1) ?r ?k s = (s1, j, c, err)" by (rule prod_cases4)
  from assms(5) t have ne: "i_FunctionBytes req \<noteq> []" and err: "err = None" and j: "j = i"
    by (auto simp: InvokeFunction_def Let_def split: if_splits option.splits)
  from Submit_effect [OF assms(2,3) ne assms(4) t] obtain st where s1: "s1 = s\<lparr>jobStore := st\<rparr>"
    and eff: "(A st, j, c, err) = spec_Submit (clock E 1) ?r ?k (A (jobStore s)) \<or> A st = A (jobStore s) \<and> err \<noteq> None"
    by blast
  from eff err have sp: "spec_Submit (clock E 1) ?r ?k (A (jobStore s)) = (A st, i, c, None)" using j by auto
  show ?thesis
  proof (cases c)
    case False
    with assms(5) t err ne have "s' = s1" by (auto simp: InvokeFunction_def split: if_splits)
    with sp False s1 show ?thesis by (auto simp: spec_Submit_def Let_def split: option.splits if_splits)
  next
    case True
    with assms(5) t err j obtain s2 where q: "enqueue (others E 1) i (others E 0 s1) = Some s2"
      and s': "s' = (others E 2 s2)\<lparr>metrics := RecordInvocation (metrics (others E 2 s2))\<rparr>"
      by (auto simp: InvokeFunction_def Let_def split: if_splits option.splits)
    from sp True have "spec_Submit (clock E 1) ?r ?k (A (jobStore s)) = (A st, i, True, None)" by simp
    note cr = spec_Submit_created [OF this]
    have fin: "srv_moves A I L {} {} s2 s'"
      unfolding s' by (rule srv_moves_trans [OF e srv_moves_fields(3) [OF RecordX_wf(1)]])
    have m1: "srv_moves A I L {} {i} s s1"
      using Submit_srv_moves [OF assms(3) ne assms(4) t, of L "{}"] True err j by simp
    have m2: "srv_moves A I L {i} {} s1 s2" by (rule srv_moves_trans [OF e enqueue_moves [OF e q]])
    note ok1 = srv_movesD(1) [OF m1 assms(2)]
    have mv: "store_moves (A st) (A (jobStore s'))"
      using srv_movesD(2) [OF srv_moves_trans [OF m2 fin] ok1] s1 by simp
    have id: "ID ?r = uuid" by (simp add: new_job_def)
    have "a_jobs (A st) i = Some (stamp (clock E 1) (?r\<lparr>IdempotencyKey := ?k\<rparr>))" using cr by auto
    from store_moves_job [OF mv this] obtain r where r: "a_jobs (A (jobStore s')) i = Some r"
      "job_step\<^sup>*\<^sup>* (stamp (clock E 1) (?r\<lparr>IdempotencyKey := ?k\<rparr>)) r" by blast
    have "a_idem (A (jobStore s')) ?k = Some i" if "?k \<noteq> []"
      by (rule store_moves_idem [OF mv]) (use cr that id in auto)
    moreover have "\<not> (\<not> shuttingDown s2 \<and> (\<forall>q. pendingQueue s2 \<noteq> q @ [i]))"
      using enqueue_queue [OF q] by (auto split: if_splits)
    ultimately show ?thesis using r fin cr id by blast
  qed
qed

lemma InvokeFunction_refused:
  assumes "srv_ok A I s" "a_jobs (A (jobStore s)) uuid = None" "clock E 0 \<noteq> 0"
    and "InvokeFunction S E uuid req s = Some (s', Inl err)"
  shows "A (jobStore s') = A (jobStore s) \<and> pendingQueue s' = pendingQueue s"
proof (cases "i_FunctionBytes req = [] \<or> payload_too_large (cfg s) req")
  case True
  with assms(4) have "s' = s" by (auto simp: InvokeFunction_def split: if_splits)
  then show ?thesis by simp
next
  case False
  obtain s1 i c e where
    t: "SubmitWithIdempotency (on_store S) (clock E 1) (new_job uuid (clock E 0) req) (i_IdempotencyKey req) s = (s1, i, c, e)"
    by (rule prod_cases4)
  from False assms(4) t have "s' = s1" and e: "e \<noteq> None"
    by (auto simp: InvokeFunction_def Let_def split: if_splits option.splits)
  moreover from False have ne: "i_FunctionBytes req \<noteq> []" by simp
  from Submit_effect [OF assms(1,2) ne assms(3) t] obtain st where "s1 = s\<lparr>jobStore := st\<rparr>"
    "(A st, i, c, e) = spec_Submit (clock E 1) (new_job uuid (clock E 0) req) (i_IdempotencyKey req) (A (jobStore s)) \<or>
     A st = A (jobStore s) \<and> e \<noteq> None" by blast
  with e have "A (jobStore s1) = A (jobStore s)" "pendingQueue s1 = pendingQueue s"
    by (auto simp: spec_Submit_def Let_def split: option.splits)
  ultimately show ?thesis by simp
qed

end

lemma quotient_bounds:
  "0 \<le> a \<Longrightarrow> a \<le> b \<Longrightarrow> 0 < b \<Longrightarrow> 0 \<le> (of_int a / of_int b :: rat) \<and> (of_int a / of_int b :: rat) \<le> 1"
  by simp

text \<open>A report with nobody else running, and the status answers after it.\<close>

lemma notifyTerminal_store [simp]:
  "jobStore (notifyTerminal S (\<lambda>s. s) i s) = jobStore s" "results (notifyTerminal S (\<lambda>s. s) i s) = results s"
  "pendingQueue (notifyTerminal S (\<lambda>s. s) i s) = pendingQueue s"
  by (simp_all add: notifyTerminal_def Let_def split: sum.splits option.splits)

lemma GetJobStatus_quiet:
  assumes "i \<noteq> []" "GetJob S i (jobStore s) = Inr (Some r)" "terminal r" "lru_Get (ID r) (results s) = (l, v, hit)"
  shows "snd (GetJobStatus S (quiet_env t) i s) = Inr (with_result r v hit (base_status t r))"
  using assms by (auto simp: GetJobStatus_def Let_def terminal_def)

lemma with_result_cached:
  assumes "reported req r" "Success req \<longrightarrow> t_Error req = []"
    and "t_ResultBytes req \<noteq> [] \<or> sint (t_ColdStartMs req) > 0 \<or> sint (t_ExecutionMs req) > 0"
  shows "with_result r (result_entry req) True (base_status t r) = with_result r v False (base_status t r)"
  using assms by (auto simp: with_result_def result_entry_def reported_def base_status_def add.commute)

lemma lru_Get_Put:
  assumes "lru_wf l"
  shows "\<exists>l'. lru_Get k (lru_Put k v l) = (l', v, True)"
proof -
  have "1 \<le> cap l" using assms by (simp add: lru_wf_def)
  then have "map_of (recency (lru_Put k v l)) k = Some v"
    by (simp add: lru_Put_recency [OF assms] take_Cons' flip: One_nat_def) 
  from lru_Get_hit [OF lru_Put_wf [OF assms] this] show ?thesis by blast
qed

context live_server
begin

lemma ReportTaskResult_quiet:
  assumes "srv_ok A I s" "a_jobs (A (jobStore s)) (t_JobId req) = Some r" "\<not> terminal r" "t_JobId req \<noteq> []" "time_ok t"
    and "ReportTaskResult S (quiet_env t) req s = (s', resp)"
  shows "resp = Inr True \<and> I (jobStore s') \<and>
    results s' = lru_Put (t_JobId req) (result_entry req) (results s) \<and>
    (\<exists>r'. a_jobs (A (jobStore s')) (t_JobId req) = Some r' \<and> reported req r' \<and> ID r' = t_JobId req)"
proof -
  let ?i = "t_JobId req"
  let ?s = "s\<lparr>results := lru_Put ?i (result_entry req) (results s), logHub := Append ?i (TailLines req) (logHub s)\<rparr>"
  obtain s3 c e runs where t: "Transition (on_store S) t ?i (report req) ?s = (s3, c, e, runs)" by (rule prod_cases4)
  have inv: "I (jobStore ?s)" using srv_okD(1) [OF assms(1)] by simp
  note sp = lv.Transition_reliable [OF inv mutators_ok(6) assms(5) t]
  from report_cases [of req r] assms(3) obtain r1 where r1: "report req r = Inr r1" "reported req r1" by blast
  with sp assms(2) have e: "e = None" and a: "a_jobs (A (jobStore s3)) ?i = Some (stamp t r1)"
    by (auto simp: spec_Transition_def)
  have rep: "reported req (stamp t r1)" using r1(2) by (simp add: reported_def)
  have inv3: "I (jobStore s3)" using sv.Transition_fallible [OF inv mutators_ok(6) t] by blast
  from t have res: "results s3 = results ?s" by (auto simp: on_store_Transition)
  from assms(4,6) t e have s': "resp = Inr True" "jobStore s' = jobStore s3" "results s' = results s3"
    by (auto simp: ReportTaskResult_def Let_def)
  with inv3 res a rep sv.abs_ID [OF inv3 a] show ?thesis by auto
qed

text \<open>A valid invocation is accepted, if the store works and the queue has room.\<close>

lemma InvokeFunction_accepts:
  assumes "srv_ok A I s" "length (pendingQueue s) < pendingQueueSize" "time_ok t" "uuid \<noteq> []" "length uuid \<le> MaxKeySize"
    and "length (i_IdempotencyKey req) \<le> MaxKeySize" "i_FunctionBytes req \<noteq> []" "\<not> payload_too_large (cfg s) req"
  shows "\<exists>s' i. InvokeFunction S (quiet_env t) uuid req s = Some (s', Inr i)"
proof -
  let ?r = "new_job uuid t req"
  obtain s1 i c e where sub: "SubmitWithIdempotency (on_store S) t ?r (i_IdempotencyKey req) s = (s1, i, c, e)"
    by (rule prod_cases4)
  have r: "CreatedAt ?r = t" "ID ?r = uuid" by (simp_all add: new_job_def)
  have "(A (jobStore s1), i, c, e) = spec_Submit t ?r (i_IdempotencyKey req) (A (jobStore s))"
    by (rule lv.Submit_reliable [OF srv_okD(1) [OF assms(1)] assms(3) _ _ _ assms(6) sub]) (simp_all add: r assms(3-5))
  then have "e = None" by (auto simp: spec_Submit_def Let_def split: option.splits if_splits)
  moreover from sub have "pendingQueue s1 = pendingQueue s" by (auto simp: on_store_Submit)
  ultimately show ?thesis using sub assms(2,7,8)
    by (cases c) (auto simp: InvokeFunction_def enqueue_def Let_def)
qed

lemma status_after_report:
  assumes "srv_ok A I s" "a_jobs (A (jobStore s)) (t_JobId req) = Some r" "\<not> terminal r" "t_JobId req \<noteq> []" "time_ok t"
    and "ReportTaskResult S (quiet_env t) req s = (s', resp)"
    and "Success req \<longrightarrow> t_Error req = []"
    and "t_ResultBytes req \<noteq> [] \<or> sint (t_ColdStartMs req) > 0 \<or> sint (t_ExecutionMs req) > 0"
  shows "resp = Inr True \<and> (\<exists>a. snd (GetJobStatus S (quiet_env t') (t_JobId req) s') = Inr a \<and>
    snd (GetJobStatus S (quiet_env t') (t_JobId req) (NewServerWithStore t'' c (jobStore s'))) = Inr a \<and>
    s_ResultBytes a = t_ResultBytes req \<and> s_Status a = (if Success req then JOB_STATUS_DONE else JOB_STATUS_FAILED))"
proof -
  let ?i = "t_JobId req"
  from ReportTaskResult_quiet [OF assms(1-6)] obtain r' where
    q: "resp = Inr True" "I (jobStore s')" "results s' = lru_Put ?i (result_entry req) (results s)"
      "a_jobs (A (jobStore s')) ?i = Some r'" "reported req r'" "ID r' = ?i" by blast
  have get: "GetJob S ?i (jobStore s') = Inr (Some r')"
    using lv.GetJob_reliable [OF q(2), of ?i] q(4) by simp
  obtain l' where hit: "lru_Get (ID r') (results s') = (l', result_entry req, True)"
    using lru_Get_Put [OF srv_okD(4) [OF assms(1)]] q(3,6) by metis
  let ?n = "NewServerWithStore t'' c (jobStore s')"
  have miss: "lru_Get (ID r') (results ?n) = (results ?n, zeroEntry, False)"
    by (simp add: NewServerWithStore_def Let_def newLRUResults_def lru_Get_def)
  have getn: "GetJob S ?i (jobStore ?n) = Inr (Some r')" using get by (simp add: NewServerWithStore_def Let_def)
  note fin = reported_terminal [OF q(5)]
  let ?a = "with_result r' (result_entry req) True (base_status t' r')"
  have "snd (GetJobStatus S (quiet_env t') ?i s') = Inr ?a"
    by (rule GetJobStatus_quiet [OF assms(4) get fin hit])
  moreover have "snd (GetJobStatus S (quiet_env t') ?i ?n) = Inr ?a"
    unfolding with_result_cached [OF q(5) assms(7,8), of t' zeroEntry]
    by (rule GetJobStatus_quiet [OF assms(4) getn fin miss])
  moreover have "s_ResultBytes ?a = t_ResultBytes req" by (simp add: with_result_def result_entry_def)
  moreover have "s_Status ?a = (if Success req then JOB_STATUS_DONE else JOB_STATUS_FAILED)"
    using q(5) by (simp add: with_result_def base_status_def reported_def mapStatus_def status_defs)
  ultimately show ?thesis using q(1) by blast
qed

end

section \<open>Properties\<close>


definition demo_report :: ReportTaskResultRequest where
  "demo_report = \<lparr>t_JobId = ''j1'', t_WorkerId = ''w1'', Success = True, t_ResultBytes = [7], t_Error = [],
     t_ColdStartMs = 5, t_ExecutionMs = 9, TailLines = []\<rparr>"

lemma demo_report_acked:
  obtains s' where "ReportTaskResult (BoltStore mem_bolt) (quiet_env 9) demo_report demo_server = (s', Inr True)"
proof -
  let ?s = "demo_server\<lparr>results := lru_Put ''j1'' (result_entry demo_report) (results demo_server),
    logHub := Append ''j1'' [] (logHub demo_server)\<rparr>"
  obtain s3 c e runs where t: "Transition (on_store (BoltStore mem_bolt)) 9 ''j1'' (report demo_report) ?s = (s3, c, e, runs)"
    by (rule prod_cases4)
  have "time_ok 9" by (simp add: time_ok_def Second_def Millisecond_def)
  with t have "(store_abs mem_bolt (jobStore s3), c, e, runs) = spec_Transition 9 ''j1'' (report demo_report) (store_abs mem_bolt demo_db)"
    using mb.lsrv.lv.Transition_reliable [of ?s "report demo_report" 9 "''j1''" s3 c e runs] demo_wf by simp
  then have "e = None"
    by (simp add: demo_abs spec_Transition_def report_def Let_def demo_report_def skip_def split: if_splits)
  with t that show thesis
    by (simp add: ReportTaskResult_def Let_def demo_report_def)
qed



definition demo_request :: InvokeFunctionRequest where
  "demo_request = \<lparr>i_FunctionBytes = [1, 2], i_ArgsBytes = [3], i_FunctionName = ''f'', i_IdempotencyKey = ''k2''\<rparr>"




text \<open>
  The \<open>/metrics\<close> report is consistent. It never panics; the error rate is between 0
  and 1, the counts of live and known workers fit, the queue length is within the queue's
  size, the percentiles are ordered, and invocations are the completed, the failed and the
  in-flight ones. (Counters that have not wrapped around.)
\<close>
theorem metrics_report_consistent:
  assumes "srv_ok A I s" "range_order (workers (workerPool s)) ks"
    and "0 \<le> sint (totalCompleted (metrics s))" "0 \<le> sint (totalFailed (metrics s))"
    and "sint (totalCompleted (metrics s)) + sint (totalFailed (metrics s)) < 2 ^ 63"
  shows "\<exists>m. Server_MetricsSnapshot now ks s = Some m \<and> 0 \<le> ErrorRate m \<and> ErrorRate m \<le> 1 \<and>
    ActiveWorkers m = card {i. \<exists>w. workers (workerPool s) i = Some w \<and> alive w} \<and>
    TotalWorkers m = card (dom (workers (workerPool s))) \<and> QueuedJobs m \<le> 10000 \<and>
    sint (P50ColdStartMs m) \<le> sint (P95ColdStartMs m) \<and> sint (P95ColdStartMs m) \<le> sint (P99ColdStartMs m) \<and>
    TotalInvocations m = TotalCompleted m + TotalFailed m + InFlightJobs m"
proof -
  let ?m = "metrics s" and ?p = "workerPool s"
  obtain a b c mean n where pc: "snapshotPercentiles ?m = Some (a, b, c, mean, n)" "sint a \<le> sint b" "sint b \<le> sint c"
  proof (cases "coldSize ?m = 0")
    case True
    then have "snapshotPercentiles ?m = Some (0, 0, 0, 0, 0)" by (simp add: snapshotPercentiles_def)
    with that show thesis by simp
  next
    case False
    with percentiles_of_ring [OF srv_okD(5) [OF assms(1)]] that show thesis by blast
  qed
  have sum: "sint (totalCompleted ?m + totalFailed ?m) = sint (totalCompleted ?m) + sint (totalFailed ?m)"
    using assms(3-5) sint_sum64 by simp
  have rate: "0 \<le> (of_int (sint (totalFailed ?m)) / of_int (sint (totalCompleted ?m + totalFailed ?m)) :: rat) \<and>
      (of_int (sint (totalFailed ?m)) / of_int (sint (totalCompleted ?m + totalFailed ?m)) :: rat) \<le> 1"
    if "sint (totalCompleted ?m + totalFailed ?m) > 0"
    by (rule quotient_bounds) (use that assms(3,4) sum in linarith)+
  have len: "length (pool_Snapshot now ks ?p) = card (dom (workers ?p))"
    using assms(2) by (simp add: pool_Snapshot_def length_ranged)
  have alive: "length (filter MAlive (pool_Snapshot now ks ?p)) = card {i. \<exists>w. workers ?p i = Some w \<and> alive w}"
    using AliveCount_card [OF assms(2)] by (simp add: pool_Snapshot_def filter_map comp_def worker_metrics_def AliveCount_def)
  have queue: "length (pendingQueue s) \<le> 10000" using srv_okD(7) [OF assms(1)] by (simp add: pendingQueueSize_def)
  show ?thesis
    unfolding Server_MetricsSnapshot_def pc(1) option.case prod.case Let_def
    using pc(2,3) len alive queue rate by simp
qed

theorem metrics_report_consistent_witness:
  "\<exists>m. Server_MetricsSnapshot 50 [] demo_server = Some m \<and> ErrorRate m \<le> 1 \<and> QueuedJobs m \<le> 10000"
proof -
  have "range_order (workers (workerPool demo_server)) []"
    by (simp add: range_order_def demo_server_def NewServerWithStore_def Let_def SetReaper_def NewWorkerPool_def)
  moreover have "totalCompleted (metrics demo_server) = 0" "totalFailed (metrics demo_server) = 0"
    by (simp_all add: demo_server_def NewServerWithStore_def Let_def NewMetrics_def)
  ultimately show ?thesis using metrics_report_consistent [OF demo_server_ok, of "[]" 50] by auto
qed

end
