(* ===== verification/Http_Server.thy ===== *)
theory Http_Server
  imports Raft_Cluster Handlers "HOL-Library.Sublist"
begin

text \<open>
  The HTTP surface of \<open>http.go\<close> over a server whose store is a \<open>*BoltStore\<close> or a
  \<open>*RaftStore\<close> (\<open>any_store\<close>; \<open>Server_RaftStore\<close> is the type assertion of
  \<open>Server.RaftStore\<close>). A handler returns the status code, the headers it set and the
  body; JSON bodies are the values that are encoded, which are all finite numbers, strings
  and lists, so encoding them succeeds. \<open>None\<close> is a panic. A request body is what
  \<open>json.Decode\<close> reads from it. Routing follows \<open>http.ServeMux\<close> for patterns without
  methods and wildcards, on clean paths: a pattern that ends in a slash is a subtree, the
  longest matching pattern wins, and a subtree named without its slash is redirected to.
\<close>

section \<open>The two kinds of store\<close>

datatype ('db, 'r) any_store = Bolt 'db | Raft "('r, 'db) RaftNode"

definition any_Store :: "'r raft_api \<Rightarrow> 'db bolt_api \<Rightarrow> ('db, 'r) any_store Store" where
  "any_Store R B = (let b = BoltStore B; q = RaftStore R B in \<lparr>
     PutJob = (\<lambda>now rec st. case st of
        Bolt db \<Rightarrow> apfst Bolt (PutJob b now rec db) | Raft n \<Rightarrow> apfst Raft (PutJob q now rec n)),
     GetJob = (\<lambda>i st. case st of Bolt db \<Rightarrow> GetJob b i db | Raft n \<Rightarrow> GetJob q i n),
     Transition = (\<lambda>now i f st. case st of
        Bolt db \<Rightarrow> apfst Bolt (Transition b now i f db) | Raft n \<Rightarrow> apfst Raft (Transition q now i f n)),
     SubmitWithIdempotency = (\<lambda>now rec k st. case st of
        Bolt db \<Rightarrow> apfst Bolt (SubmitWithIdempotency b now rec k db)
      | Raft n \<Rightarrow> apfst Raft (SubmitWithIdempotency q now rec k n)),
     ListUnfinished = (\<lambda>st. case st of Bolt db \<Rightarrow> ListUnfinished b db | Raft n \<Rightarrow> ListUnfinished q n),
     ListRunningOnWorker = (\<lambda>w st. case st of
        Bolt db \<Rightarrow> ListRunningOnWorker b w db | Raft n \<Rightarrow> ListRunningOnWorker q w n),
     Ping = (\<lambda>st. case st of Bolt db \<Rightarrow> Ping b db | Raft n \<Rightarrow> Ping q n),
     Close = (\<lambda>st. case st of Bolt db \<Rightarrow> Close b db | Raft n \<Rightarrow> Close q n)\<rparr>)"

definition Server_RaftStore :: "('db, 'r) any_store Server \<Rightarrow> ('r, 'db) RaftNode option" where
  "Server_RaftStore s = (case jobStore s of Bolt db \<Rightarrow> None | Raft n \<Rightarrow> Some n)"

section \<open>Handlers\<close>

datatype http_body = BText string | BMetrics MetricsSnapshot | BStatus RaftStatus | BErrorJson string | BEmpty

record http_response =
  http_Code :: nat
  http_Header :: "(string \<times> string) list"
  http_Body :: http_body

definition line :: "string \<Rightarrow> string" where
  "line s = s @ [CHR 0x0A]"

definition http_Error :: "string \<Rightarrow> nat \<Rightarrow> http_response" where
  "http_Error msg c = \<lparr>http_Code = c,
     http_Header = [(''Content-Type'', ''text/plain; charset=utf-8''), (''X-Content-Type-Options'', ''nosniff'')],
     http_Body = BText (line msg)\<rparr>"

definition handleMetrics :: "gotime \<Rightarrow> string list \<Rightarrow> 'st Server \<Rightarrow> http_response option" where
  "handleMetrics now ks app =
     map_option (\<lambda>snap. \<lparr>http_Code = 200,
         http_Header = [(''Access-Control-Allow-Origin'', ''*''), (''Content-Type'', ''application/json'')],
         http_Body = BMetrics snap\<rparr>) (Server_MetricsSnapshot now ks app)"

definition handleHealthz :: "'st Store \<Rightarrow> 'st Server \<Rightarrow> http_response" where
  "handleHealthz S app =
     (case Ping (on_store S) app of
        Some err \<Rightarrow> \<lparr>http_Code = 503, http_Header = [(''Content-Type'', ''text/plain'')],
          http_Body = BText (line (''unhealthy: '' @ err_Error err))\<rparr>
      | None \<Rightarrow> \<lparr>http_Code = 200, http_Header = [(''Content-Type'', ''text/plain'')], http_Body = BText (line ''ok'')\<rparr>)"

definition handleRaftJoin ::
  "'r raft_api \<Rightarrow> string \<Rightarrow> (string \<times> string) option \<Rightarrow> ('db, 'r) any_store Server \<Rightarrow>
   (('db, 'r) any_store Server \<times> http_response) option" where
  \<open>handleRaftJoin R meth req app =
     (if meth \<noteq> ''POST'' then Some (app, http_Error ''POST only'' 405)
      else case (case req of Some (i, addr) \<Rightarrow> if i = [] \<or> addr = [] then None else Some (i, addr) | None \<Rightarrow> None) of
        None \<Rightarrow> Some (app, http_Error ''body must be {"id": ..., "addr": ...}'' 400)
      | Some (i, addr) \<Rightarrow>
          (case Server_RaftStore app of
             None \<Rightarrow> None
           | Some rs \<Rightarrow>
               (case Join R i addr rs of
                  (rs', Some err) \<Rightarrow>
                    Some (app\<lparr>jobStore := Raft rs'\<rparr>, \<lparr>http_Code = 409,
                      http_Header = [(''Content-Type'', ''application/json'')], http_Body = BErrorJson (err_Error err)\<rparr>)
                | (rs', None) \<Rightarrow>
                    Some (app\<lparr>jobStore := Raft rs'\<rparr>, \<lparr>http_Code = 204, http_Header = [], http_Body = BEmpty\<rparr>))))\<close>

definition handleRaftStatus ::
  "'r raft_api \<Rightarrow> 'r raft_report \<Rightarrow> ('db, 'r) any_store Server \<Rightarrow> http_response option" where
  "handleRaftStatus R Q app =
     map_option (\<lambda>rs. \<lparr>http_Code = 200,
         http_Header = [(''Access-Control-Allow-Origin'', ''*''), (''Content-Type'', ''application/json'')],
         http_Body = BStatus (RaftStore_Status R Q (RaftID (cfg app)) rs)\<rparr>) (Server_RaftStore app)"

section \<open>The dashboard directory\<close>

text \<open>\<open>getenv\<close>, \<open>exe\<close> (\<open>os.Executable\<close>), \<open>wd\<close> (\<open>os.Getwd\<close>) and \<open>exists\<close> (\<open>os.Stat\<close> without error) are the system's.\<close>

definition dashboard_candidates :: "(string \<Rightarrow> string) \<Rightarrow> string result \<Rightarrow> string list" where
  "dashboard_candidates getenv exe =
     (if getenv ''MINIMODAL_DASHBOARD_PATH'' \<noteq> [] then [getenv ''MINIMODAL_DASHBOARD_PATH''] else []) @
     (case exe of
        Inr e \<Rightarrow> (let base = Dir e in [filepath_Join [base, ''..'', ''dashboard''], filepath_Join [base, ''dashboard'']])
      | Inl err \<Rightarrow> []) @
     [''dashboard'', ''./dashboard'']"

definition resolveDashboardPath ::
  "(string \<Rightarrow> string) \<Rightarrow> string result \<Rightarrow> string result \<Rightarrow> (string \<Rightarrow> bool) \<Rightarrow> string" where
  "resolveDashboardPath getenv exe wd exists =
     (case find (\<lambda>c. exists (filepath_Join [c, ''index.html''])) (dashboard_candidates getenv exe) of
        None \<Rightarrow> []
      | Some c \<Rightarrow> Abs wd c)"

section \<open>Routes\<close>

datatype route =
    Metrics_h | Healthz_h | RaftJoin_h | RaftStatus_h | Pprof_h string | FileServer_h string | Root_h

definition NewHTTPServer :: "(string \<Rightarrow> string) \<Rightarrow> string \<Rightarrow> ('db, 'r) any_store Server \<Rightarrow> (string \<times> route) list" where
  "NewHTTPServer getenv dashPath app =
     [(''/metrics'', Metrics_h), (''/healthz'', Healthz_h)] @
     (if Server_RaftStore app \<noteq> None then [(''/raft/join'', RaftJoin_h), (''/raft/status'', RaftStatus_h)] else []) @
     (if getenv ''MINIMODAL_PPROF'' = ''1''
      then [(''/debug/pprof/'', Pprof_h ''Index''), (''/debug/pprof/cmdline'', Pprof_h ''Cmdline''),
            (''/debug/pprof/profile'', Pprof_h ''Profile''), (''/debug/pprof/symbol'', Pprof_h ''Symbol''),
            (''/debug/pprof/trace'', Pprof_h ''Trace'')]
      else []) @
     [(''/'', if dashPath \<noteq> [] then FileServer_h dashPath else Root_h)]"

text \<open>The handler at the root when there is no dashboard.\<close>

definition root_response :: "string \<Rightarrow> http_response" where
  "root_response path =
     (if path \<noteq> ''/'' then http_Error ''404 page not found'' 404
      else \<lparr>http_Code = 200, http_Header = [(''Content-Type'', ''text/plain'')],
        http_Body = BText (line (''minimodal orchestrator '' @ [CHR 0xE2, CHR 0x80, CHR 0x94] @ '' GET /metrics for JSON''))\<rparr>)"

definition subtree :: "string \<Rightarrow> bool" where
  "subtree pat \<longleftrightarrow> pat \<noteq> [] \<and> last pat = CHR ''/''"

definition pattern_matches :: "string \<Rightarrow> string \<Rightarrow> bool" where
  "pattern_matches pat path = (if subtree pat then prefix pat path else pat = path)"

fun longest_match :: "string \<Rightarrow> (string \<times> route) list \<Rightarrow> (string \<times> route) option \<Rightarrow> (string \<times> route) option" where
  "longest_match path [] best = best"
| "longest_match path ((pat, h) # rs) best =
     (if pattern_matches pat path \<and> (case best of None \<Rightarrow> True | Some (b, _) \<Rightarrow> length b < length pat)
      then longest_match path rs (Some (pat, h)) else longest_match path rs best)"

datatype dispatched = Serve route | RedirectTo string | NoRoute

definition mux_Handler :: "(string \<times> route) list \<Rightarrow> string \<Rightarrow> dispatched" where
  "mux_Handler rs path =
     (case longest_match path rs None of
        None \<Rightarrow> NoRoute
      | Some (pat, h) \<Rightarrow>
          (if pat \<noteq> path \<and> (path @ ''/'') \<in> fst ` set rs then RedirectTo (path @ ''/'') else Serve h))"

section \<open>Serving\<close>

text \<open>\<open>Run\<close>: the context ends and the server is shut down, or listening ends first.\<close>

datatype http_end = CtxCancelled "go_error option" | ListenEnded "go_error option"

definition http_ErrServerClosed :: sentinel where
  "http_ErrServerClosed = External ''http: Server closed''"

definition HTTP_Run :: "http_end \<Rightarrow> go_error option" where
  "HTTP_Run ev =
     (case ev of
        CtxCancelled shutdownErr \<Rightarrow> shutdownErr
      | ListenEnded err \<Rightarrow> (if err \<noteq> None \<and> err \<noteq> Some (Sentinel http_ErrServerClosed) then err else None))"

section \<open>Routing lemmas\<close>

lemma longest_match_in:
  "longest_match path rs best = Some (pat, h) \<Longrightarrow> (\<And>b. best = Some b \<Longrightarrow> Q b) \<Longrightarrow>
    (\<And>p k. (p, k) \<in> set rs \<Longrightarrow> pattern_matches p path \<Longrightarrow> Q (p, k)) \<Longrightarrow> Q (pat, h)"
proof (induction rs arbitrary: best)
  case Nil
  then show ?case by simp
next
  case (Cons r rs)
  obtain p k where r: "r = (p, k)" by (cases r)
  show ?case
  proof (cases "pattern_matches p path \<and> (case best of None \<Rightarrow> True | Some (b, _) \<Rightarrow> length b < length p)")
    case True
    then have "longest_match path rs (Some (p, k)) = Some (pat, h)" using Cons.prems(1) unfolding r longest_match.simps by simp
    moreover have "Q (p, k)" using Cons.prems(3) [of p k] True r by simp
    ultimately show ?thesis using Cons.IH [of "Some (p, k)"] Cons.prems(3) by auto
  next
    case False
    then have "longest_match path rs best = Some (pat, h)" using Cons.prems(1) unfolding r longest_match.simps by (simp only: if_False)
    then show ?thesis using Cons.IH [of best] Cons.prems(2,3) by auto
  qed
qed

lemma mux_served:
  assumes "mux_Handler rs path = Serve h"
  shows "\<exists>pat. (pat, h) \<in> set rs \<and> pattern_matches pat path"
proof -
  obtain pat where m: "longest_match path rs None = Some (pat, h)"
    using assms by (auto simp: mux_Handler_def split: option.splits if_splits)
  have "(pat, h) \<in> set rs \<and> pattern_matches pat path"
    by (rule longest_match_in [OF m, where Q = "\<lambda>(p, k). (p, k) \<in> set rs \<and> pattern_matches p path", simplified])
  then show ?thesis by blast
qed

lemma pattern_matches_prefix: "pattern_matches pat path \<Longrightarrow> prefix pat path"
  by (simp add: pattern_matches_def split: if_splits)

lemma pattern_matches_self: "pattern_matches path path"
  by (simp add: pattern_matches_def)

lemma longest_match_max:
  "best = Some b \<or> (p, k) \<in> set rs \<and> pattern_matches p path \<and> b = (p, k) \<Longrightarrow>
   \<exists>r. longest_match path rs best = Some r \<and> length (fst b) \<le> length (fst r)"
proof (induction rs arbitrary: best b)
  case Nil
  then show ?case by simp
next
  case (Cons x rs)
  obtain q h where x: "x = (q, h)" by (cases x)
  let ?take = "pattern_matches q path \<and> (case best of None \<Rightarrow> True | Some (c, _) \<Rightarrow> length c < length q)"
  define best' where "best' = (if ?take then Some (q, h) else best)"
  have step: "longest_match path (x # rs) best = longest_match path rs best'"
    unfolding x longest_match.simps best'_def by (rule if_distrib [symmetric])
  have mono: "\<exists>c. best' = Some c \<and> length (fst b) \<le> length (fst c)" if "best = Some b \<or> pattern_matches q path \<and> b = (q, h)"
    using that by (cases best) (auto simp: best'_def)
  show ?case
  proof (cases "best = Some b \<or> pattern_matches q path \<and> b = (q, h)")
    case True
    then obtain c where c: "best' = Some c" "length (fst b) \<le> length (fst c)" using mono by blast
    then obtain r where "longest_match path rs best' = Some r" "length (fst c) \<le> length (fst r)" using Cons.IH [of best' c] by blast
    with c step show ?thesis by (intro exI [of _ r]) simp
  next
    case False
    then have "(p, k) \<in> set rs \<and> pattern_matches p path \<and> b = (p, k)" using Cons.prems x by auto
    then show ?thesis unfolding step by (intro Cons.IH) blast
  qed
qed

lemma mux_exact:
  assumes "(path, h) \<in> set rs" "distinct (map fst rs)"
  shows "mux_Handler rs path = Serve h"
proof -
  obtain pat k where r: "longest_match path rs None = Some (pat, k)" "length path \<le> length pat"
    using longest_match_max [of None "(path, h)" path h rs path] assms(1) pattern_matches_self by (metis fst_conv surj_pair)
  have m: "(pat, k) \<in> set rs \<and> pattern_matches pat path"
    by (rule longest_match_in [OF r(1), where Q = "\<lambda>(p, k). (p, k) \<in> set rs \<and> pattern_matches p path", simplified])
  then have "pat = path" using r(2) pattern_matches_prefix prefix_length_le prefix_order.antisym
    by (metis append_eq_conv_conj prefixE le_antisym take_all_iff)
  then have "k = h" using m assms eq_key_imp_eq_value by metis
  then show ?thesis using r(1) \<open>pat = path\<close> by (simp add: mux_Handler_def)
qed

lemma routes_distinct: "distinct (map fst (NewHTTPServer getenv dash app))"
  by (cases "Server_RaftStore app = None"; cases "getenv ''MINIMODAL_PPROF'' = ''1''") (simp_all add: NewHTTPServer_def)

lemma raft_routes:
  "(pat, RaftJoin_h) \<in> set (NewHTTPServer getenv dash app) \<longleftrightarrow> Server_RaftStore app \<noteq> None \<and> pat = ''/raft/join''"
  "(pat, RaftStatus_h) \<in> set (NewHTTPServer getenv dash app) \<longleftrightarrow> Server_RaftStore app \<noteq> None \<and> pat = ''/raft/status''"
  by (simp_all add: NewHTTPServer_def)

lemma pprof_routes:
  "(pat, Pprof_h n) \<in> set (NewHTTPServer getenv dash app) \<Longrightarrow> getenv ''MINIMODAL_PPROF'' = ''1'' \<and> prefix ''/debug/pprof/'' pat"
  by (simp add: NewHTTPServer_def split: if_splits) (elim disjE conjE; simp)+

section \<open>Properties\<close>

text \<open>
  What the HTTP port exposes. Metrics and health are always served; the raft
  endpoints are served at their paths when the store is a raft store and nowhere otherwise;
  a profiling handler is only ever reached below its prefix and with profiling switched on.
\<close>
theorem http_surface:
  assumes "rs = NewHTTPServer getenv dash app"
  shows "mux_Handler rs ''/metrics'' = Serve Metrics_h \<and> mux_Handler rs ''/healthz'' = Serve Healthz_h \<and>
    (mux_Handler rs path = Serve RaftJoin_h \<longleftrightarrow> Server_RaftStore app \<noteq> None \<and> path = ''/raft/join'') \<and>
    (mux_Handler rs path = Serve RaftStatus_h \<longleftrightarrow> Server_RaftStore app \<noteq> None \<and> path = ''/raft/status'') \<and>
    (mux_Handler rs path = Serve (Pprof_h n) \<longrightarrow> getenv ''MINIMODAL_PPROF'' = ''1'' \<and> prefix ''/debug/pprof/'' path)"
proof (intro conjI impI iffI)
  note d = routes_distinct [of getenv dash app]
  show "mux_Handler rs ''/metrics'' = Serve Metrics_h" "mux_Handler rs ''/healthz'' = Serve Healthz_h"
    unfolding assms by (rule mux_exact [OF _ d], simp add: NewHTTPServer_def)+
  show "mux_Handler rs path = Serve RaftJoin_h" if "Server_RaftStore app \<noteq> None \<and> path = ''/raft/join''"
    unfolding assms using that by (intro mux_exact [OF _ d] raft_routes [THEN iffD2])
  show "mux_Handler rs path = Serve RaftStatus_h" if "Server_RaftStore app \<noteq> None \<and> path = ''/raft/status''"
    unfolding assms using that by (intro mux_exact [OF _ d] raft_routes [THEN iffD2])
  have served: "\<exists>pat. (pat, h) \<in> set (NewHTTPServer getenv dash app) \<and> pattern_matches pat path" if "mux_Handler rs path = Serve h" for h
    using mux_served [OF that] assms by simp
  show "Server_RaftStore app \<noteq> None" "path = ''/raft/join''" if "mux_Handler rs path = Serve RaftJoin_h"
    using served [OF that] by (auto simp: raft_routes pattern_matches_def subtree_def)
  show "Server_RaftStore app \<noteq> None" "path = ''/raft/status''" if "mux_Handler rs path = Serve RaftStatus_h"
    using served [OF that] by (auto simp: raft_routes pattern_matches_def subtree_def)
  show "getenv ''MINIMODAL_PPROF'' = ''1''" "prefix ''/debug/pprof/'' path" if "mux_Handler rs path = Serve (Pprof_h n)"
    using served [OF that] pprof_routes pattern_matches_prefix prefix_order.trans by blast+
qed

theorem http_surface_witness:
  "mux_Handler (NewHTTPServer (\<lambda>_. []) [] (NewServerWithStore 1 demo_config (Bolt demo_db :: (mem_db, nat) any_store))) ''/metrics'' = Serve Metrics_h"
  by (rule http_surface [OF refl, THEN conjunct1])

text \<open>
  C31: a new node gets into the cluster. A node that posts its identity to the join
  endpoint of a raft server is answered 409 as long as that server does not lead, with the
  leader's address in the error and nothing changed; from the first request that finds it
  leading and the voter accepted it has joined, if that is among its 30 requests, and that
  request handed exactly its ID and address to raft.
\<close>
theorem join_protocol:
  assumes "\<And>k. jobStore (apps k) = Raft (node k)" "RaftID c \<noteq> []" "RaftBind c \<noteq> []"
    and "\<And>k. 0 < k \<Longrightarrow> k < m \<Longrightarrow> \<not> IsLeader R (node k)" "IsLeader R (node m)" "0 < m" "m \<le> 30"
    and "raft_AddVoter R (raft (node m)) (RaftID c) (RaftBind c) = (r', None)"
    and "\<And>k. reply k = handleRaftJoin R ''POST'' (Some (RaftID c, RaftBind c)) (apps k)"
  shows "(\<exists>slept. joinRaftCluster (\<lambda>k. case reply k of None \<Rightarrow> PostFailed (Text ''EOF'') | Some (_, resp) \<Rightarrow> StatusCode (http_Code resp)) = (True, m, slept)) \<and>
    (\<forall>k. 0 < k \<and> k < m \<longrightarrow> reply k = Some (apps k, \<lparr>http_Code = 409, http_Header = [(''Content-Type'', ''application/json'')],
       http_Body = BErrorJson (err_Error (notLeaderErr R (raft (node k))))\<rparr>)) \<and>
    reply m = Some ((apps m)\<lparr>jobStore := Raft ((node m)\<lparr>raft := r'\<rparr>)\<rparr>, \<lparr>http_Code = 204, http_Header = [], http_Body = BEmpty\<rparr>)"
proof -
  let ?post = "\<lambda>k. case reply k of None \<Rightarrow> PostFailed (Text ''EOF'') | Some (_, resp) \<Rightarrow> StatusCode (http_Code resp)"
  have same: "(apps k)\<lparr>jobStore := Raft (node k)\<rparr> = apps k" for k using assms(1) [of k] by (cases "apps k") simp
  have before: "reply k = Some (apps k, \<lparr>http_Code = 409, http_Header = [(''Content-Type'', ''application/json'')],
       http_Body = BErrorJson (err_Error (notLeaderErr R (raft (node k))))\<rparr>)" if "0 < k" "k < m" for k
    using assms(4) [OF that] assms(1) [of k] assms(2,3) same [of k]
    by (simp add: assms(9) handleRaftJoin_def Server_RaftStore_def Join_def)
  have last: "reply m = Some ((apps m)\<lparr>jobStore := Raft ((node m)\<lparr>raft := r'\<rparr>)\<rparr>, \<lparr>http_Code = 204, http_Header = [], http_Body = BEmpty\<rparr>)"
    using assms(1) [of m] assms(2,3,5,8) by (simp add: assms(9) handleRaftJoin_def Server_RaftStore_def Join_def)
  obtain ok n slept where j: "joinRaftCluster ?post = (ok, n, slept)" by (rule prod_cases3)
  have "join_loop ?post 0 30 (join_wait 0) (map join_wait [0..<0]) = (ok, n, slept)"
    using j by (simp add: joinRaftCluster_def join_wait_def del: join_loop.simps)
  note J = join_loop_spec [OF this]
  have no: "?post k \<noteq> StatusCode 204" if "0 < k" "k < m" for k using before [OF that] by simp
  have yes: "?post m = StatusCode 204" using last by simp
  have "ok \<and> n = m"
  proof (cases ok)
    case False
    then have "n = 30" using J by simp
    then have "?post m \<noteq> StatusCode 204" using J False assms(6,7) by auto
    with yes show ?thesis by simp
  next
    case True
    then have n: "0 < n" "?post n = StatusCode 204" "\<forall>k. 0 < k \<and> k < n \<longrightarrow> ?post k \<noteq> StatusCode 204" using J by auto
    have "\<not> n < m" using n(1,2) no by blast
    moreover have "\<not> m < n" using n(3) assms(6) yes by blast
    ultimately show ?thesis using True by simp
  qed
  then have "joinRaftCluster ?post = (True, m, slept)" using j by simp
  then show ?thesis using before last by (intro conjI allI impI exI) simp_all
qed

definition demo_follower :: "nat raft_api" where
  "demo_follower = \<lparr>raft_State = (\<lambda>n. if n = 0 then Follower else Leader), raft_LeaderWithID = (\<lambda>_. (''a'', ''n1'')),
     raft_Apply = (\<lambda>n b. (n, [], Applied)), raft_AddVoter = (\<lambda>n i a. (n + 1, None)), raft_Shutdown = (\<lambda>n. (n, None))\<rparr>"

theorem join_protocol_witness:
  "\<exists>slept. joinRaftCluster (\<lambda>k. case handleRaftJoin demo_follower ''POST'' (Some (''n2'', ''b:7000''))
       (NewServerWithStore 1 demo_config (Raft \<lparr>raft = if k < 2 then 0 else 1, inner = demo_db\<rparr>)) of
     None \<Rightarrow> PostFailed (Text ''EOF'') | Some (_, resp) \<Rightarrow> StatusCode (http_Code resp)) = (True, 2, slept)"
proof -
  let ?c = "demo_config\<lparr>RaftID := ''n2'', RaftBind := ''b:7000''\<rparr>"
  let ?node = "\<lambda>k :: nat. \<lparr>raft = if k < 2 then 0 else 1, inner = demo_db\<rparr>"
  let ?apps = "\<lambda>k. NewServerWithStore 1 demo_config (Raft (?node k))"
  have "jobStore (?apps k) = Raft (?node k)" for k by (simp add: NewServerWithStore_def Let_def)
  from join_protocol [where apps = ?apps and node = ?node and c = ?c and R = demo_follower and m = 2 and r' = 2
      and reply = "\<lambda>k. handleRaftJoin demo_follower ''POST'' (Some (RaftID ?c, RaftBind ?c)) (?apps k)", OF this]
  show ?thesis by (simp add: IsLeader_def demo_follower_def)
qed

section \<open>The bolt mode serves\<close>

definition any_abs :: "'db bolt_api \<Rightarrow> ('db, 'r) any_store \<Rightarrow> abs_store" where
  "any_abs B st = (case st of Bolt db \<Rightarrow> store_abs B db | Raft n \<Rightarrow> store_abs B (inner n))"

definition any_wf :: "'db bolt_api \<Rightarrow> ('db, 'r) any_store \<Rightarrow> bool" where
  "any_wf B st = (case st of Bolt db \<Rightarrow> store_wf B db | Raft n \<Rightarrow> False)"

lemma any_simps [simp]: "any_abs B (Bolt db) = store_abs B db" "any_wf B (Bolt db) = store_wf B db" "\<not> any_wf B (Raft n)"
  by (simp_all add: any_abs_def any_wf_def)

lemma any_wfE: "any_wf B st \<Longrightarrow> (\<And>db. st = Bolt db \<Longrightarrow> store_wf B db \<Longrightarrow> P) \<Longrightarrow> P"
  by (cases st) auto

lemma any_Store_simps:
  "GetJob (any_Store R B) i (Bolt db) = GetJob (BoltStore B) i db"
  "ListUnfinished (any_Store R B) (Bolt db) = ListUnfinished (BoltStore B) db"
  "ListRunningOnWorker (any_Store R B) w (Bolt db) = ListRunningOnWorker (BoltStore B) w db"
  by (simp_all add: any_Store_def Let_def)

lemma any_Transition:
  "Transition (any_Store R B) now i f (Bolt db) = (st', x) \<longleftrightarrow> (\<exists>db'. Transition (BoltStore B) now i f db = (db', x) \<and> st' = Bolt db')"
  by (cases "Transition (BoltStore B) now i f db") (auto simp: any_Store_def Let_def)

lemma any_Submit:
  "SubmitWithIdempotency (any_Store R B) now rec k (Bolt db) = (st', x) \<longleftrightarrow>
    (\<exists>db'. SubmitWithIdempotency (BoltStore B) now rec k db = (db', x) \<and> st' = Bolt db')"
  by (cases "SubmitWithIdempotency (BoltStore B) now rec k db") (auto simp: any_Store_def Let_def)

lemma any_PutJob:
  "PutJob (any_Store R B) now rec (Bolt db) = (st', x) \<longleftrightarrow> (\<exists>db'. PutJob (BoltStore B) now rec db = (db', x) \<and> st' = Bolt db')"
  by (cases "PutJob (BoltStore B) now rec db") (auto simp: any_Store_def Let_def)

lemma any_fallible:
  assumes "bolt_db B"
  shows "fallible_store (any_Store R B) (any_abs B) (any_wf B)"
proof (unfold_locales, goal_cases)
  note S = bolt_db.BoltStore_fallible [OF assms]
  {
    case 1 then show ?case using fallible_store.abs_finite [OF S] by (auto elim!: any_wfE)
  next
    case 2 then show ?case using fallible_store.abs_ID [OF S] by (auto elim!: any_wfE)
  next
    case 3 then show ?case using fallible_store.GetJob_fallible [OF S] by (auto simp: any_Store_simps elim!: any_wfE)
  next
    case (4 st f now i st' c e runs)
    from 4(1) obtain db where db: "st = Bolt db" "store_wf B db" by (rule any_wfE)
    from 4(3) obtain db' where t: "Transition (BoltStore B) now i f db = (db', c, e, runs)" "st' = Bolt db'"
      unfolding db(1) any_Transition by blast
    from fallible_store.Transition_fallible [OF S db(2) 4(2) t(1)] show ?case unfolding db(1) t(2) any_simps .
  next
    case (5 st now rec key st' i c e)
    from 5(1) obtain db where db: "st = Bolt db" "store_wf B db" by (rule any_wfE)
    from 5(2) obtain db' where t: "SubmitWithIdempotency (BoltStore B) now rec key db = (db', i, c, e)" "st' = Bolt db'"
      unfolding db(1) any_Submit by blast
    from fallible_store.Submit_fallible [OF S db(2) t(1)] show ?case unfolding db(1) t(2) any_simps .
  next
    case (6 st now rec st' e)
    from 6(1) obtain db where db: "st = Bolt db" "store_wf B db" by (rule any_wfE)
    from 6(2) obtain db' where t: "PutJob (BoltStore B) now rec db = (db', e)" "st' = Bolt db'"
      unfolding db(1) any_PutJob by blast
    from fallible_store.PutJob_fallible [OF S db(2) t(1)] show ?case unfolding db(1) t(2) any_simps .
  next
    case 7 then show ?case using fallible_store.ListUnfinished_fallible [OF S] by (auto simp: any_Store_simps elim!: any_wfE)
  next
    case 8 then show ?case using fallible_store.ListRunningOnWorker_fallible [OF S] by (auto simp: any_Store_simps elim!: any_wfE)
  }
qed

lemma any_reliable:
  assumes "bolt_live B"
  shows "reliable_store (any_Store R B) (any_abs B) (any_wf B)"
proof (rule reliable_store.intro, goal_cases)
  have "bolt_db B" using assms by (simp add: bolt_live_def)
  case 1 show ?case by (rule any_fallible) fact
next
  note S = bolt_live.BoltStore_reliable [OF assms]
  case 2
  show ?case
  proof (unfold_locales, goal_cases)
    case 1 then show ?case using reliable_store.GetJob_reliable [OF S] by (auto simp: any_Store_simps elim!: any_wfE)
  next
    case (2 st f now i st' c e runs)
    from 2(1) obtain db where db: "st = Bolt db" "store_wf B db" by (rule any_wfE)
    from 2(4) obtain db' where t: "Transition (BoltStore B) now i f db = (db', c, e, runs)" "st' = Bolt db'"
      unfolding db(1) any_Transition by blast
    from reliable_store.Transition_reliable [OF S db(2) 2(2,3) t(1)] show ?case unfolding db(1) t(2) any_simps .
  next
    case (3 st now rec key st' i c e)
    from 3(1) obtain db where db: "st = Bolt db" "store_wf B db" by (rule any_wfE)
    from 3(7) obtain db' where t: "SubmitWithIdempotency (BoltStore B) now rec key db = (db', i, c, e)" "st' = Bolt db'"
      unfolding db(1) any_Submit by blast
    from reliable_store.Submit_reliable [OF S db(2) 3(2-6) t(1)] show ?case unfolding db(1) t(2) any_simps .
  next
    case 4 then show ?case using reliable_store.ListUnfinished_reliable [OF S] by (auto simp: any_Store_simps elim!: any_wfE)
  next
    case 5 then show ?case using reliable_store.ListRunningOnWorker_reliable [OF S] by (auto simp: any_Store_simps elim!: any_wfE)
  qed
qed

lemma any_served: "bolt_db B \<Longrightarrow> served (any_Store R B) (any_abs B) (any_wf B)"
  by (rule served.intro) (rule any_fallible)

lemma any_live_server: "bolt_live B \<Longrightarrow> live_server (any_Store R B) (any_abs B) (any_wf B)"
  by (intro live_server.intro live_server_axioms.intro any_served any_reliable) (simp_all add: bolt_live_def)

end
