(* ===== verification/Launcher.thy ===== *)
theory Launcher
  imports Prelude
begin

text \<open>
  The \<open>Launcher\<close> interface of \<open>autoscaler.go\<close> and its production implementation
  \<open>ProcessLauncher\<close> of \<open>launcher.go\<close>. An operation answers \<open>None\<close> when it does not
  return. The locale \<open>launcher\<close> states what a client relies on.

  A \<open>*workerProc\<close> is an address of \<open>heap\<close>: the pointer comparison of the reaper
  goroutine is equality of addresses. A \<open>workerProc\<close> carries what its goroutines captured
  (the worker ID), whether \<open>done\<close> is closed, whether the reaper has finished, how many
  grace-period goroutines of \<open>StopWorker\<close> still wait, and the signals its process was
  sent. Starting a process is the operating system's: \<open>start\<close> is its answer. What runs
  concurrently with the launcher's methods is the step relation \<open>launcher_step\<close>.
\<close>

section \<open>The interface\<close>

record 'l Launcher =
  LaunchWorker :: "string \<Rightarrow> 'l \<Rightarrow> ('l \<times> go_error option) option"
  StopWorker :: "string \<Rightarrow> 'l \<Rightarrow> 'l \<times> go_error option"
  StopAll :: "'l \<Rightarrow> 'l option"

text \<open>
  \<open>running\<close>: the workers that were launched and have not gone away; \<open>told\<close>: those of
  them that were asked to stop; \<open>moves\<close>: what happens to the launcher between two calls.
\<close>

locale launcher =
  fixes L :: "'l Launcher" and running :: "'l \<Rightarrow> string set" and told :: "'l \<Rightarrow> string set"
    and ok :: "'l \<Rightarrow> bool" and moves :: "'l \<Rightarrow> 'l \<Rightarrow> bool"
  assumes LaunchWorker_started: "ok l \<Longrightarrow> LaunchWorker L i l = Some (l', None) \<Longrightarrow>
      ok l' \<and> i \<notin> running l \<and> running l' = insert i (running l) \<and> told l' = told l"
    and LaunchWorker_refused: "ok l \<Longrightarrow> LaunchWorker L i l = Some (l', Some e) \<Longrightarrow>
      ok l' \<and> running l' = running l \<and> told l' = told l"
    and StopWorker_tells: "ok l \<Longrightarrow> StopWorker L i l = (l', err) \<Longrightarrow>
      err = None \<and> ok l' \<and> running l' = running l \<and> told l' = told l \<union> ({i} \<inter> running l)"
    and told_running: "ok l \<Longrightarrow> told l \<subseteq> running l"
    and moves_ok: "ok l \<Longrightarrow> moves l l' \<Longrightarrow> ok l' \<and> running l' \<subseteq> running l \<and> told l \<inter> running l' \<subseteq> told l' \<and> told l' \<subseteq> told l"

section \<open>The process launcher\<close>

datatype signal = SIGTERM | SIGKILL

record exec_Cmd =
  cmd_Path :: string
  cmd_Args :: "string list"
  cmd_Dir :: string
  cmd_Env :: "string list"

record workerProc =
  worker :: string
  cmd :: exec_Cmd
  port :: int64
  done_closed :: bool
  reaped :: bool
  graces :: nat
  signals :: "signal list"

record ProcessLauncher =
  argv :: "string list"
  workDir :: string
  orchAddr :: string
  basePort :: int64
  stopGrace :: duration
  procs :: "string \<rightharpoonup> nat"
  ports :: "int64 set"
  heap :: "nat \<rightharpoonup> workerProc"
  next_proc :: nat

definition NewProcessLauncher :: "string list \<Rightarrow> string \<Rightarrow> string \<Rightarrow> int64 \<Rightarrow> ProcessLauncher" where
  "NewProcessLauncher args dir addr base =
     \<lparr>argv = args, workDir = dir, orchAddr = addr, basePort = base, stopGrace = 5 * Second,
      procs = Map.empty, ports = {}, heap = Map.empty, next_proc = 0\<rparr>"

text \<open>
  The search for a free port. One more step than there are leases is enough unless every
  port number is leased, and then the loop of the code never ends.
\<close>

fun lease_loop :: "nat \<Rightarrow> int64 set \<Rightarrow> int64 \<Rightarrow> int64 option" where
  "lease_loop 0 leased p = None"
| "lease_loop (Suc n) leased p = (if p \<in> leased then lease_loop n leased (p + 1) else Some p)"

definition leasePortLocked :: "ProcessLauncher \<Rightarrow> (ProcessLauncher \<times> int64) option" where
  "leasePortLocked l =
     map_option (\<lambda>p. (l\<lparr>ports := insert p (ports l)\<rparr>, p)) (lease_loop (Suc (card (ports l))) (ports l) (basePort l))"

definition worker_cmd :: "string list \<Rightarrow> string \<Rightarrow> int64 \<Rightarrow> ProcessLauncher \<Rightarrow> exec_Cmd" where
  "worker_cmd environ i p l =
     \<lparr>cmd_Path = hd (argv l), cmd_Args = tl (argv l), cmd_Dir = workDir l,
      cmd_Env = environ @ [''WORKER_ID='' @ i, ''WORKER_PORT='' @ show_int (sint p),
        ''ORCH_ADDR='' @ orchAddr l, ''WORKER_ADVERTISE_HOST=127.0.0.1'']\<rparr>"

text \<open>\<open>l.argv[0]\<close> of an empty command panics.\<close>

definition Process_LaunchWorker ::
  "string list \<Rightarrow> (exec_Cmd \<Rightarrow> go_error option) \<Rightarrow> string \<Rightarrow> ProcessLauncher \<Rightarrow> (ProcessLauncher \<times> go_error option) option" where
  "Process_LaunchWorker environ start i l =
     (if procs l i \<noteq> None then Some (l, Some (Text (''worker '' @ i @ '' already running'')))
      else case leasePortLocked l of
        None \<Rightarrow> None
      | Some (l1, p) \<Rightarrow>
          (if argv l = [] then None
           else let c = worker_cmd environ i p l
                in case start c of
                     Some e \<Rightarrow> Some (l1\<lparr>ports := ports l1 - {p}\<rparr>, Some (Wrapf (''start worker '' @ i @ '': '') e []))
                   | None \<Rightarrow>
                       Some (l1\<lparr>procs := (procs l1)(i \<mapsto> next_proc l1),
                             heap := (heap l1)(next_proc l1 \<mapsto> \<lparr>worker = i, cmd = c, port = p, done_closed = False,
                               reaped = False, graces = 0, signals = []\<rparr>),
                             next_proc := Suc (next_proc l1)\<rparr>, None)))"

definition at_proc :: "nat \<Rightarrow> (workerProc \<Rightarrow> workerProc) \<Rightarrow> ProcessLauncher \<Rightarrow> ProcessLauncher" where
  "at_proc p f l = l\<lparr>heap := (heap l)(p := map_option f (heap l p))\<rparr>"

text \<open>The reaper goroutine: \<open>cmd.Wait\<close> returns and \<open>done\<close> is closed; then, under the lock, the bookkeeping.\<close>

definition proc_exits :: "nat \<Rightarrow> ProcessLauncher \<Rightarrow> ProcessLauncher" where
  "proc_exits p l = at_proc p (\<lambda>w. w\<lparr>done_closed := True\<rparr>) l"

definition reap_proc :: "nat \<Rightarrow> ProcessLauncher \<Rightarrow> ProcessLauncher" where
  "reap_proc p l =
     (case heap l p of
        Some w \<Rightarrow>
          (if done_closed w \<and> \<not> reaped w
           then (at_proc p (\<lambda>w. w\<lparr>reaped := True\<rparr>) l)
             \<lparr>ports := ports l - {port w},
              procs := (if procs l (worker w) = Some p then (procs l)(worker w := None) else procs l)\<rparr>
           else l)
      | None \<Rightarrow> l)"

definition send_signal :: "signal \<Rightarrow> nat \<Rightarrow> ProcessLauncher \<Rightarrow> ProcessLauncher" where
  "send_signal sg p l = at_proc p (\<lambda>w. w\<lparr>signals := signals w @ [sg]\<rparr>) l"

definition Process_StopWorker :: "string \<Rightarrow> ProcessLauncher \<Rightarrow> ProcessLauncher \<times> go_error option" where
  "Process_StopWorker i l =
     (case procs l i of
        None \<Rightarrow> (l, None)
      | Some p \<Rightarrow> (at_proc p (\<lambda>w. w\<lparr>graces := Suc (graces w)\<rparr>) (send_signal SIGTERM p l), None))"

text \<open>A grace-period goroutine ends: the process is killed unless \<open>done\<close> was closed first.\<close>

definition grace_over :: "nat \<Rightarrow> ProcessLauncher \<Rightarrow> ProcessLauncher" where
  "grace_over p l =
     (case heap l p of
        Some w \<Rightarrow>
          (if graces w = 0 then l
           else let l1 = at_proc p (\<lambda>w. w\<lparr>graces := graces w - 1\<rparr>) l
                in if done_closed w then l1 else send_signal SIGKILL p l1)
      | None \<Rightarrow> l)"

text \<open>
  \<open>StopAll\<close> waits for one process after the other. \<open>during p\<close> is what happens while it
  waits for process \<open>p\<close> within the grace period, \<open>killed p\<close> what happens after the kill.
\<close>

definition is_done :: "nat \<Rightarrow> ProcessLauncher \<Rightarrow> bool" where
  "is_done p l \<longleftrightarrow> (case heap l p of Some w \<Rightarrow> done_closed w | None \<Rightarrow> False)"

fun stop_all_loop ::
  "(nat \<Rightarrow> ProcessLauncher \<Rightarrow> ProcessLauncher) \<Rightarrow> (nat \<Rightarrow> ProcessLauncher \<Rightarrow> ProcessLauncher) \<Rightarrow>
   nat list \<Rightarrow> ProcessLauncher \<Rightarrow> ProcessLauncher option" where
  "stop_all_loop during killed [] l = Some l"
| "stop_all_loop during killed (p # ps) l =
     (let l1 = during p (send_signal SIGTERM p l)
      in if is_done p l1 then stop_all_loop during killed ps l1
         else let l2 = killed p (send_signal SIGKILL p l1)
              in if is_done p l2 then stop_all_loop during killed ps l2 else None)"

definition Process_StopAll ::
  "(nat \<Rightarrow> ProcessLauncher \<Rightarrow> ProcessLauncher) \<Rightarrow> (nat \<Rightarrow> ProcessLauncher \<Rightarrow> ProcessLauncher) \<Rightarrow>
   string list \<Rightarrow> ProcessLauncher \<Rightarrow> ProcessLauncher option" where
  "Process_StopAll during killed ks l = stop_all_loop during killed (map (\<lambda>k. the (procs l k)) ks) l"

text \<open>The interface on processes; \<open>order\<close> is the order in which \<open>StopAll\<close> ranges over the map.\<close>

definition process_ops ::
  "string list \<Rightarrow> (exec_Cmd \<Rightarrow> go_error option) \<Rightarrow> (nat \<Rightarrow> ProcessLauncher \<Rightarrow> ProcessLauncher) \<Rightarrow>
   (nat \<Rightarrow> ProcessLauncher \<Rightarrow> ProcessLauncher) \<Rightarrow> ((string \<rightharpoonup> nat) \<Rightarrow> string list) \<Rightarrow> ProcessLauncher Launcher" where
  "process_ops environ start during killed order =
     \<lparr>LaunchWorker = Process_LaunchWorker environ start, StopWorker = Process_StopWorker,
      StopAll = (\<lambda>l. Process_StopAll during killed (order (procs l)) l)\<rparr>"

section \<open>Steps of the launcher\<close>

inductive launcher_step :: "ProcessLauncher \<Rightarrow> ProcessLauncher \<Rightarrow> bool" where
  exits: "launcher_step l (proc_exits p l)"
| reaps: "launcher_step l (reap_proc p l)"
| grace: "launcher_step l (grace_over p l)"

inductive launcher_run :: "ProcessLauncher \<Rightarrow> ProcessLauncher \<Rightarrow> bool" where
  stay: "launcher_run l l"
| step: "launcher_run l l1 \<Longrightarrow> launcher_step l1 l2 \<Longrightarrow> launcher_run l l2"
| launch: "launcher_run l l1 \<Longrightarrow> Process_LaunchWorker environ start i l1 = Some (l2, e) \<Longrightarrow> launcher_run l l2"
| stop: "launcher_run l l1 \<Longrightarrow> Process_StopWorker i l1 = (l2, e) \<Longrightarrow> launcher_run l l2"
| signalled: "launcher_run l l1 \<Longrightarrow> launcher_run l (send_signal sg p l1)"

section \<open>Ports\<close>

lemma lease_loop_some:
  "lease_loop n leased p = Some q \<Longrightarrow> q \<notin> leased \<and> (\<exists>k < n. q = p + of_nat k \<and> (\<forall>j < k. p + of_nat j \<in> leased))"
proof (induction n arbitrary: p)
  case 0
  then show ?case by simp
next
  case (Suc n)
  show ?case
  proof (cases "p \<in> leased")
    case False
    with Suc.prems show ?thesis by auto
  next
    case True
    with Suc.prems have "lease_loop n leased (p + 1) = Some q" by simp
    from Suc.IH [OF this] obtain k where k: "q \<notin> leased" "k < n" "q = p + 1 + of_nat k" "\<forall>j < k. p + 1 + of_nat j \<in> leased"
      by blast
    have "p + of_nat j \<in> leased" if "j < Suc k" for j
      using that True k(4) by (cases j) (auto simp: add.assoc)
    with k show ?thesis by (intro conjI exI [where x = "Suc k"]) (auto simp: add.assoc)
  qed
qed

lemma lease_loop_none: "lease_loop n leased p = None \<Longrightarrow> k < n \<Longrightarrow> p + of_nat k \<in> leased"
proof (induction n arbitrary: p k)
  case 0
  then show ?case by simp
next
  case (Suc n)
  then have "p \<in> leased" "lease_loop n leased (p + 1) = None" by (auto split: if_splits)
  with Suc.IH [of "p + 1" "k - 1"] Suc.prems(2) show ?case by (cases k) (auto simp: add.assoc)
qed

text \<open>Fewer leases than port numbers: the loop finds a free one within its fuel.\<close>

lemma lease_loop_finds:
  assumes "(leased :: int64 set) \<noteq> UNIV"
  shows "\<exists>q. lease_loop (Suc (card leased)) leased p = Some q"
proof (rule ccontr)
  assume "\<not> ?thesis"
  then have all: "p + of_nat k \<in> leased" if "k < Suc (card leased)" for k
    using lease_loop_none [OF _ that] by (cases "lease_loop (Suc (card leased)) leased p") auto
  have "card leased < card (UNIV :: int64 set)" using assms by (intro psubset_card_mono) auto
  then have less: "card leased < 2 ^ 64" by (simp add: card_word)
  have "inj_on (\<lambda>k. p + of_nat k :: int64) {..card leased}"
  proof (rule inj_onI)
    fix x y assume "x \<in> {..card leased}" "y \<in> {..card leased}" "p + of_nat x = p + (of_nat y :: int64)"
    then have "x < 2 ^ LENGTH(64)" "y < 2 ^ LENGTH(64)" "of_nat x = (of_nat y :: int64)" using less by auto
    then show "x = y" by (metis take_bit_nat_eq_self word_of_nat_eq_iff)
  qed
  then have "card ((\<lambda>k. p + of_nat k :: int64) ` {..card leased}) = Suc (card leased)" by (simp add: card_image)
  moreover have "(\<lambda>k. p + of_nat k :: int64) ` {..card leased} \<subseteq> leased" using all by auto
  ultimately show False using card_mono [of leased "(\<lambda>k. p + of_nat k) ` {..card leased}"] by simp
qed

section \<open>The invariant\<close>

text \<open>
  The processes whose reaper has not finished are exactly those of the map, and the leased
  ports are exactly theirs, one each.
\<close>

definition live :: "ProcessLauncher \<Rightarrow> nat \<Rightarrow> workerProc \<Rightarrow> bool" where
  "live l p w \<longleftrightarrow> heap l p = Some w \<and> \<not> reaped w"

definition launcher_ok :: "ProcessLauncher \<Rightarrow> bool" where
  "launcher_ok l \<longleftrightarrow>
     (\<forall>p w. heap l p = Some w \<longrightarrow> p < next_proc l) \<and>
     (\<forall>i p. procs l i = Some p \<longleftrightarrow> (\<exists>w. live l p w \<and> worker w = i)) \<and>
     (\<forall>n. n \<in> ports l \<longleftrightarrow> (\<exists>p w. live l p w \<and> port w = n)) \<and>
     (\<forall>p w p' w'. live l p w \<longrightarrow> live l p' w' \<longrightarrow> port w = port w' \<longrightarrow> p = p')"

lemma launcher_okD:
  assumes "launcher_ok l"
  shows "heap l p = Some w \<Longrightarrow> p < next_proc l"
    "procs l i = Some p \<longleftrightarrow> (\<exists>w. live l p w \<and> worker w = i)"
    "n \<in> ports l \<longleftrightarrow> (\<exists>p w. live l p w \<and> port w = n)"
    "live l p w \<Longrightarrow> live l p' w' \<Longrightarrow> port w = port w' \<Longrightarrow> p = p'"
  using assms unfolding launcher_ok_def by blast+

lemma launcher_okI:
  assumes "\<And>p w. heap l p = Some w \<Longrightarrow> p < next_proc l"
    and "\<And>i p. procs l i = Some p \<longleftrightarrow> (\<exists>w. live l p w \<and> worker w = i)"
    and "\<And>n. n \<in> ports l \<longleftrightarrow> (\<exists>p w. live l p w \<and> port w = n)"
    and "\<And>p w p' w'. live l p w \<Longrightarrow> live l p' w' \<Longrightarrow> port w = port w' \<Longrightarrow> p = p'"
  shows "launcher_ok l"
  unfolding launcher_ok_def using assms by blast

lemma NewProcessLauncher_ok: "launcher_ok (NewProcessLauncher args dir addr base)"
  by (simp add: launcher_ok_def NewProcessLauncher_def live_def)

lemma at_proc_simps [simp]:
  "procs (at_proc p f l) = procs l" "ports (at_proc p f l) = ports l" "next_proc (at_proc p f l) = next_proc l"
  "argv (at_proc p f l) = argv l"
  "heap (at_proc p f l) q = (if q = p then map_option f (heap l p) else heap l q)"
  by (simp_all add: at_proc_def)

text \<open>An update of a process that keeps who it is and whether it was reaped.\<close>

lemma at_proc_ok:
  assumes "launcher_ok l" "\<And>w. worker (f w) = worker w \<and> port (f w) = port w \<and> reaped (f w) = reaped w"
  shows "launcher_ok (at_proc p f l)"
proof -
  have live: "live (at_proc p f l) q w \<longleftrightarrow> (\<exists>v. live l q v \<and> w = (if q = p then f v else v))" for q w
    using assms(2) by (auto simp: live_def)
  have same: "worker (if b then f v else v) = worker v" "port (if b then f v else v) = port v" for b v
    using assms(2) by auto
  note D = launcher_okD [OF assms(1)]
  show ?thesis
  proof (rule launcher_okI)
    show "q < next_proc (at_proc p f l)" if "heap (at_proc p f l) q = Some w" for q w
      using that D(1) by (auto split: if_splits)
    show "procs (at_proc p f l) i = Some q \<longleftrightarrow> (\<exists>w. live (at_proc p f l) q w \<and> worker w = i)" for i q
      unfolding live at_proc_simps D(2) using same(1) by metis
    show "n \<in> ports (at_proc p f l) \<longleftrightarrow> (\<exists>q w. live (at_proc p f l) q w \<and> port w = n)" for n
      unfolding live at_proc_simps D(3) using same(2) by metis
    show "q = q'" if "live (at_proc p f l) q w" "live (at_proc p f l) q' w'" "port w = port w'" for q q' w w'
      using that D(4) unfolding live by (metis same(2))
  qed
qed

lemma signal_ok: "launcher_ok l \<Longrightarrow> launcher_ok (send_signal sg p l)"
  unfolding send_signal_def by (rule at_proc_ok) auto

lemma exits_ok: "launcher_ok l \<Longrightarrow> launcher_ok (proc_exits p l)"
  unfolding proc_exits_def by (rule at_proc_ok) auto

lemma grace_ok: "launcher_ok l \<Longrightarrow> launcher_ok (grace_over p l)"
  unfolding grace_over_def Let_def
  by (auto split: option.splits intro!: signal_ok at_proc_ok)

lemma stop_ok: "launcher_ok l \<Longrightarrow> Process_StopWorker i l = (l', e) \<Longrightarrow> launcher_ok l'"
  unfolding Process_StopWorker_def by (auto split: option.splits intro!: signal_ok at_proc_ok)

lemma reap_ok:
  assumes "launcher_ok l"
  shows "launcher_ok (reap_proc p l)"
proof (cases "\<exists>w. heap l p = Some w \<and> done_closed w \<and> \<not> reaped w")
  case False
  then have "reap_proc p l = l" by (auto simp: reap_proc_def split: option.splits)
  with assms show ?thesis by simp
next
  case True
  then obtain w where w: "heap l p = Some w" "done_closed w" "\<not> reaped w" by blast
  note D = launcher_okD [OF assms]
  have lw: "live l p w" using w by (simp add: live_def)
  then have pr: "procs l (worker w) = Some p" using D(2) by blast
  have uniq: "live l p v \<Longrightarrow> v = w" for v using w by (simp add: live_def)
  have same: "live l q v \<Longrightarrow> worker v = worker w \<Longrightarrow> q = p" for q v
    using D(2) [of "worker w" q] pr by auto
  let ?l = "reap_proc p l"
  have l': "?l = (at_proc p (\<lambda>w. w\<lparr>reaped := True\<rparr>) l)\<lparr>ports := ports l - {port w}, procs := (procs l)(worker w := None)\<rparr>"
    using w pr by (simp add: reap_proc_def)
  have live: "live ?l q v \<longleftrightarrow> q \<noteq> p \<and> live l q v" for q v
    unfolding l' by (auto simp: live_def)
  have "procs ?l i = Some q \<longleftrightarrow> (\<exists>v. live ?l q v \<and> worker v = i)" for i q
  proof -
    have "procs ?l i = Some q \<longleftrightarrow> i \<noteq> worker w \<and> procs l i = Some q" unfolding l' by simp
    also have "\<dots> \<longleftrightarrow> (\<exists>v. live ?l q v \<and> worker v = i)"
      unfolding live D(2) using uniq same by blast
    finally show ?thesis .
  qed
  moreover have "n \<in> ports ?l \<longleftrightarrow> (\<exists>q v. live ?l q v \<and> port v = n)" for n
  proof -
    have "n \<in> ports ?l \<longleftrightarrow> n \<in> ports l \<and> n \<noteq> port w" unfolding l' by simp
    also have "\<dots> \<longleftrightarrow> (\<exists>q v. live ?l q v \<and> port v = n)" unfolding live D(3) by (metis D(4) lw uniq)
    finally show ?thesis .
  qed
  moreover have "q < next_proc ?l" if "heap ?l q = Some v" for q v
    using that D(1) w by (auto simp: l' split: if_splits)
  moreover have "a = b" if "live ?l a v" "live ?l b u" "port v = port u" for a b u v
    using that D(4) unfolding live by blast
  ultimately show ?thesis by (intro launcher_okI)
qed

lemma launcher_step_ok: "launcher_step l l' \<Longrightarrow> launcher_ok l \<Longrightarrow> launcher_ok l'"
  by (induction rule: launcher_step.induct) (simp_all add: exits_ok reap_ok grace_ok)

lemma leasePort_result:
  assumes "leasePortLocked l = Some (l1, p)"
  shows "l1 = l\<lparr>ports := insert p (ports l)\<rparr>" "p \<notin> ports l"
proof -
  from assms have "lease_loop (Suc (card (ports l))) (ports l) (basePort l) = Some p"
    and l1: "l1 = l\<lparr>ports := insert p (ports l)\<rparr>" by (auto simp: leasePortLocked_def simp del: lease_loop.simps)
  from lease_loop_some [OF this(1)] show "p \<notin> ports l" by blast
  show "l1 = l\<lparr>ports := insert p (ports l)\<rparr>" by (rule l1)
qed

text \<open>A refused launch leaves the launcher as it was; a launch adds one process on a port of its own.\<close>

lemma Launch_refused:
  assumes "Process_LaunchWorker environ start i l = Some (l', Some e)"
  shows "l' = l"
proof (cases "procs l i")
  case (Some p)
  with assms show ?thesis by (simp add: Process_LaunchWorker_def)
next
  case None
  then obtain l1 p where "leasePortLocked l = Some (l1, p)"
    using assms by (auto simp: Process_LaunchWorker_def split: option.splits)
  with leasePort_result [OF this] None assms show ?thesis
    by (auto simp: Process_LaunchWorker_def Let_def split: option.splits if_splits)
qed

definition started :: "string list \<Rightarrow> string \<Rightarrow> int64 \<Rightarrow> ProcessLauncher \<Rightarrow> ProcessLauncher" where
  "started environ i p l = l\<lparr>ports := insert p (ports l), procs := (procs l)(i \<mapsto> next_proc l),
     heap := (heap l)(next_proc l \<mapsto> \<lparr>worker = i, cmd = worker_cmd environ i p l, port = p, done_closed = False,
       reaped = False, graces = 0, signals = []\<rparr>), next_proc := Suc (next_proc l)\<rparr>"

lemma Launch_started:
  assumes "Process_LaunchWorker environ start i l = Some (l', None)"
  shows "\<exists>p. p \<notin> ports l \<and> procs l i = None \<and> l' = started environ i p l"
proof -
  from assms obtain l1 p where p: "procs l i = None" "leasePortLocked l = Some (l1, p)"
    by (auto simp: Process_LaunchWorker_def split: option.splits if_splits)
  with leasePort_result [OF p(2)] assms show ?thesis
    by (auto simp: Process_LaunchWorker_def started_def Let_def split: option.splits if_splits)
qed

lemma started_ok:
  assumes "launcher_ok l" "p \<notin> ports l" "procs l i = None"
  shows "launcher_ok (started environ i p l)"
proof -
  note D = launcher_okD [OF assms(1)]
  let ?n = "next_proc l"
  define w where "w = \<lparr>worker = i, cmd = worker_cmd environ i p l, port = p, done_closed = False, reaped = False, graces = 0, signals = []\<rparr>"
  have new: "port w = p" "worker w = i" "\<not> reaped w" by (simp_all add: w_def)
  let ?l = "started environ i p l"
  have fresh: "\<not> live l ?n v" for v using D(1) by (auto simp: live_def)
  have old: "port u \<noteq> p" if "live l b u" for b u using D(3) assms(2) that by blast
  have live: "live ?l q v \<longleftrightarrow> q = ?n \<and> v = w \<or> live l q v" for q v
    using fresh new(3) by (auto simp: live_def started_def w_def [symmetric])
  have "procs ?l j = Some q \<longleftrightarrow> (\<exists>v. live ?l q v \<and> worker v = j)" for j q
  proof -
    have "procs ?l j = Some q \<longleftrightarrow> j = i \<and> q = ?n \<or> procs l j = Some q" using assms(3) by (auto simp: started_def)
    also have "\<dots> \<longleftrightarrow> (\<exists>v. live ?l q v \<and> worker v = j)" unfolding live D(2) using new by blast
    finally show ?thesis .
  qed
  moreover have "n \<in> ports ?l \<longleftrightarrow> (\<exists>q v. live ?l q v \<and> port v = n)" for n
  proof -
    have "n \<in> ports ?l \<longleftrightarrow> n = p \<or> n \<in> ports l" by (simp add: started_def)
    also have "\<dots> \<longleftrightarrow> (\<exists>q v. live ?l q v \<and> port v = n)" unfolding live D(3) using new by blast
    finally show ?thesis .
  qed
  moreover have "a = b" if "live ?l a v" "live ?l b u" "port v = port u" for a b u v
    using that(1,2) unfolding live
  proof (elim disjE conjE)
    assume "live l a v" "live l b u"
    with that(3) show "a = b" using D(4) by blast
  qed (use that(3) new(1) old in auto)
  moreover have "q < next_proc ?l" if "heap ?l q = Some v" for q v
    using that D(1) by (auto simp: started_def less_Suc_eq split: if_splits)
  ultimately show ?thesis by (intro launcher_okI)
qed

lemma launch_ok:
  assumes "launcher_ok l" "Process_LaunchWorker environ start i l = Some (l', e)"
  shows "launcher_ok l'"
proof (cases e)
  case None
  with Launch_started [of environ start i l l'] assms show ?thesis by (auto intro: started_ok)
next
  case (Some x)
  with Launch_refused [of environ start i l l' x] assms show ?thesis by simp
qed

lemma launcher_run_ok: "launcher_run l l' \<Longrightarrow> launcher_ok l \<Longrightarrow> launcher_ok l'"
  by (induction rule: launcher_run.induct) (auto intro: launcher_step_ok launch_ok stop_ok signal_ok)

section \<open>The contract holds\<close>

definition running_workers :: "ProcessLauncher \<Rightarrow> string set" where
  "running_workers l = dom (procs l)"

definition told_proc :: "ProcessLauncher \<Rightarrow> nat \<Rightarrow> bool" where
  "told_proc l p \<longleftrightarrow> (case heap l p of None \<Rightarrow> False | Some w \<Rightarrow> SIGTERM \<in> set (signals w))"

definition told_workers :: "ProcessLauncher \<Rightarrow> string set" where
  "told_workers l = {i. \<exists>p. procs l i = Some p \<and> told_proc l p}"

lemma told_proc_at:
  assumes "\<And>w. (SIGTERM \<in> set (signals (f w))) = (SIGTERM \<in> set (signals w))"
  shows "told_proc (at_proc p f l) q = told_proc l q"
  by (cases "heap l p"; cases "q = p") (simp_all add: told_proc_def assms)

lemma told_proc_fields [simp]: "told_proc (l\<lparr>ports := a, procs := b\<rparr>) q = told_proc l q"
  by (simp add: told_proc_def)

lemma told_at_proc:
  assumes "\<And>w. (SIGTERM \<in> set (signals (f w))) = (SIGTERM \<in> set (signals w))"
  shows "told_workers (at_proc p f l) = told_workers l"
  by (simp add: told_workers_def told_proc_at [OF assms])

lemma told_step:
  assumes "launcher_step l l'" "launcher_ok l"
  shows "running_workers l' \<subseteq> running_workers l \<and> told_workers l \<inter> running_workers l' \<subseteq> told_workers l' \<and>
    told_workers l' \<subseteq> told_workers l"
  using assms(1)
proof cases
  case (exits p)
  then show ?thesis by (simp add: proc_exits_def told_at_proc running_workers_def)
next
  case (reaps p)
  have "told_proc (at_proc p (\<lambda>w. w\<lparr>reaped := True\<rparr>) l) q = told_proc l q" for q by (rule told_proc_at) simp
  with reaps show ?thesis
    by (auto simp: reap_proc_def running_workers_def told_workers_def split: option.splits if_splits)
next
  case (grace p)
  have "told_workers (at_proc p (\<lambda>w. w\<lparr>graces := graces w - 1\<rparr>) l) = told_workers l" by (simp add: told_at_proc)
  moreover have "told_workers (send_signal SIGKILL p k) = told_workers k" for k
    unfolding send_signal_def by (rule told_at_proc) simp
  ultimately show ?thesis
    using grace by (auto simp: grace_over_def Let_def running_workers_def send_signal_def split: option.splits)
qed

lemma told_steps:
  "launcher_step\<^sup>*\<^sup>* l l' \<Longrightarrow> launcher_ok l \<Longrightarrow> launcher_ok l' \<and> running_workers l' \<subseteq> running_workers l \<and>
    told_workers l \<inter> running_workers l' \<subseteq> told_workers l' \<and> told_workers l' \<subseteq> told_workers l"
proof (induction rule: rtranclp_induct)
  case base
  then show ?case by simp
next
  case (step l1 l2)
  from step.IH [OF step.prems] told_step [OF step.hyps(2)] launcher_step_ok [OF step.hyps(2)] show ?case by blast
qed

lemma started_told:
  assumes "launcher_ok l" "procs l i = None"
  shows "running_workers (started environ i p l) = insert i (running_workers l)"
    "told_workers (started environ i p l) = told_workers l"
proof -
  show "running_workers (started environ i p l) = insert i (running_workers l)"
    by (auto simp: running_workers_def started_def)
  have "procs l j = Some q \<Longrightarrow> q \<noteq> next_proc l" for j q
    using launcher_okD(1,2) [OF assms(1)] by (force simp: live_def)
  with assms(2) show "told_workers (started environ i p l) = told_workers l"
    by (auto simp: told_workers_def told_proc_def started_def split: if_splits)
qed

lemma stop_told:
  assumes "launcher_ok l" "Process_StopWorker i l = (l', e)"
  shows "e = None \<and> running_workers l' = running_workers l \<and> told_workers l' = told_workers l \<union> ({i} \<inter> running_workers l)"
proof (cases "procs l i")
  case None
  with assms(2) show ?thesis by (auto simp: Process_StopWorker_def running_workers_def)
next
  case (Some p)
  then obtain w where w: "live l p w" "worker w = i" using launcher_okD(2) [OF assms(1)] by blast
  have same: "procs l j = Some p \<longleftrightarrow> j = i" for j
    using launcher_okD(2) [OF assms(1)] w Some by (auto simp: live_def)
  from Some assms(2) have "e = None" and
    l': "l' = at_proc p (\<lambda>w. w\<lparr>graces := Suc (graces w)\<rparr>) (send_signal SIGTERM p l)"
    by (auto simp: Process_StopWorker_def)
  moreover have "told_workers l' = told_workers l \<union> {i}"
  proof -
    have "told_proc l' q \<longleftrightarrow> q = p \<or> told_proc l q" for q
      using w(1) unfolding l' by (simp add: told_proc_def send_signal_def live_def)
    moreover have "procs l' = procs l" unfolding l' by (simp add: send_signal_def)
    ultimately show ?thesis using same unfolding told_workers_def by auto
  qed
  ultimately show ?thesis using Some by (auto simp: running_workers_def send_signal_def)
qed

interpretation pl: launcher "process_ops environ start during killed order" running_workers told_workers launcher_ok
  "launcher_step\<^sup>*\<^sup>*" for environ start during killed order
proof
  fix l l' :: ProcessLauncher and i e err
  assume ok: "launcher_ok l"
  show "told_workers l \<subseteq> running_workers l" by (auto simp: told_workers_def running_workers_def)
  show "launcher_step\<^sup>*\<^sup>* l l' \<Longrightarrow> launcher_ok l' \<and> running_workers l' \<subseteq> running_workers l \<and>
      told_workers l \<inter> running_workers l' \<subseteq> told_workers l' \<and> told_workers l' \<subseteq> told_workers l"
    by (rule told_steps [OF _ ok])
  show "StopWorker (process_ops environ start during killed order) i l = (l', err) \<Longrightarrow>
      err = None \<and> launcher_ok l' \<and> running_workers l' = running_workers l \<and>
      told_workers l' = told_workers l \<union> ({i} \<inter> running_workers l)"
    using stop_told [OF ok] stop_ok [OF ok] by (simp add: process_ops_def)
  show "LaunchWorker (process_ops environ start during killed order) i l = Some (l', Some e) \<Longrightarrow>
      launcher_ok l' \<and> running_workers l' = running_workers l \<and> told_workers l' = told_workers l"
    using Launch_refused [of environ start i l l' e] ok by (simp add: process_ops_def)
  assume "LaunchWorker (process_ops environ start during killed order) i l = Some (l', None)"
  then have "Process_LaunchWorker environ start i l = Some (l', None)" by (simp add: process_ops_def)
  from Launch_started [OF this] obtain p where p: "p \<notin> ports l" "procs l i = None" "l' = started environ i p l" by blast
  with started_ok [OF ok] started_told [OF ok p(2)]
  show "launcher_ok l' \<and> i \<notin> running_workers l \<and> running_workers l' = insert i (running_workers l) \<and> told_workers l' = told_workers l"
    by (auto simp: running_workers_def)
qed

section \<open>Stopping everything\<close>

text \<open>Process records are never removed, and \<open>done\<close> stays closed.\<close>

definition older :: "ProcessLauncher \<Rightarrow> ProcessLauncher \<Rightarrow> bool" where
  "older l l' \<longleftrightarrow> (\<forall>p w. heap l p = Some w \<longrightarrow> (\<exists>w'. heap l' p = Some w' \<and> (done_closed w \<longrightarrow> done_closed w')))"

lemma older_refl: "older l l"
  by (simp add: older_def)

lemma older_trans: "older l l1 \<Longrightarrow> older l1 l2 \<Longrightarrow> older l l2"
  unfolding older_def by blast

lemma olderD: "older l l' \<Longrightarrow> heap l p \<noteq> None \<Longrightarrow> heap l' p \<noteq> None" "older l l' \<Longrightarrow> is_done p l \<Longrightarrow> is_done p l'"
  unfolding older_def is_done_def by (fastforce split: option.splits)+

lemma at_proc_older: "(\<And>w. done_closed w \<Longrightarrow> done_closed (f w)) \<Longrightarrow> older l (at_proc p f l)"
  by (auto simp: older_def)

lemma signal_older: "older l (send_signal sg p l)"
  unfolding send_signal_def by (rule at_proc_older) simp

lemma launcher_step_older: "launcher_step l l' \<Longrightarrow> older l l'"
proof (induction rule: launcher_step.induct)
  case (exits l p)
  show ?case unfolding proc_exits_def by (rule at_proc_older) simp
next
  case (reaps l p)
  have "older l (at_proc p (\<lambda>w. w\<lparr>reaped := True\<rparr>) l)" by (rule at_proc_older) simp
  then show ?case by (auto simp: reap_proc_def older_def split: option.splits)
next
  case (grace l p)
  have "older l (at_proc p (\<lambda>w. w\<lparr>graces := graces w - 1\<rparr>) l)" by (rule at_proc_older) simp
  then show ?case
    by (auto simp: grace_over_def Let_def intro: older_refl older_trans signal_older split: option.splits)
qed

lemma launch_older:
  assumes "launcher_ok l" "Process_LaunchWorker environ start i l = Some (l', e)"
  shows "older l l'"
proof (cases e)
  case None
  with Launch_started [of environ start i l l'] assms obtain p where "l' = started environ i p l" by blast
  with launcher_okD(1) [OF assms(1)] show ?thesis by (force simp: older_def started_def)
next
  case (Some x)
  with Launch_refused [of environ start i l l' x] assms show ?thesis by (simp add: older_refl)
qed

lemma stop_older: "Process_StopWorker i l = (l', e) \<Longrightarrow> older l l'"
  by (auto simp: Process_StopWorker_def split: option.splits
      intro: older_refl intro!: older_trans [OF signal_older at_proc_older])

lemma launcher_run_older: "launcher_run l l' \<Longrightarrow> launcher_ok l \<Longrightarrow> older l l'"
proof (induction rule: launcher_run.induct)
  case (launch l l1 environ start i l2 e)
  with launch_older [OF launcher_run_ok] show ?case by (blast intro: older_trans)
qed (blast intro: older_refl older_trans launcher_step_older stop_older signal_older)+

lemma launcher_run_trans: "launcher_run l1 l2 \<Longrightarrow> launcher_run l l1 \<Longrightarrow> launcher_run l l2"
  by (induction rule: launcher_run.induct) (auto intro: launcher_run.intros)

lemma stop_all_loop_stops:
  assumes "\<And>p l. launcher_run l (during p l)" "\<And>p l. launcher_run l (killed p l)"
    and "\<And>p l. heap l p \<noteq> None \<Longrightarrow> is_done p (killed p l)"
    and "launcher_ok l" "\<forall>p \<in> set ps. heap l p \<noteq> None"
  shows "\<exists>l'. stop_all_loop during killed ps l = Some l' \<and> launcher_run l l' \<and> (\<forall>p \<in> set ps. is_done p l')"
  using assms(4,5)
proof (induction ps arbitrary: l)
  case Nil
  then show ?case by (auto intro: launcher_run.stay)
next
  case (Cons p ps)
  let ?l1 = "during p (send_signal SIGTERM p l)"
  let ?l2 = "killed p (send_signal SIGKILL p ?l1)"
  have r1: "launcher_run l ?l1"
    by (rule launcher_run_trans [OF assms(1) launcher_run.signalled [OF launcher_run.stay]])
  have r2: "launcher_run l ?l2" by (rule launcher_run_trans [OF assms(2) launcher_run.signalled [OF r1]])
  have rest: "\<exists>l'. stop_all_loop during killed ps t = Some l' \<and> launcher_run l l' \<and> (\<forall>q \<in> set (p # ps). is_done q l')"
    if t: "launcher_run l t" "is_done p t" for t
  proof -
    have "launcher_ok t" "\<forall>q \<in> set ps. heap t q \<noteq> None"
      using launcher_run_ok [OF t(1) Cons.prems(1)] olderD(1) [OF launcher_run_older [OF t(1) Cons.prems(1)]] Cons.prems(2)
      by auto
    from Cons.IH [OF this] obtain l' where l': "stop_all_loop during killed ps t = Some l'" "launcher_run t l'"
      "\<forall>q \<in> set ps. is_done q l'" by blast
    moreover have "is_done p l'"
      by (rule olderD(2) [OF launcher_run_older [OF l'(2) \<open>launcher_ok t\<close>] t(2)])
    ultimately show ?thesis using launcher_run_trans [OF l'(2) t(1)] by auto
  qed
  show ?case
  proof (cases "is_done p ?l1")
    case True
    with rest [OF r1] show ?thesis by (simp add: Let_def)
  next
    case False
    have "heap (send_signal SIGKILL p ?l1) p \<noteq> None"
      using olderD(1) [OF older_trans [OF launcher_run_older [OF r1 Cons.prems(1)] signal_older]] Cons.prems(2) by simp
    from assms(3) [OF this] have "is_done p ?l2" .
    with rest [OF r2] False show ?thesis by (simp add: Let_def)
  qed
qed

section \<open>Properties\<close>

text \<open>
  C29: port leases are exclusive. However launches, exits, reaper and kill goroutines
  interleave, two worker processes that have not been reaped never share a port or a worker
  ID, and the leased ports are exactly theirs; a launch of a worker that is not running gets
  the first free port from the base port on.
\<close>
theorem ports_exclusive:
  assumes "launcher_run (NewProcessLauncher args dir addr base) l"
  shows "ports l = {port w |p w. heap l p = Some w \<and> \<not> reaped w} \<and>
    dom (procs l) = {worker w |p w. heap l p = Some w \<and> \<not> reaped w} \<and>
    (\<forall>p q w v. heap l p = Some w \<and> heap l q = Some v \<and> \<not> reaped w \<and> \<not> reaped v \<and> (port w = port v \<or> worker w = worker v) \<longrightarrow> p = q) \<and>
    (\<forall>environ start i l'. Process_LaunchWorker environ start i l = Some (l', None) \<longrightarrow>
      (\<exists>p w k. procs l' i = Some p \<and> heap l' p = Some w \<and> port w \<notin> ports l \<and>
         port w = basePort l + of_nat k \<and> (\<forall>j < k. basePort l + of_nat j \<in> ports l)))"
proof -
  have ok: "launcher_ok l" by (rule launcher_run_ok [OF assms NewProcessLauncher_ok])
  note D = launcher_okD [OF ok]
  show ?thesis
  proof (intro conjI allI impI)
    show "ports l = {port w |p w. heap l p = Some w \<and> \<not> reaped w}"
    proof (rule set_eqI)
      fix n
      show "n \<in> ports l \<longleftrightarrow> n \<in> {port w |p w. heap l p = Some w \<and> \<not> reaped w}"
        using D(3) [of n] unfolding live_def mem_Collect_eq by metis
    qed
    show "dom (procs l) = {worker w |p w. heap l p = Some w \<and> \<not> reaped w}"
      unfolding dom_def using D(2) by (fastforce simp: live_def)
  next
    fix p q w v
    assume "heap l p = Some w \<and> heap l q = Some v \<and> \<not> reaped w \<and> \<not> reaped v \<and> (port w = port v \<or> worker w = worker v)"
    then have "live l p w" "live l q v" "port w = port v \<or> worker w = worker v" by (auto simp: live_def)
    then show "p = q" using D(4) D(2) by (metis option.inject)
  next
    fix environ start i l'
    assume a: "Process_LaunchWorker environ start i l = Some (l', None)"
    then obtain l1 p where p: "leasePortLocked l = Some (l1, p)"
      by (auto simp: Process_LaunchWorker_def split: option.splits if_splits)
    then have "lease_loop (Suc (card (ports l))) (ports l) (basePort l) = Some p"
      by (auto simp: leasePortLocked_def simp del: lease_loop.simps)
    from lease_loop_some [OF this] obtain k where k: "p \<notin> ports l" "p = basePort l + of_nat k"
      "\<forall>j < k. basePort l + of_nat j \<in> ports l" by blast
    have "heap l' (next_proc l) \<noteq> None \<and> procs l' i = Some (next_proc l) \<and> port (the (heap l' (next_proc l))) = p"
      using a p leasePort_result [OF p] by (auto simp: Process_LaunchWorker_def Let_def split: option.splits if_splits)
    with k show "\<exists>p w k. procs l' i = Some p \<and> heap l' p = Some w \<and> port w \<notin> ports l \<and>
        port w = basePort l + of_nat k \<and> (\<forall>j < k. basePort l + of_nat j \<in> ports l)" by auto
  qed
qed

definition demo_launcher :: ProcessLauncher where
  "demo_launcher = started [] ''a'' 50100 (NewProcessLauncher [''python''] ''.'' ''127.0.0.1:50051'' 50100)"

lemma demo_launched:
  "Process_LaunchWorker [] (\<lambda>_. None) ''a'' (NewProcessLauncher [''python''] ''.'' ''127.0.0.1:50051'' 50100) = Some (demo_launcher, None)"
  by (simp add: Process_LaunchWorker_def leasePortLocked_def NewProcessLauncher_def demo_launcher_def started_def Let_def worker_cmd_def)

lemma demo_launcher_run: "launcher_run (NewProcessLauncher [''python''] ''.'' ''127.0.0.1:50051'' 50100) demo_launcher"
  by (rule launcher_run.launch [OF launcher_run.stay demo_launched])

theorem ports_exclusive_witness:
  "ports demo_launcher = {port w |p w. heap demo_launcher p = Some w \<and> \<not> reaped w}"
  using ports_exclusive [OF demo_launcher_run, THEN conjunct1] .



end
