(* ===== verification/Autoscaler.thy ===== *)
theory Autoscaler
  imports Launcher Worker_Pool
begin

text \<open>
  \<open>Autoscaler\<close> of \<open>autoscaler.go\<close>: one policy evaluation per tick, under its mutex,
  over a snapshot of the worker pool and the queue depth read at that moment, with any
  \<open>Launcher\<close>. The range loops over the managed map take their order as an argument
  (\<open>ms\<close> for \<open>reconcile\<close>, \<open>is\<close> for the loops after it); counts and sums do not depend
  on the order. \<open>None\<close> means that the launcher did not return.
\<close>

section \<open>State and operations\<close>

record AutoscalerConfig =
  as_Min :: int64
  as_Max :: int64
  QueueThreshold :: int64
  IdleTimeout :: duration
  Cooldown :: duration
  RegisterTimeout :: duration
  as_Tick :: duration

record managedWorker =
  launchedAt :: gotime
  registered :: bool
  idleSince :: gotime

record 'l Autoscaler =
  as_cfg :: AutoscalerConfig
  as_launcher :: 'l
  managed :: "string \<rightharpoonup> managedWorker"
  lastLaunch :: gotime
  seq :: int64

definition NewAutoscaler :: "AutoscalerConfig \<Rightarrow> 'l \<Rightarrow> 'l Autoscaler" where
  "NewAutoscaler c l =
     (let c1 = (if sint (QueueThreshold c) < 1 then c\<lparr>QueueThreshold := 1\<rparr> else c);
          c2 = (if sint (as_Max c1) < sint (as_Min c1) then c1\<lparr>as_Max := as_Min c1\<rparr> else c1)
      in \<lparr>as_cfg = c2, as_launcher = l, managed = Map.empty, lastLaunch = 0, seq = 0\<rparr>)"

definition ManagedCount :: "'l Autoscaler \<Rightarrow> nat" where
  "ManagedCount a = card (dom (managed a))"

definition Autoscaler_Shutdown :: "'l Launcher \<Rightarrow> 'l Autoscaler \<Rightarrow> 'l Autoscaler option" where
  "Autoscaler_Shutdown L a = map_option (\<lambda>l. a\<lparr>as_launcher := l\<rparr>) (StopAll L (as_launcher a))"

text \<open>\<open>pid\<close> is \<open>os.Getpid()\<close>.\<close>

definition worker_name :: "int \<Rightarrow> int64 \<Rightarrow> string" where
  "worker_name pid n = ''autoscale-'' @ show_int pid @ ''-'' @ show_int (sint n)"

definition launch :: "'l Launcher \<Rightarrow> int \<Rightarrow> gotime \<Rightarrow> 'l Autoscaler \<Rightarrow> 'l Autoscaler option" where
  "launch L pid now a =
     (let n = seq a + 1; i = worker_name pid n
      in case LaunchWorker L i (as_launcher a) of
           None \<Rightarrow> None
         | Some (l, Some err) \<Rightarrow> Some (a\<lparr>seq := n, as_launcher := l\<rparr>)
         | Some (l, None) \<Rightarrow>
             Some (a\<lparr>seq := n, as_launcher := l,
                     managed := (managed a)(i \<mapsto> \<lparr>launchedAt = now, registered = False, idleSince = 0\<rparr>),
                     lastLaunch := now\<rparr>))"

definition forget :: "'l Launcher \<Rightarrow> string \<Rightarrow> 'l Autoscaler \<Rightarrow> 'l Autoscaler" where
  "forget L i a = a\<lparr>as_launcher := fst (StopWorker L i (as_launcher a)), managed := (managed a)(i := None)\<rparr>"

definition reconcile_one ::
  "'l Launcher \<Rightarrow> gotime \<Rightarrow> (string \<rightharpoonup> WorkerMetrics) \<Rightarrow> string \<Rightarrow> 'l Autoscaler \<Rightarrow> 'l Autoscaler" where
  "reconcile_one L now byID i a =
     (case managed a i of
        None \<Rightarrow> a
      | Some m \<Rightarrow>
          (if \<not> registered m then
             (if byID i \<noteq> None then a\<lparr>managed := (managed a)(i \<mapsto> m\<lparr>registered := True\<rparr>)\<rparr>
              else if time_Sub now (launchedAt m) > RegisterTimeout (as_cfg a) then forget L i a
              else a)
           else case byID i of
             None \<Rightarrow> forget L i a
           | Some w \<Rightarrow>
               (if \<not> MAlive w then forget L i a
                else if sint (MActiveTasks w) > 0 then a\<lparr>managed := (managed a)(i \<mapsto> m\<lparr>idleSince := 0\<rparr>)\<rparr>
                else if IsZero (idleSince m) then a\<lparr>managed := (managed a)(i \<mapsto> m\<lparr>idleSince := now\<rparr>)\<rparr>
                else a)))"

definition reconcile ::
  "'l Launcher \<Rightarrow> gotime \<Rightarrow> (string \<rightharpoonup> WorkerMetrics) \<Rightarrow> string list \<Rightarrow> 'l Autoscaler \<Rightarrow> 'l Autoscaler" where
  "reconcile L now byID ms a = fold (reconcile_one L now byID) ms a"

fun pick_loop :: "gotime \<Rightarrow> duration \<Rightarrow> (string \<rightharpoonup> managedWorker) \<Rightarrow> string list \<Rightarrow> string \<Rightarrow> gotime \<Rightarrow> string" where
  "pick_loop now limit m [] bestID bestSince = bestID"
| "pick_loop now limit m (i # is) bestID bestSince =
     (let w = the (m i)
      in if \<not> registered w \<or> IsZero (idleSince w) then pick_loop now limit m is bestID bestSince
         else if time_Sub now (idleSince w) < limit then pick_loop now limit m is bestID bestSince
         else if bestID = [] \<or> idleSince w < bestSince then pick_loop now limit m is i (idleSince w)
         else pick_loop now limit m is bestID bestSince)"

definition pickIdle :: "gotime \<Rightarrow> string list \<Rightarrow> 'l Autoscaler \<Rightarrow> string \<times> bool" where
  "pickIdle now is a =
     (let i = pick_loop now (IdleTimeout (as_cfg a)) (managed a) is [] 0 in (i, i \<noteq> []))"

definition byID_of :: "WorkerMetrics list \<Rightarrow> string \<rightharpoonup> WorkerMetrics" where
  "byID_of ws = map_of (rev (map (\<lambda>w. (MID w, w)) ws))"

definition live_workers :: "WorkerMetrics list \<Rightarrow> WorkerMetrics list" where
  "live_workers ws = filter MAlive (map (\<lambda>i. the (byID_of ws i)) (remdups (map MID ws)))"

definition pending_launches :: "string list \<Rightarrow> (string \<rightharpoonup> managedWorker) \<Rightarrow> nat" where
  "pending_launches is m = length (filter (\<lambda>i. \<not> registered (the (m i))) is)"

definition saturated :: "WorkerMetrics list \<Rightarrow> bool" where
  "saturated ws \<longleftrightarrow>
     (let capacity = sum_list (map MCapacity (live_workers ws)); active = sum_list (map MActiveTasks (live_workers ws))
      in sint capacity > 0 \<and> sint active \<ge> sint capacity)"

definition effective :: "WorkerMetrics list \<Rightarrow> string list \<Rightarrow> 'l Autoscaler \<Rightarrow> int" where
  "effective ws is a = int (length (live_workers ws)) + int (pending_launches is (managed a))"

definition tick ::
  "'l Launcher \<Rightarrow> int \<Rightarrow> gotime \<Rightarrow> string list \<Rightarrow> string list \<Rightarrow> WorkerMetrics list \<Rightarrow> int64 \<Rightarrow> 'l Autoscaler \<Rightarrow> 'l Autoscaler option" where
  "tick L pid now ms is ws queue a0 =
     (let a = reconcile L now (byID_of ws) ms a0; c = as_cfg a
      in if effective ws is a < sint (as_Min c) then launch L pid now a
         else if (sint queue \<ge> sint (QueueThreshold c) \<or> saturated ws) \<and> effective ws is a < sint (as_Max c) \<and>
                 time_Sub now (lastLaunch a) \<ge> Cooldown c
         then launch L pid now a
         else if queue = 0 \<and> \<not> saturated ws \<and> effective ws is a > sint (as_Min c) then
           (case pickIdle now is a of
              (i, True) \<Rightarrow>
                (case StopWorker L i (as_launcher a) of
                   (l, Some err) \<Rightarrow> Some (a\<lparr>as_launcher := l\<rparr>)
                 | (l, None) \<Rightarrow> Some (a\<lparr>as_launcher := l, managed := (managed a)(i := None)\<rparr>))
            | (i, False) \<Rightarrow> Some a)
         else Some a)"

text \<open>
  \<open>Run\<close>: a tick per delivery of the ticker until the context ends. A delivery comes with
  what the tick sees: the time, the orders, the snapshot and the queue; \<open>between\<close> is what
  happened to the launcher since the tick before.
\<close>

record 'l as_input =
  in_now :: gotime
  in_ms :: "string list"
  in_is :: "string list"
  in_ws :: "WorkerMetrics list"
  in_queue :: int64
  between :: "'l \<Rightarrow> 'l"

fun Autoscaler_Run :: "'l Launcher \<Rightarrow> int \<Rightarrow> 'l as_input list \<Rightarrow> 'l Autoscaler \<Rightarrow> 'l Autoscaler option" where
  "Autoscaler_Run L pid [] a = Some a"
| "Autoscaler_Run L pid (x # xs) a =
     (case tick L pid (in_now x) (in_ms x) (in_is x) (in_ws x) (in_queue x) (a\<lparr>as_launcher := between x (as_launcher a)\<rparr>) of
        None \<Rightarrow> None
      | Some a1 \<Rightarrow> Autoscaler_Run L pid xs a1)"

section \<open>Reconciliation, worker by worker\<close>

definition reconciled :: "gotime \<Rightarrow> duration \<Rightarrow> WorkerMetrics option \<Rightarrow> managedWorker \<Rightarrow> managedWorker option" where
  "reconciled now limit seen m =
     (if \<not> registered m then
        (if seen \<noteq> None then Some (m\<lparr>registered := True\<rparr>)
         else if time_Sub now (launchedAt m) > limit then None else Some m)
      else case seen of
        None \<Rightarrow> None
      | Some w \<Rightarrow>
          (if \<not> MAlive w then None
           else if sint (MActiveTasks w) > 0 then Some (m\<lparr>idleSince := 0\<rparr>)
           else if IsZero (idleSince m) then Some (m\<lparr>idleSince := now\<rparr>)
           else Some m))"

lemma reconcile_one_managed:
  "managed (reconcile_one L now byID i a) =
     (managed a)(i := Option.bind (managed a i) (reconciled now (RegisterTimeout (as_cfg a)) (byID i)))"
  "as_cfg (reconcile_one L now byID i a) = as_cfg a" "lastLaunch (reconcile_one L now byID i a) = lastLaunch a"
  "seq (reconcile_one L now byID i a) = seq a"
proof -
  have "(managed a)(i := managed a i) = managed a" by simp
  then show "managed (reconcile_one L now byID i a) =
     (managed a)(i := Option.bind (managed a i) (reconciled now (RegisterTimeout (as_cfg a)) (byID i)))"
    by (auto simp: reconcile_one_def reconciled_def forget_def fun_upd_idem split: option.split)
qed (simp_all add: reconcile_one_def forget_def split: option.split)

lemma reconcile_spec:
  assumes "distinct ms"
  shows "as_cfg (reconcile L now byID ms a) = as_cfg a" "lastLaunch (reconcile L now byID ms a) = lastLaunch a"
    "seq (reconcile L now byID ms a) = seq a"
    "managed (reconcile L now byID ms a) i =
       (if i \<in> set ms then Option.bind (managed a i) (reconciled now (RegisterTimeout (as_cfg a)) (byID i)) else managed a i)"
  using assms
  by (induction ms arbitrary: a) (auto simp: reconcile_def reconcile_one_managed)

lemma reconcile_managed:
  assumes "range_order (managed a) ms"
  shows "managed (reconcile L now byID ms a) i = Option.bind (managed a i) (reconciled now (RegisterTimeout (as_cfg a)) (byID i))"
proof -
  have d: "distinct ms" "i \<notin> set ms \<Longrightarrow> managed a i = None" using assms by (auto simp: range_order_def)
  show ?thesis unfolding reconcile_spec(4) [OF d(1)] using d(2) by simp
qed

section \<open>The longest idle worker\<close>

definition idle_past :: "gotime \<Rightarrow> duration \<Rightarrow> (string \<rightharpoonup> managedWorker) \<Rightarrow> string \<Rightarrow> bool" where
  "idle_past now limit m i \<longleftrightarrow> (\<exists>w. m i = Some w \<and> registered w \<and> \<not> IsZero (idleSince w) \<and> time_Sub now (idleSince w) \<ge> limit)"

text \<open>The loop's candidate: no one yet, or a worker idle past the limit.\<close>

lemma pick_loop_spec:
  assumes "set is \<subseteq> dom m" "[] \<notin> dom m" "best \<noteq> [] \<Longrightarrow> idle_past now limit m best \<and> since = idleSince (the (m best))"
    and "pick_loop now limit m is best since = i"
  shows "(i = [] \<longleftrightarrow> best = [] \<and> (\<forall>j \<in> set is. \<not> idle_past now limit m j)) \<and>
    (i \<noteq> [] \<longrightarrow> idle_past now limit m i \<and> (i = best \<or> i \<in> set is) \<and>
      (\<forall>j. (j \<in> set is \<or> j = best \<and> best \<noteq> []) \<and> idle_past now limit m j \<longrightarrow> idleSince (the (m i)) \<le> idleSince (the (m j))))"
  using assms(1,3,4)
proof (induction "is" arbitrary: best since)
  case Nil
  then show ?case by auto
next
  case (Cons k ks)
  from Cons.prems(1) obtain w where w: "m k = Some w" by auto
  have k: "k \<noteq> []" using Cons.prems(1) assms(2) by auto
  have sub: "set ks \<subseteq> dom m" using Cons.prems(1) by simp
  show ?case
  proof (cases "idle_past now limit m k \<and> (best = [] \<or> idleSince w < since)")
    case True
    then have "pick_loop now limit m ks k (idleSince w) = i"
      using Cons.prems(3) w by (auto simp: idle_past_def Let_def)
    from Cons.IH [OF sub _ this] True w k Cons.prems(2) show ?thesis by fastforce
  next
    case False
    then have "pick_loop now limit m ks best since = i"
      using Cons.prems(3) w by (auto simp: idle_past_def Let_def split: if_splits)
    from Cons.IH [OF sub Cons.prems(2) this] False w k Cons.prems(2) show ?thesis by fastforce
  qed
qed

section \<open>Counting\<close>

lemma byID_keys: "dom (byID_of ws) = MID ` set ws"
  by (auto simp: byID_of_def dom_map_of_conv_image_fst image_image)

lemma live_workers_count: "length (live_workers ws) = card {i. \<exists>w. byID_of ws i = Some w \<and> MAlive w}"
proof -
  let ?P = "\<lambda>i. MAlive (the (byID_of ws i))"
  have "length (live_workers ws) = length (filter ?P (remdups (map MID ws)))"
    by (simp add: live_workers_def filter_map comp_def)
  also have "\<dots> = card (set (filter ?P (remdups (map MID ws))))"
    by (rule distinct_card [symmetric]) simp
  also have "set (filter ?P (remdups (map MID ws))) = {i. \<exists>w. byID_of ws i = Some w \<and> MAlive w}"
  proof -
    have "i \<in> MID ` set ws \<longleftrightarrow> (\<exists>w. byID_of ws i = Some w)" for i unfolding byID_keys [symmetric] by blast
    then show ?thesis by auto
  qed
  finally show ?thesis .
qed

lemma pending_count:
  assumes "range_order m is"
  shows "pending_launches is m = card {i. \<exists>w. m i = Some w \<and> \<not> registered w}"
proof -
  let ?P = "\<lambda>i. \<not> registered (the (m i))"
  have "length (filter ?P is) = card (set (filter ?P is))"
    using assms by (intro distinct_card [symmetric]) (simp add: range_order_def)
  also have "set (filter ?P is) = {i. \<exists>w. m i = Some w \<and> \<not> registered w}"
    using assms by (force simp: range_order_def)
  finally show ?thesis by (simp add: pending_launches_def)
qed

text \<open>A snapshot that shows no managed worker dead at its first sight.\<close>

definition first_seen_alive :: "(string \<rightharpoonup> managedWorker) \<Rightarrow> WorkerMetrics list \<Rightarrow> bool" where
  "first_seen_alive m ws \<longleftrightarrow> (\<forall>i w v. m i = Some w \<and> \<not> registered w \<and> byID_of ws i = Some v \<longrightarrow> MAlive v)"

text \<open>After reconciliation every managed worker is counted: as pending, or as a live worker of the snapshot.\<close>

lemma managed_effective:
  assumes "range_order (managed a) ms" "first_seen_alive (managed a) ws"
    and a1: "a1 = reconcile L now (byID_of ws) ms a" and "range_order (managed a1) is"
  shows "int (card (dom (managed a1))) \<le> effective ws is a1"
proof -
  let ?P = "{i. \<exists>w. managed a1 i = Some w \<and> \<not> registered w}"
  let ?R = "{i. \<exists>w. byID_of ws i = Some w \<and> MAlive w}"
  have "dom (managed a1) \<subseteq> ?P \<union> ?R"
  proof
    fix i assume "i \<in> dom (managed a1)"
    then obtain w where w: "managed a1 i = Some w" by blast
    show "i \<in> ?P \<union> ?R"
    proof (cases "registered w")
      case False
      with w show ?thesis by blast
    next
      case True
      from w obtain m where m: "managed a i = Some m" "reconciled now (RegisterTimeout (as_cfg a)) (byID_of ws i) m = Some w"
        unfolding a1 reconcile_managed [OF assms(1)] by (auto simp: bind_eq_Some_conv)
      show ?thesis
      proof (cases "registered m")
        case True
        with m(2) show ?thesis by (auto simp: reconciled_def split: option.splits if_splits)
      next
        case False
        with m(2) True obtain v where "byID_of ws i = Some v" by (auto simp: reconciled_def split: if_splits)
        with False m(1) assms(2) show ?thesis by (auto simp: first_seen_alive_def)
      qed
    qed
  qed
  moreover have "finite ?R" using finite_subset [of ?R "dom (byID_of ws)"] byID_keys [of ws] by auto
  moreover have "finite ?P"
  proof (rule finite_subset)
    show "finite (dom (managed a1))" using assms(4) by (metis range_order_def List.finite_set)
  qed auto
  ultimately have "card (dom (managed a1)) \<le> card (?P \<union> ?R)" by (intro card_mono finite_UnI)
  also have "\<dots> \<le> card ?P + card ?R" by (rule card_Un_le)
  finally show ?thesis by (simp add: effective_def live_workers_count pending_count [OF assms(4)])
qed

section \<open>What a tick does\<close>

lemma launch_result:
  assumes "launch L pid now a = Some a'"
  shows "(\<exists>l e. LaunchWorker L (worker_name pid (seq a + 1)) (as_launcher a) = Some (l, Some e) \<and> a' = a\<lparr>seq := seq a + 1, as_launcher := l\<rparr>) \<or>
    (\<exists>l. LaunchWorker L (worker_name pid (seq a + 1)) (as_launcher a) = Some (l, None) \<and>
       a' = a\<lparr>seq := seq a + 1, as_launcher := l,
              managed := (managed a)(worker_name pid (seq a + 1) \<mapsto> \<lparr>launchedAt = now, registered = False, idleSince = 0\<rparr>),
              lastLaunch := now\<rparr>)"
proof (cases "LaunchWorker L (worker_name pid (seq a + 1)) (as_launcher a)")
  case None
  with assms show ?thesis by (simp add: launch_def Let_def)
next
  case (Some x)
  obtain l e where x: "x = (l, e)" by fastforce
  show ?thesis
  proof (cases e)
    case None
    with Some x assms show ?thesis by (simp add: launch_def Let_def)
  next
    case (Some y)
    with \<open>LaunchWorker L _ _ = Some x\<close> x assms show ?thesis by (simp add: launch_def Let_def)
  qed
qed

text \<open>The three outcomes of a tick: a launch, a stop, or nothing.\<close>

lemma tick_cases:
  assumes "tick L pid now ms is ws queue a0 = Some a'" and a: "a = reconcile L now (byID_of ws) ms a0"
    and "as_cfg a = c" "sint (as_Min c) \<le> sint (as_Max c)"
  shows "(effective ws is a < sint (as_Max c) \<and> launch L pid now a = Some a') \<or> a' = a \<or>
    (\<exists>i l e. queue = 0 \<and> \<not> saturated ws \<and> effective ws is a > sint (as_Min c) \<and> pickIdle now is a = (i, True) \<and>
       StopWorker L i (as_launcher a) = (l, e) \<and>
       a' = (if e = None then a\<lparr>as_launcher := l, managed := (managed a)(i := None)\<rparr> else a\<lparr>as_launcher := l\<rparr>))"
proof -
  let ?up = "(sint queue \<ge> sint (QueueThreshold c) \<or> saturated ws) \<and> effective ws is a < sint (as_Max c) \<and> time_Sub now (lastLaunch a) \<ge> Cooldown c"
  let ?down = "queue = 0 \<and> \<not> saturated ws \<and> effective ws is a > sint (as_Min c)"
  have t: "tick L pid now ms is ws queue a0 =
     (if effective ws is a < sint (as_Min c) then launch L pid now a
      else if ?up then launch L pid now a
      else if ?down then
        (case pickIdle now is a of
              (i, True) \<Rightarrow>
                (case StopWorker L i (as_launcher a) of
                   (l, Some err) \<Rightarrow> Some (a\<lparr>as_launcher := l\<rparr>)
                 | (l, None) \<Rightarrow> Some (a\<lparr>as_launcher := l, managed := (managed a)(i := None)\<rparr>))
            | (i, False) \<Rightarrow> Some a)
      else Some a)"
    unfolding tick_def Let_def a [symmetric] assms(3) ..
  show ?thesis
  proof (cases "effective ws is a < sint (as_Min c) \<or> ?up")
    case True
    then have "tick L pid now ms is ws queue a0 = launch L pid now a" unfolding t by presburger
    moreover have "effective ws is a < sint (as_Max c)" using True assms(4) by auto
    ultimately show ?thesis using assms(1) by simp
  next
    case False
    then have n1: "\<not> (effective ws is a < sint (as_Min c))" and n2: "\<not> ?up" by blast+
    obtain i b where p: "pickIdle now is a = (i, b)" by fastforce
    obtain l e where st: "StopWorker L i (as_launcher a) = (l, e)" by fastforce
    have t2: "tick L pid now ms is ws queue a0 =
       (if ?down \<and> b then Some (if e = None then a\<lparr>as_launcher := l, managed := (managed a)(i := None)\<rparr> else a\<lparr>as_launcher := l\<rparr>)
        else Some a)"
      unfolding t by (simp only: n1 n2 if_False p) (cases b; cases e; simp add: st)
    show ?thesis
    proof (cases "?down \<and> b")
      case True
      have "Some a' = Some (if e = None then a\<lparr>as_launcher := l, managed := (managed a)(i := None)\<rparr> else a\<lparr>as_launcher := l\<rparr>)"
        by (rule trans [OF trans [OF assms(1) [symmetric] t2] if_P [OF True]])
      then have "a' = (if e = None then a\<lparr>as_launcher := l, managed := (managed a)(i := None)\<rparr> else a\<lparr>as_launcher := l\<rparr>)"
        by (rule option.inject [THEN iffD1])
      moreover from True p have "pickIdle now is a = (i, True)" by simp
      ultimately show ?thesis using True st by blast
    next
      case False
      have "Some a' = Some a" by (rule trans [OF trans [OF assms(1) [symmetric] t2] if_not_P [OF False]])
      then show ?thesis by simp
    qed
  qed
qed

section \<open>Runs\<close>

text \<open>What a tick sees: the loops visit every managed worker once, at a time that is not the zero instant.\<close>

definition orders_ok :: "'l Launcher \<Rightarrow> 'l as_input \<Rightarrow> 'l Autoscaler \<Rightarrow> bool" where
  "orders_ok L x a \<longleftrightarrow> range_order (managed a) (in_ms x) \<and> in_now x \<noteq> 0 \<and>
     range_order (managed (reconcile L (in_now x) (byID_of (in_ws x)) (in_ms x) a)) (in_is x)"

definition moved :: "'l as_input \<Rightarrow> 'l Autoscaler \<Rightarrow> 'l Autoscaler" where
  "moved x a = a\<lparr>as_launcher := between x (as_launcher a)\<rparr>"

definition tick_on :: "'l Launcher \<Rightarrow> int \<Rightarrow> 'l as_input \<Rightarrow> 'l Autoscaler \<Rightarrow> 'l Autoscaler option" where
  "tick_on L pid x a = tick L pid (in_now x) (in_ms x) (in_is x) (in_ws x) (in_queue x) a"

lemma moved_simps [simp]:
  "as_cfg (moved x a) = as_cfg a" "managed (moved x a) = managed a" "seq (moved x a) = seq a"
  "lastLaunch (moved x a) = lastLaunch a" "as_launcher (moved x a) = between x (as_launcher a)"
  by (simp_all add: moved_def)

lemma Run_Cons:
  "Autoscaler_Run L pid (x # xs) a =
     (case tick_on L pid x (moved x a) of None \<Rightarrow> None | Some a1 \<Rightarrow> Autoscaler_Run L pid xs a1)"
  by (simp add: tick_on_def moved_def)

text \<open>A run all of whose ticks satisfy \<open>P\<close> in the state they start from.\<close>

fun along :: "'l Launcher \<Rightarrow> int \<Rightarrow> ('l as_input \<Rightarrow> 'l Autoscaler \<Rightarrow> bool) \<Rightarrow> 'l as_input list \<Rightarrow> 'l Autoscaler \<Rightarrow> bool" where
  "along L pid P [] a = True"
| "along L pid P (x # xs) a =
     (P x (moved x a) \<and> (case tick_on L pid x (moved x a) of None \<Rightarrow> True | Some a1 \<Rightarrow> along L pid P xs a1))"

lemma run_invariant:
  assumes "Autoscaler_Run L pid xs a = Some a'" "J a" "along L pid P xs a"
    and move: "\<And>x a. J a \<Longrightarrow> P x (moved x a) \<Longrightarrow> J (moved x a)"
    and step: "\<And>x a a'. J a \<Longrightarrow> P x a \<Longrightarrow> tick_on L pid x a = Some a' \<Longrightarrow> J a'"
  shows "J a'"
  using assms(1-3)
proof (induction xs arbitrary: a)
  case Nil
  then show ?case by simp
next
  case (Cons x xs)
  then obtain a1 where t: "tick_on L pid x (moved x a) = Some a1" and r: "Autoscaler_Run L pid xs a1 = Some a'"
    by (auto simp: Run_Cons simp del: Autoscaler_Run.simps(2) split: option.splits)
  from Cons.prems(3) t have P: "P x (moved x a)" "along L pid P xs a1" by simp_all
  show ?case by (rule Cons.IH [OF r step [OF move [OF Cons.prems(2) P(1)] P(1) t] P(2)])
qed

lemma config_order: "sint (as_Min (as_cfg (NewAutoscaler c l))) \<le> sint (as_Max (as_cfg (NewAutoscaler c l)))"
  by (auto simp: NewAutoscaler_def Let_def)

lemma tick_cfg:
  assumes "tick L pid now ms is ws queue a0 = Some a'" "distinct ms" "sint (as_Min (as_cfg a0)) \<le> sint (as_Max (as_cfg a0))"
  shows "as_cfg a' = as_cfg a0"
proof -
  let ?a = "reconcile L now (byID_of ws) ms a0"
  have c: "as_cfg ?a = as_cfg a0" by (rule reconcile_spec(1) [OF assms(2)])
  from tick_cases [OF assms(1) refl c assms(3)] show ?thesis
  proof (elim disjE exE conjE)
    assume "launch L pid now ?a = Some a'"
    from launch_result [OF this] c show ?thesis by auto
  qed (auto simp: c)
qed

subsection \<open>The ceiling\<close>

definition capped :: "'l Autoscaler \<Rightarrow> bool" where
  "capped a \<longleftrightarrow> sint (as_Min (as_cfg a)) \<le> sint (as_Max (as_cfg a)) \<and> finite (dom (managed a)) \<and>
     int (card (dom (managed a))) \<le> max 0 (sint (as_Max (as_cfg a)))"

lemma reconcile_dom:
  assumes "range_order (managed a) ms"
  shows "dom (managed (reconcile L now byID ms a)) \<subseteq> dom (managed a)"
  by (auto simp: reconcile_managed [OF assms] bind_eq_Some_conv)

lemma tick_capped:
  assumes "capped a0" "orders_ok L x a0" "first_seen_alive (managed a0) (in_ws x)" "tick_on L pid x a0 = Some a'"
  shows "capped a'"
proof -
  let ?a = "reconcile L (in_now x) (byID_of (in_ws x)) (in_ms x) a0"
  let ?c = "as_cfg a0"
  from assms(2) have o: "range_order (managed a0) (in_ms x)" "range_order (managed ?a) (in_is x)" by (auto simp: orders_ok_def)
  then have d: "distinct (in_ms x)" by (simp add: range_order_def)
  from assms(1) have c: "sint (as_Min ?c) \<le> sint (as_Max ?c)" "finite (dom (managed a0))"
    "int (card (dom (managed a0))) \<le> max 0 (sint (as_Max ?c))" by (auto simp: capped_def)
  have cfg: "as_cfg ?a = ?c" by (rule reconcile_spec(1) [OF d])
  have sub: "dom (managed ?a) \<subseteq> dom (managed a0)" by (rule reconcile_dom [OF o(1)])
  have small: "int (card (dom (managed ?a))) \<le> max 0 (sint (as_Max ?c))"
    using card_mono [OF c(2) sub] c(3) by linarith
  have fin: "finite (dom (managed ?a))" by (rule finite_subset [OF sub c(2)])
  have eff: "int (card (dom (managed ?a))) \<le> effective (in_ws x) (in_is x) ?a"
    by (rule managed_effective [OF o(1) assms(3) refl o(2)])
  note t = assms(4) [unfolded tick_on_def]
  have "int (card (dom (managed a'))) \<le> max 0 (sint (as_Max ?c)) \<and> finite (dom (managed a'))"
    using tick_cases [OF t refl cfg c(1)]
  proof (elim disjE exE conjE)
    assume e: "effective (in_ws x) (in_is x) ?a < sint (as_Max ?c)" and l: "launch L pid (in_now x) ?a = Some a'"
    let ?i = "worker_name pid (seq ?a + 1)"
    have "dom (managed a') = dom (managed ?a) \<or> dom (managed a') = insert ?i (dom (managed ?a))"
      using launch_result [OF l] by (elim disjE exE conjE) simp_all
    moreover have "card (insert ?i (dom (managed ?a))) \<le> Suc (card (dom (managed ?a)))"
      using fin by (simp add: card_insert_if)
    ultimately show ?thesis using e eff small fin by auto
  next
    assume "a' = ?a"
    with small fin show ?thesis by simp
  next
    fix i l e
    assume "a' = (if e = None then ?a\<lparr>as_launcher := l, managed := (managed ?a)(i := None)\<rparr> else ?a\<lparr>as_launcher := l\<rparr>)"
    then have "dom (managed a') \<subseteq> dom (managed ?a)" by (auto split: if_splits)
    from card_mono [OF fin this] finite_subset [OF this fin] small show ?thesis by auto
  qed
  with tick_cfg [OF t d c(1)] c(1) show ?thesis by (simp add: capped_def)
qed

subsection \<open>Nothing is lost, nothing foreign is touched\<close>

text \<open>Every running worker is managed or was asked to stop; what is managed or running has a name of this process.\<close>

definition tracked ::
  "('l \<Rightarrow> bool) \<Rightarrow> ('l \<Rightarrow> string set) \<Rightarrow> ('l \<Rightarrow> string set) \<Rightarrow> int \<Rightarrow> 'l Autoscaler \<Rightarrow> bool" where
  "tracked ok running told pid a \<longleftrightarrow> ok (as_launcher a) \<and> running (as_launcher a) \<subseteq> dom (managed a) \<union> told (as_launcher a) \<and>
     dom (managed a) \<union> running (as_launcher a) \<subseteq> range (worker_name pid)"

context launcher
begin

lemma tracked_stop:
  assumes "tracked ok running told pid a" "StopWorker L i (as_launcher a) = (l, e)"
  shows "e = None \<and> tracked ok running told pid (a\<lparr>as_launcher := l, managed := (managed a)(i := None)\<rparr>)"
proof -
  from assms(1) have t: "ok (as_launcher a)" "running (as_launcher a) \<subseteq> dom (managed a) \<union> told (as_launcher a)"
    "dom (managed a) \<union> running (as_launcher a) \<subseteq> range (worker_name pid)" by (auto simp: tracked_def)
  note S = StopWorker_tells [OF t(1) assms(2)]
  have "running l \<subseteq> (dom (managed a) - {i}) \<union> told l" using S t(2) by blast
  with S t(3) show ?thesis by (auto simp: tracked_def)
qed

lemma tracked_forget: "tracked ok running told pid a \<Longrightarrow> tracked ok running told pid (forget L i a)"
  unfolding forget_def using tracked_stop [of pid a i] by (metis prod.collapse)

lemma tracked_update: "tracked ok running told pid a \<Longrightarrow> managed a i = Some m \<Longrightarrow> tracked ok running told pid (a\<lparr>managed := (managed a)(i \<mapsto> m')\<rparr>)"
  by (auto simp: tracked_def)

lemma tracked_reconcile: "tracked ok running told pid a \<Longrightarrow> tracked ok running told pid (reconcile L now byID ms a)"
  unfolding reconcile_def
proof (induction ms arbitrary: a)
  case Nil
  then show ?case by simp
next
  case (Cons i ms)
  have "tracked ok running told pid (reconcile_one L now byID i a)"
    using Cons.prems tracked_forget tracked_update by (auto simp: reconcile_one_def split: option.split)
  from Cons.IH [OF this] show ?case by simp
qed

lemma tracked_launch:
  assumes "tracked ok running told pid a" "launch L pid now a = Some a'"
  shows "tracked ok running told pid a'"
proof -
  from assms(1) have t: "ok (as_launcher a)" "running (as_launcher a) \<subseteq> dom (managed a) \<union> told (as_launcher a)"
    "dom (managed a) \<union> running (as_launcher a) \<subseteq> range (worker_name pid)" by (auto simp: tracked_def)
  from launch_result [OF assms(2)] show ?thesis
  proof (elim disjE exE conjE)
    fix l e assume "LaunchWorker L (worker_name pid (seq a + 1)) (as_launcher a) = Some (l, Some e)"
      and a': "a' = a\<lparr>seq := seq a + 1, as_launcher := l\<rparr>"
    from LaunchWorker_refused [OF t(1) this(1)] t show ?thesis unfolding a' by (simp add: tracked_def)
  next
    fix l assume "LaunchWorker L (worker_name pid (seq a + 1)) (as_launcher a) = Some (l, None)"
      and a': "a' = a\<lparr>seq := seq a + 1, as_launcher := l,
        managed := (managed a)(worker_name pid (seq a + 1) \<mapsto> \<lparr>launchedAt = now, registered = False, idleSince = 0\<rparr>), lastLaunch := now\<rparr>"
    from LaunchWorker_started [OF t(1) this(1)] t show ?thesis unfolding a' by (auto simp: tracked_def)
  qed
qed

lemma tracked_move:
  assumes "tracked ok running told pid a" "moves (as_launcher a) l"
  shows "tracked ok running told pid (a\<lparr>as_launcher := l\<rparr>)"
proof -
  from assms(1) have t: "ok (as_launcher a)" "running (as_launcher a) \<subseteq> dom (managed a) \<union> told (as_launcher a)"
    "dom (managed a) \<union> running (as_launcher a) \<subseteq> range (worker_name pid)" by (auto simp: tracked_def)
  from moves_ok [OF t(1) assms(2)] t show ?thesis unfolding tracked_def by auto
qed

lemma tracked_tick:
  assumes "tracked ok running told pid a0" "tick L pid now ms is ws queue a0 = Some a'" "distinct ms"
    and "sint (as_Min (as_cfg a0)) \<le> sint (as_Max (as_cfg a0))"
  shows "tracked ok running told pid a'"
proof -
  let ?a = "reconcile L now (byID_of ws) ms a0"
  have a: "tracked ok running told pid ?a" by (rule tracked_reconcile [OF assms(1)])
  have c: "as_cfg ?a = as_cfg a0" by (rule reconcile_spec(1) [OF assms(3)])
  from tick_cases [OF assms(2) refl c assms(4)] show ?thesis
  proof (elim disjE exE conjE)
    assume "launch L pid now ?a = Some a'"
    from tracked_launch [OF a this] show ?thesis .
  next
    fix i l e
    assume s: "StopWorker L i (as_launcher ?a) = (l, e)"
      and a': "a' = (if e = None then ?a\<lparr>as_launcher := l, managed := (managed ?a)(i := None)\<rparr> else ?a\<lparr>as_launcher := l\<rparr>)"
    from tracked_stop [OF a s] show ?thesis unfolding a' by simp
  qed (use a in simp)
qed

lemma run_tracked:
  assumes "Autoscaler_Run L pid xs (NewAutoscaler c l) = Some a'" "ok l" "running l = {}"
    and "\<And>x l. x \<in> set xs \<Longrightarrow> ok l \<Longrightarrow> moves l (between x l)" "\<And>x. x \<in> set xs \<Longrightarrow> distinct (in_ms x)"
  shows "tracked ok running told pid a'"
proof -
  have "tracked ok running told pid a' \<and> as_cfg a' = as_cfg a"
    if "Autoscaler_Run L pid ys a = Some a'" "set ys \<subseteq> set xs" "tracked ok running told pid a" "sint (as_Min (as_cfg a)) \<le> sint (as_Max (as_cfg a))" for ys a
    using that
  proof (induction ys arbitrary: a)
    case Nil
    then show ?case by simp
  next
    case (Cons x ys)
    then obtain a1 where t: "tick_on L pid x (moved x a) = Some a1" and r: "Autoscaler_Run L pid ys a1 = Some a'"
      by (auto simp: Run_Cons simp del: Autoscaler_Run.simps(2) split: option.splits)
    have x: "x \<in> set xs" "set ys \<subseteq> set xs" using Cons.prems(2) by auto
    have "ok (as_launcher a)" using Cons.prems(3) by (simp add: tracked_def)
    from tracked_move [OF Cons.prems(3) assms(4) [OF x(1) this]] have m: "tracked ok running told pid (moved x a)" by (simp add: moved_def)
    have mm: "sint (as_Min (as_cfg (moved x a))) \<le> sint (as_Max (as_cfg (moved x a)))" using Cons.prems(4) by simp
    note t' = t [unfolded tick_on_def]
    have c: "as_cfg a1 = as_cfg a" using tick_cfg [OF t' assms(5) [OF x(1)] mm] by simp
    from Cons.IH [OF r x(2) tracked_tick [OF m t' assms(5) [OF x(1)] mm]] Cons.prems(4) c show ?case by simp
  qed
  from this [OF assms(1) subset_refl _ config_order] show ?thesis
    using assms(2,3) by (simp add: tracked_def NewAutoscaler_def Let_def)
qed

end

subsection \<open>Idle means idle\<close>

text \<open>
  The ticks so far, the latest first: since the instant \<open>t\<close> of one of them, every tick saw
  the worker alive and without tasks.
\<close>

definition idle_for :: "string \<Rightarrow> gotime \<Rightarrow> 'l as_input list \<Rightarrow> bool" where
  "idle_for i t hist \<longleftrightarrow> (\<exists>recent older. hist = recent @ older \<and> recent \<noteq> [] \<and> in_now (last recent) = t \<and>
     (\<forall>x \<in> set recent. \<exists>w. byID_of (in_ws x) i = Some w \<and> MAlive w \<and> sint (MActiveTasks w) \<le> 0))"

definition idle_known :: "'l as_input list \<Rightarrow> 'l Autoscaler \<Rightarrow> bool" where
  "idle_known hist a \<longleftrightarrow> (\<forall>i m. managed a i = Some m \<and> idleSince m \<noteq> 0 \<longrightarrow> idle_for i (idleSince m) hist)"

lemma idle_for_now:
  "byID_of (in_ws x) i = Some w \<Longrightarrow> MAlive w \<Longrightarrow> sint (MActiveTasks w) \<le> 0 \<Longrightarrow> idle_for i (in_now x) (x # hist)"
  unfolding idle_for_def by (intro exI [where x = "[x]"] exI [where x = hist]) simp

lemma idle_for_longer:
  assumes "byID_of (in_ws x) i = Some w" "MAlive w" "sint (MActiveTasks w) \<le> 0" "idle_for i t hist"
  shows "idle_for i t (x # hist)"
proof -
  from assms(4) obtain recent older where h: "hist = recent @ older" "recent \<noteq> []" "in_now (last recent) = t"
    "\<forall>x \<in> set recent. \<exists>w. byID_of (in_ws x) i = Some w \<and> MAlive w \<and> sint (MActiveTasks w) \<le> 0"
    unfolding idle_for_def by blast
  with assms(1-3) show ?thesis
    unfolding idle_for_def by (intro exI [where x = "x # recent"] exI [where x = older]) auto
qed

text \<open>A worker is registered before it is seen idle.\<close>

definition idle_registered :: "'l Autoscaler \<Rightarrow> bool" where
  "idle_registered a \<longleftrightarrow> (\<forall>i m. managed a i = Some m \<and> idleSince m \<noteq> 0 \<longrightarrow> registered m)"

lemma reconcile_idle:
  assumes "idle_known hist a" "idle_registered a" "range_order (managed a) (in_ms x)"
  shows "idle_known (x # hist) (reconcile L (in_now x) (byID_of (in_ws x)) (in_ms x) a) \<and>
    idle_registered (reconcile L (in_now x) (byID_of (in_ws x)) (in_ms x) a)"
proof -
  let ?a = "reconcile L (in_now x) (byID_of (in_ws x)) (in_ms x) a"
  have "idle_for i (idleSince m) (x # hist) \<and> registered m" if m: "managed ?a i = Some m" "idleSince m \<noteq> 0" for i m
  proof -
    from m(1) obtain m0 where m0: "managed a i = Some m0"
      "reconciled (in_now x) (RegisterTimeout (as_cfg a)) (byID_of (in_ws x) i) m0 = Some m"
      unfolding reconcile_managed [OF assms(3)] by (auto simp: bind_eq_Some_conv)
    show ?thesis
    proof (cases "registered m0")
      case False
      with m0 assms(2) have "idleSince m0 = 0" by (auto simp: idle_registered_def)
      with m0(2) False m(2) show ?thesis by (auto simp: reconciled_def split: if_splits)
    next
      case True
      with m0(2) m(2) obtain w where w: "byID_of (in_ws x) i = Some w" "MAlive w" "sint (MActiveTasks w) \<le> 0" "registered m"
        "m = m0 \<or> idleSince m = in_now x" by (auto simp: reconciled_def split: option.splits if_splits)
      from w(5) show ?thesis
      proof
        assume "m = m0"
        with m0(1) m(2) assms(1) have "idle_for i (idleSince m) hist" by (simp add: idle_known_def)
        with idle_for_longer [OF w(1-3)] w(4) show ?thesis by blast
      next
        assume "idleSince m = in_now x"
        with idle_for_now [OF w(1-3)] w(4) show ?thesis by simp
      qed
    qed
  qed
  then show ?thesis unfolding idle_known_def idle_registered_def by blast
qed

lemma tick_idle:
  assumes "idle_known hist a" "idle_registered a" "range_order (managed a) (in_ms x)"
    and "tick_on L pid x a = Some a'" "sint (as_Min (as_cfg a)) \<le> sint (as_Max (as_cfg a))"
  shows "idle_known (x # hist) a' \<and> idle_registered a'"
proof -
  let ?a = "reconcile L (in_now x) (byID_of (in_ws x)) (in_ms x) a"
  have k: "idle_known (x # hist) ?a" "idle_registered ?a" using reconcile_idle [OF assms(1-3)] by blast+
  have d: "distinct (in_ms x)" using assms(3) by (simp add: range_order_def)
  have c: "as_cfg ?a = as_cfg a" by (rule reconcile_spec(1) [OF d])
  have sub: "\<forall>i m. managed a' i = Some m \<and> idleSince m \<noteq> 0 \<longrightarrow> managed ?a i = Some m"
    using tick_cases [OF assms(4) [unfolded tick_on_def] refl c assms(5)]
  proof (elim disjE exE conjE)
    assume l: "launch L pid (in_now x) ?a = Some a'"
    from launch_result [OF l] show ?thesis by (elim disjE exE conjE) auto
  next
    assume "a' = ?a"
    then show ?thesis by simp
  next
    fix i l e
    assume "a' = (if e = None then ?a\<lparr>as_launcher := l, managed := (managed ?a)(i := None)\<rparr> else ?a\<lparr>as_launcher := l\<rparr>)"
    then show ?thesis by auto
  qed
  with k show ?thesis unfolding idle_known_def idle_registered_def by blast
qed

definition idle_inv :: "'l as_input list \<Rightarrow> 'l Autoscaler \<Rightarrow> bool" where
  "idle_inv hist a \<longleftrightarrow> idle_known hist a \<and> idle_registered a \<and> [] \<notin> dom (managed a) \<and>
     sint (as_Min (as_cfg a)) \<le> sint (as_Max (as_cfg a))"

lemma tick_named:
  assumes "[] \<notin> dom (managed a)" "range_order (managed a) (in_ms x)"
    and "tick_on L pid x a = Some a'" "sint (as_Min (as_cfg a)) \<le> sint (as_Max (as_cfg a))"
  shows "[] \<notin> dom (managed a')"
proof -
  let ?a = "reconcile L (in_now x) (byID_of (in_ws x)) (in_ms x) a"
  have d: "distinct (in_ms x)" using assms(2) by (simp add: range_order_def)
  have c: "as_cfg ?a = as_cfg a" by (rule reconcile_spec(1) [OF d])
  have n: "[] \<notin> dom (managed ?a)" using reconcile_dom [OF assms(2)] assms(1) by blast
  have w: "worker_name pid k \<noteq> []" for k by (simp add: worker_name_def)
  from tick_cases [OF assms(3) [unfolded tick_on_def] refl c assms(4)] show ?thesis
  proof (elim disjE exE conjE)
    assume l: "launch L pid (in_now x) ?a = Some a'"
    from launch_result [OF l] n w show ?thesis by (elim disjE exE conjE) (simp_all, metis)
  qed (use n in \<open>auto split: if_splits\<close>)
qed

lemma tick_idle_inv:
  assumes "idle_inv hist (moved x a)" "orders_ok L x (moved x a)" "tick_on L pid x (moved x a) = Some a'"
  shows "idle_inv (x # hist) a'"
proof -
  from assms(1) have i: "idle_known hist (moved x a)" "idle_registered (moved x a)" "[] \<notin> dom (managed (moved x a))"
    "sint (as_Min (as_cfg (moved x a))) \<le> sint (as_Max (as_cfg (moved x a)))" by (auto simp: idle_inv_def)
  from assms(2) have o: "range_order (managed (moved x a)) (in_ms x)" by (simp add: orders_ok_def)
  then have d: "distinct (in_ms x)" by (simp add: range_order_def)
  from tick_idle [OF i(1,2) o assms(3) i(4)] tick_named [OF i(3) o assms(3) i(4)]
    tick_cfg [OF assms(3) [unfolded tick_on_def] d i(4)] i(4)
  show ?thesis by (simp add: idle_inv_def)
qed

lemma idle_inv_moved: "idle_inv hist (moved x a) = idle_inv hist a"
  by (simp add: idle_inv_def idle_known_def idle_registered_def)

lemma run_idle_inv:
  "Autoscaler_Run L pid xs a = Some a' \<Longrightarrow> along L pid (orders_ok L) xs a \<Longrightarrow> idle_inv hist a \<Longrightarrow> idle_inv (rev xs @ hist) a'"
proof (induction xs arbitrary: a hist)
  case Nil
  then show ?case by simp
next
  case (Cons x xs)
  then obtain a1 where t: "tick_on L pid x (moved x a) = Some a1" and r: "Autoscaler_Run L pid xs a1 = Some a'"
    by (auto simp: Run_Cons simp del: Autoscaler_Run.simps(2) split: option.splits)
  from Cons.prems(2) t have o: "orders_ok L x (moved x a)" "along L pid (orders_ok L) xs a1" by simp_all
  have "idle_inv (x # hist) a1" by (rule tick_idle_inv [OF _ o(1) t]) (simp add: idle_inv_moved Cons.prems(3))
  from Cons.IH [OF r o(2) this] show ?case by simp
qed

lemma new_idle_inv: "idle_inv hist (NewAutoscaler c l)"
  using config_order by (simp add: idle_inv_def idle_known_def idle_registered_def NewAutoscaler_def Let_def)

section \<open>Properties\<close>


text \<open>
  C27: scale-down takes only workers that are really idle. When a tick stops a worker that
  the reconciliation kept, nothing is queued, the pool is not saturated, there are more
  workers than the minimum, and every tick for at least the idle timeout, this one included,
  saw the worker alive and without tasks.
\<close>
theorem stops_only_idle:
  assumes "Autoscaler_Run L pid xs (NewAutoscaler c l) = Some a" "along L pid (orders_ok L) xs (NewAutoscaler c l)"
    and "orders_ok L x (moved x a)" "tick_on L pid x (moved x a) = Some a'"
    and "managed (reconcile L (in_now x) (byID_of (in_ws x)) (in_ms x) (moved x a)) i \<noteq> None" "managed a' i = None"
  shows "in_queue x = 0 \<and> \<not> saturated (in_ws x) \<and>
    effective (in_ws x) (in_is x) (reconcile L (in_now x) (byID_of (in_ws x)) (in_ms x) (moved x a)) > sint (as_Min c) \<and>
    (\<exists>t. time_Sub (in_now x) t \<ge> IdleTimeout c \<and> idle_for i t (x # rev xs))"
proof -
  let ?a = "reconcile L (in_now x) (byID_of (in_ws x)) (in_ms x) (moved x a)"
  have inv: "idle_inv (rev xs) (moved x a)"
    using run_idle_inv [OF assms(1,2) new_idle_inv, of "[]"] by (simp add: idle_inv_moved)
  from assms(3) have o: "range_order (managed (moved x a)) (in_ms x)" "range_order (managed ?a) (in_is x)"
    by (auto simp: orders_ok_def)
  then have d: "distinct (in_ms x)" by (simp add: range_order_def)
  have c: "as_cfg ?a = as_cfg a" unfolding reconcile_spec(1) [OF d] by simp
  have cfg: "as_Min (as_cfg a) = as_Min c" "IdleTimeout (as_cfg a) = IdleTimeout c"
  proof -
    have "as_cfg a = as_cfg (NewAutoscaler c l) \<and> sint (as_Min (as_cfg a)) \<le> sint (as_Max (as_cfg a))"
    proof (rule run_invariant [OF assms(1) _ assms(2)])
      fix x a a' assume J: "as_cfg a = as_cfg (NewAutoscaler c l) \<and> sint (as_Min (as_cfg a)) \<le> sint (as_Max (as_cfg a))"
        and P: "orders_ok L x a" and t: "tick_on L pid x a = Some a'"
      from P have "distinct (in_ms x)" by (simp add: orders_ok_def range_order_def)
      from tick_cfg [OF t [unfolded tick_on_def] this conjunct2 [OF J]] J show "as_cfg a' = as_cfg (NewAutoscaler c l) \<and> sint (as_Min (as_cfg a')) \<le> sint (as_Max (as_cfg a'))"
        using config_order [of c l] by simp
    qed (use config_order in simp_all)
    then show "as_Min (as_cfg a) = as_Min c" "IdleTimeout (as_cfg a) = IdleTimeout c"
      by (auto simp: NewAutoscaler_def Let_def)
  qed
  from inv have i: "idle_known (rev xs) (moved x a)" "idle_registered (moved x a)" "[] \<notin> dom (managed (moved x a))"
    "sint (as_Min (as_cfg a)) \<le> sint (as_Max (as_cfg a))" by (auto simp: idle_inv_def)
  have known: "idle_known (x # rev xs) ?a" using reconcile_idle [OF i(1,2) o(1)] by blast
  have named: "[] \<notin> dom (managed ?a)" using reconcile_dom [OF o(1)] i(3) by blast
  from tick_cases [OF assms(4) [unfolded tick_on_def] refl c i(4)] show ?thesis
  proof (elim disjE exE conjE)
    assume l: "launch L pid (in_now x) ?a = Some a'"
    from launch_result [OF l] assms(5,6) show ?thesis by (elim disjE exE conjE) (auto split: if_splits)
  next
    assume "a' = ?a"
    with assms(5,6) show ?thesis by simp
  next
    fix j k e
    assume down: "in_queue x = 0" "\<not> saturated (in_ws x)" "effective (in_ws x) (in_is x) ?a > sint (as_Min (as_cfg a))"
      and p: "pickIdle (in_now x) (in_is x) ?a = (j, True)"
      and a': "a' = (if e = None then ?a\<lparr>as_launcher := k, managed := (managed ?a)(j := None)\<rparr> else ?a\<lparr>as_launcher := k\<rparr>)"
    from a' assms(5,6) have "j = i" by (auto split: if_splits)
    have sub: "set (in_is x) \<subseteq> dom (managed ?a)" using o(2) by (simp add: range_order_def)
    from p \<open>j = i\<close> have "pick_loop (in_now x) (IdleTimeout c) (managed ?a) (in_is x) [] 0 = i" "i \<noteq> []"
      by (auto simp: pickIdle_def Let_def c cfg)
    with pick_loop_spec [OF sub named _ this(1)] have "idle_past (in_now x) (IdleTimeout c) (managed ?a) i" by simp
    then obtain w where "managed ?a i = Some w" "idleSince w \<noteq> 0" "time_Sub (in_now x) (idleSince w) \<ge> IdleTimeout c"
      by (auto simp: idle_past_def IsZero_def)
    with known down cfg show ?thesis unfolding idle_known_def by auto
  qed
qed

text \<open>
  C28: no worker process is orphaned while the autoscaler runs, and no foreign worker is
  touched. Over the process launcher, whatever exits, reaping and kills happen between the
  ticks, every process the launcher still runs is managed by the autoscaler or was sent
  SIGTERM, and only workers that carry a name of this autoscaler ever were.
\<close>
theorem no_orphans:
  assumes "Autoscaler_Run (process_ops environ start during killed order) pid xs (NewAutoscaler c (NewProcessLauncher args dir addr base)) = Some a"
    and "\<And>x l. x \<in> set xs \<Longrightarrow> launcher_step\<^sup>*\<^sup>* l (between x l)" "\<And>x. x \<in> set xs \<Longrightarrow> distinct (in_ms x)"
  shows "running_workers (as_launcher a) \<subseteq> dom (managed a) \<union> told_workers (as_launcher a) \<and>
    told_workers (as_launcher a) \<union> dom (managed a) \<subseteq> range (worker_name pid) \<and> launcher_ok (as_launcher a)"
proof -
  have "running_workers (NewProcessLauncher args dir addr base) = {}" by (simp add: running_workers_def NewProcessLauncher_def)
  from pl.run_tracked [OF assms(1) NewProcessLauncher_ok this assms(2,3)] have
    t: "tracked launcher_ok running_workers told_workers pid a" by blast
  then have "told_workers (as_launcher a) \<subseteq> running_workers (as_launcher a)" by (auto simp: tracked_def dest: pl.told_running)
  with t show ?thesis unfolding tracked_def by blast
qed

section \<open>Two limits of the policy\<close>

definition demo_policy :: AutoscalerConfig where
  "demo_policy = \<lparr>as_Min = 1, as_Max = 2, QueueThreshold = 1, IdleTimeout = 5, Cooldown = 3, RegisterTimeout = 15, as_Tick = 1\<rparr>"

definition idle_worker :: "string \<Rightarrow> WorkerMetrics" where
  "idle_worker i = \<lparr>MID = i, MAddress = ''h'', MAlive = True, MActiveTasks = 0, MCapacity = 4, Utilization = 0,
     LastHeartbeatS = 0, RegisteredAtISO = 0\<rparr>"

text \<open>
  A stopped worker stays alive in the pool until the fault detector times it out, so the
  next tick still counts it: with a minimum of one, two ticks one second apart stop both of
  two idle workers.
\<close>

definition two_idle :: "'l \<Rightarrow> 'l Autoscaler" where
  "two_idle l = \<lparr>as_cfg = demo_policy, as_launcher = l,
     managed = [''a'' \<mapsto> \<lparr>launchedAt = 1, registered = True, idleSince = 10\<rparr>, ''b'' \<mapsto> \<lparr>launchedAt = 2, registered = True, idleSince = 11\<rparr>],
     lastLaunch = 2, seq = 2\<rparr>"

lemma stop_never_fails: "snd (Process_StopWorker i l) = None"
  by (simp add: Process_StopWorker_def split: option.split)

lemma scale_down_below_min:
  "\<exists>a1 a2. tick (process_ops environ start during killed order) 7 20 [''a'', ''b''] [''a'', ''b''] [idle_worker ''a'', idle_worker ''b''] 0 (two_idle l) = Some a1 \<and>
     tick (process_ops environ start during killed order) 7 21 [''b''] [''b''] [idle_worker ''a'', idle_worker ''b''] 0 a1 = Some a2 \<and>
     dom (managed a2) = {} \<and> as_Min (as_cfg a2) = 1"
proof -
  let ?L = "process_ops environ start during killed order"
  obtain l1 where l1: "Process_StopWorker ''a'' l = (l1, None)" by (metis prod.collapse stop_never_fails)
  obtain l2 where l2: "Process_StopWorker ''b'' l1 = (l2, None)" by (metis prod.collapse stop_never_fails)
  let ?a1 = "(two_idle l)\<lparr>as_launcher := l1, managed := [''b'' \<mapsto> \<lparr>launchedAt = 2, registered = True, idleSince = 11\<rparr>]\<rparr>"
  let ?a2 = "(two_idle l)\<lparr>as_launcher := l2, managed := Map.empty\<rparr>"
  have "tick ?L 7 20 [''a'', ''b''] [''a'', ''b''] [idle_worker ''a'', idle_worker ''b''] 0 (two_idle l) = Some ?a1"
    using l1 by (simp add: tick_def two_idle_def demo_policy_def reconcile_def reconcile_one_def byID_of_def idle_worker_def
        effective_def live_workers_def pending_launches_def saturated_def pickIdle_def IsZero_def time_Sub_def minDuration_def maxDuration_def
        process_ops_def Let_def)
  moreover have "tick ?L 7 21 [''b''] [''b''] [idle_worker ''a'', idle_worker ''b''] 0 ?a1 = Some ?a2"
    using l2 by (simp add: tick_def two_idle_def demo_policy_def reconcile_def reconcile_one_def byID_of_def idle_worker_def
        effective_def live_workers_def pending_launches_def saturated_def pickIdle_def IsZero_def time_Sub_def minDuration_def maxDuration_def
        process_ops_def Let_def)
  ultimately show ?thesis by (intro exI [where x = ?a1] exI [where x = ?a2]) (simp add: two_idle_def demo_policy_def)
qed

text \<open>
  A worker that dies between its registration and the next tick is marked registered and
  counts neither as alive nor as pending, so that tick may launch one more than the maximum.
\<close>

lemma launch_above_max:
  assumes "Process_LaunchWorker environ start (worker_name 7 2) l = Some (l', None)"
  shows "\<exists>a'. tick (process_ops environ start during killed order) 7 20 [worker_name 7 1] [worker_name 7 1] [(idle_worker (worker_name 7 1))\<lparr>MAlive := False\<rparr>] 1
       \<lparr>as_cfg = demo_policy\<lparr>as_Max := 1\<rparr>, as_launcher = l,
        managed = [worker_name 7 1 \<mapsto> \<lparr>launchedAt = 1, registered = False, idleSince = 0\<rparr>], lastLaunch = 1, seq = 1\<rparr> = Some a' \<and>
     dom (managed a') = {worker_name 7 1, worker_name 7 2}"
  using assms
  by (simp add: tick_def demo_policy_def reconcile_def reconcile_one_def byID_of_def idle_worker_def effective_def
      live_workers_def pending_launches_def launch_def process_ops_def Let_def insert_commute)

section \<open>Witnesses\<close>

text \<open>
  A run over the process launcher: one worker is launched for a queued job, registers, is
  seen idle, and a fourth tick stops it.
\<close>

abbreviation demo_ops :: "ProcessLauncher Launcher" where
  "demo_ops \<equiv> process_ops [] (\<lambda>_. None) (\<lambda>_ l. l) proc_exits (\<lambda>_. [])"

abbreviation demo_name :: string where
  "demo_name \<equiv> worker_name 7 1"

definition demo_input :: "gotime \<Rightarrow> string list \<Rightarrow> WorkerMetrics list \<Rightarrow> int64 \<Rightarrow> ProcessLauncher as_input" where
  "demo_input now ms ws queue = \<lparr>in_now = now, in_ms = ms, in_is = ms, in_ws = ws, in_queue = queue, between = (\<lambda>l. l)\<rparr>"

definition demo_inputs :: "ProcessLauncher as_input list" where
  "demo_inputs = [demo_input 10 [] [] 1, demo_input 20 [demo_name] [idle_worker demo_name] 0, demo_input 30 [demo_name] [idle_worker demo_name] 0]"

definition demo_scaler :: "ProcessLauncher \<Rightarrow> (string \<rightharpoonup> managedWorker) \<Rightarrow> gotime \<Rightarrow> int64 \<Rightarrow> ProcessLauncher Autoscaler" where
  "demo_scaler l m t n = \<lparr>as_cfg = demo_policy\<lparr>as_Min := 0\<rparr>, as_launcher = l, managed = m, lastLaunch = t, seq = n\<rparr>"

abbreviation demo_new :: ProcessLauncher where
  "demo_new \<equiv> NewProcessLauncher [''python''] ''.'' ''127.0.0.1:50051'' 50100"

abbreviation demo_one :: ProcessLauncher where
  "demo_one \<equiv> started [] demo_name 50100 demo_new"

lemma demo_start: "NewAutoscaler (demo_policy\<lparr>as_Min := 0\<rparr>) demo_new = demo_scaler demo_new Map.empty 0 0"
  by (simp add: NewAutoscaler_def demo_policy_def demo_scaler_def)

lemma demo_moved: "moved (demo_input now ms ws queue) a = a"
  by (simp add: moved_def demo_input_def)

lemmas demo_eval = tick_on_def tick_def reconcile_def reconcile_one_def demo_input_def demo_scaler_def demo_policy_def byID_of_def idle_worker_def
  effective_def live_workers_def pending_launches_def saturated_def pickIdle_def IsZero_def time_Sub_def minDuration_def maxDuration_def process_ops_def Let_def

lemma demo_ticks:
  "tick_on demo_ops 7 (demo_input 10 [] [] 1) (demo_scaler demo_new Map.empty 0 0) =
     Some (demo_scaler demo_one [demo_name \<mapsto> \<lparr>launchedAt = 10, registered = False, idleSince = 0\<rparr>] 10 1)"
  "tick_on demo_ops 7 (demo_input 20 [demo_name] [idle_worker demo_name] 0)
     (demo_scaler demo_one [demo_name \<mapsto> \<lparr>launchedAt = 10, registered = False, idleSince = 0\<rparr>] 10 1) =
     Some (demo_scaler demo_one [demo_name \<mapsto> \<lparr>launchedAt = 10, registered = True, idleSince = 0\<rparr>] 10 1)"
  "tick_on demo_ops 7 (demo_input 30 [demo_name] [idle_worker demo_name] 0)
     (demo_scaler demo_one [demo_name \<mapsto> \<lparr>launchedAt = 10, registered = True, idleSince = 0\<rparr>] 10 1) =
     Some (demo_scaler demo_one [demo_name \<mapsto> \<lparr>launchedAt = 10, registered = True, idleSince = 30\<rparr>] 10 1)"
  "tick_on demo_ops 7 (demo_input 40 [demo_name] [idle_worker demo_name] 0)
     (demo_scaler demo_one [demo_name \<mapsto> \<lparr>launchedAt = 10, registered = True, idleSince = 30\<rparr>] 10 1) =
     Some (demo_scaler (fst (Process_StopWorker demo_name demo_one)) Map.empty 10 1)"
proof -
  have n: "demo_name \<noteq> []" by (simp add: worker_name_def)
  have "Process_LaunchWorker [] (\<lambda>_. None) demo_name demo_new = Some (demo_one, None)"
    by (simp add: Process_LaunchWorker_def leasePortLocked_def NewProcessLauncher_def started_def Let_def worker_cmd_def)
  then show "tick_on demo_ops 7 (demo_input 10 [] [] 1) (demo_scaler demo_new Map.empty 0 0) =
     Some (demo_scaler demo_one [demo_name \<mapsto> \<lparr>launchedAt = 10, registered = False, idleSince = 0\<rparr>] 10 1)"
    by (simp add: demo_eval launch_def)
  show "tick_on demo_ops 7 (demo_input 40 [demo_name] [idle_worker demo_name] 0)
     (demo_scaler demo_one [demo_name \<mapsto> \<lparr>launchedAt = 10, registered = True, idleSince = 30\<rparr>] 10 1) =
     Some (demo_scaler (fst (Process_StopWorker demo_name demo_one)) Map.empty 10 1)"
    using n stop_never_fails [of demo_name demo_one]
    by (cases "Process_StopWorker demo_name demo_one") (simp add: demo_eval)
qed (simp_all add: demo_eval)

lemma demo_run:
  "Autoscaler_Run demo_ops 7 demo_inputs (NewAutoscaler (demo_policy\<lparr>as_Min := 0\<rparr>) demo_new) =
     Some (demo_scaler demo_one [demo_name \<mapsto> \<lparr>launchedAt = 10, registered = True, idleSince = 30\<rparr>] 10 1)"
  unfolding demo_start demo_inputs_def Run_Cons demo_moved demo_ticks option.case by simp

lemma demo_orders:
  "orders_ok demo_ops (demo_input 10 [] [] 1) (demo_scaler demo_new Map.empty 0 0)"
  "orders_ok demo_ops (demo_input 20 [demo_name] [idle_worker demo_name] 0)
     (demo_scaler demo_one [demo_name \<mapsto> \<lparr>launchedAt = 10, registered = False, idleSince = 0\<rparr>] 10 1)"
  "orders_ok demo_ops (demo_input 30 [demo_name] [idle_worker demo_name] 0)
     (demo_scaler demo_one [demo_name \<mapsto> \<lparr>launchedAt = 10, registered = True, idleSince = 0\<rparr>] 10 1)"
  "orders_ok demo_ops (demo_input 40 [demo_name] [idle_worker demo_name] 0)
     (demo_scaler demo_one [demo_name \<mapsto> \<lparr>launchedAt = 10, registered = True, idleSince = 30\<rparr>] 10 1)"
  by (simp_all add: orders_ok_def range_order_def demo_input_def demo_scaler_def reconcile_def reconcile_one_def byID_of_def idle_worker_def IsZero_def)


theorem stops_only_idle_witness:
  "\<exists>t. time_Sub 40 t \<ge> 5 \<and> idle_for demo_name t (demo_input 40 [demo_name] [idle_worker demo_name] 0 # rev demo_inputs)"
proof -
  let ?x = "demo_input 40 [demo_name] [idle_worker demo_name] 0"
  have "along demo_ops 7 (orders_ok demo_ops) demo_inputs (NewAutoscaler (demo_policy\<lparr>as_Min := 0\<rparr>) demo_new)"
    unfolding demo_start demo_inputs_def along.simps demo_moved demo_ticks option.case by (simp add: demo_orders)
  from stops_only_idle [OF demo_run this, of ?x, unfolded demo_moved, OF demo_orders(4) demo_ticks(4), of demo_name] show ?thesis
    by (simp add: demo_eval)
qed

theorem no_orphans_witness:
  "running_workers demo_one \<subseteq> {demo_name} \<union> told_workers demo_one"
proof -
  have "launcher_step\<^sup>*\<^sup>* l (between x l)" if "x \<in> set demo_inputs" for x l
    using that by (auto simp: demo_inputs_def demo_input_def)
  moreover have "distinct (in_ms x)" if "x \<in> set demo_inputs" for x
    using that by (auto simp: demo_inputs_def demo_input_def)
  ultimately show ?thesis using no_orphans [OF demo_run] by (simp add: demo_scaler_def)
qed

end
