(* ===== verification/Dispatcher.thy ===== *)
theory Dispatcher
  imports Handlers
begin

text \<open>
  The background work of \<open>server.go\<close>: recovery at startup (\<open>RecoverUnfinishedJobs\<close>), the
  drainer of the pending queue (\<open>RunPendingQueueLoop\<close>, \<open>attemptDispatch\<close>), and the
  reaper that the fault detector calls for a dead worker (\<open>ReassignJobsOf\<close>).

  \<open>attemptDispatch\<close> returns the server and, for the statements about it, the backoff
  waits it went through. \<open>Dispatch\<close> runs over the server itself (\<open>on_store\<close>), so its
  environment is what the other goroutines do to the whole server. \<open>RunPendingQueueLoop\<close>
  is unrolled for a number of rounds; a round is one received job, or an idle moment.
\<close>

section \<open>Recovery\<close>

fun recover_loop :: "'st Store \<Rightarrow> 'st handler_env \<Rightarrow> nat \<Rightarrow> JobRecord list \<Rightarrow> 'st Server \<Rightarrow> 'st Server option" where
  "recover_loop S E k [] s = Some s"
| "recover_loop S E k (j # jobs) s =
     (case Transition (on_store S) (clock E k) (ID j) recover (others E (3 * k) s) of
        (s1, _, Some err, _) \<Rightarrow> recover_loop S E (Suc k) jobs s1
      | (s1, _, None, _) \<Rightarrow>
          (case enqueue (others E (3 * k + 2)) (ID j) (others E (3 * k + 1) s1) of
             None \<Rightarrow> None
           | Some s2 \<Rightarrow> recover_loop S E (Suc k) jobs s2))"

definition RecoverUnfinishedJobs :: "'st Store \<Rightarrow> 'st handler_env \<Rightarrow> 'st Server \<Rightarrow> ('st Server \<times> go_error option) option" where
  "RecoverUnfinishedJobs S E s =
     (case ListUnfinished (on_store S) s of
        (_, Some err) \<Rightarrow> Some (s, Some err)
      | (jobs, None) \<Rightarrow>
          (if jobs = [] then Some (s, None)
           else map_option (\<lambda>s'. (s', None)) (recover_loop S E 0 jobs s)))"

section \<open>The reaper\<close>

text \<open>
  The closure's captured flags after all the runs of the mutator: set by a run on a RUNNING
  job, never reset.
\<close>

definition markedFailed :: "int64 \<Rightarrow> JobRecord list \<Rightarrow> bool" where
  "markedFailed maxRetries runs =
     list_ex (\<lambda>r. Status r = StatusRunning \<and> sint (RetryCount r + 1) > sint maxRetries) runs"

definition markedPending :: "int64 \<Rightarrow> JobRecord list \<Rightarrow> bool" where
  "markedPending maxRetries runs =
     list_ex (\<lambda>r. Status r = StatusRunning \<and> \<not> sint (RetryCount r + 1) > sint maxRetries) runs"

fun reassign_loop :: "'st Store \<Rightarrow> 'st handler_env \<Rightarrow> nat \<Rightarrow> JobRecord list \<Rightarrow> 'st Server \<Rightarrow> 'st Server option" where
  "reassign_loop S E k [] s = Some s"
| "reassign_loop S E k (j # jobs) s =
     (case Transition (on_store S) (clock E k) (ID j) (reap (MaxRetries (cfg s))) (others E (3 * k) s) of
        (s1, committed, Some err, _) \<Rightarrow> reassign_loop S E (Suc k) jobs s1
      | (s1, committed, None, runs) \<Rightarrow>
          (if \<not> committed then reassign_loop S E (Suc k) jobs s1
           else if markedPending (MaxRetries (cfg s)) runs then
             (case enqueue (others E (3 * k + 2)) (ID j) (others E (3 * k + 1) s1) of
                None \<Rightarrow> None
              | Some s2 \<Rightarrow> reassign_loop S E (Suc k) jobs s2)
           else if markedFailed (MaxRetries (cfg s)) runs then
             reassign_loop S E (Suc k) jobs (notifyTerminal S (others E (3 * k + 2)) (ID j) (others E (3 * k + 1) s1))
           else reassign_loop S E (Suc k) jobs s1))"

definition ReassignJobsOf :: "'st Store \<Rightarrow> 'st handler_env \<Rightarrow> string \<Rightarrow> 'st Server \<Rightarrow> 'st Server option" where
  "ReassignJobsOf S E workerID s =
     (case ListRunningOnWorker (on_store S) workerID s of
        (_, Some err) \<Rightarrow> Some s
      | (jobs, None) \<Rightarrow> reassign_loop S E 0 jobs s)"

section \<open>The drainer\<close>

record 'st drain_env =
  attempt_env :: "nat \<Rightarrow> 'st Server dispatch_env"
  cancelled :: "nat \<Rightarrow> bool"
  pause :: "nat \<Rightarrow> 'st Server \<Rightarrow> 'st Server"
  closing :: "'st handler_env"

definition maxBackoff :: duration where
  "maxBackoff = 2 * Second"

definition give_up :: "'st Store \<Rightarrow> 'st handler_env \<Rightarrow> string \<Rightarrow> string \<Rightarrow> 'st Server \<Rightarrow> 'st Server" where
  "give_up S E jobID msg s =
     (case Transition (on_store S) (clock E 0) jobID (failDispatch msg) (others E 0 s) of
        (s1, _, _, _) \<Rightarrow> notifyTerminal S (others E 2) jobID (others E 1 s1))"

definition exhausted :: "'st Store \<Rightarrow> 'st handler_env \<Rightarrow> string \<Rightarrow> int64 \<Rightarrow> 'st Server \<Rightarrow> 'st Server" where
  "exhausted S E jobID maxAttempts s =
     (let s1 = others E 3 (give_up S E jobID
           (''dispatch failed: no worker accepted after '' @ show_int (sint maxAttempts) @ '' attempts'') s)
      in s1\<lparr>metrics := RecordFailed (metrics s1)\<rparr>)"

fun attempt_loop ::
  "'st Store \<Rightarrow> 'st drain_env \<Rightarrow> nat \<Rightarrow> string \<Rightarrow> int64 \<Rightarrow> nat \<Rightarrow> nat \<Rightarrow> duration \<Rightarrow> bool \<Rightarrow> duration list \<Rightarrow> 'st Server \<Rightarrow>
   ('st Server \<times> bool \<times> duration list) option" where
  "attempt_loop S D fuel jobID maxAttempts n 0 backoff stalled waits s =
     Some (exhausted S (closing D) jobID maxAttempts s, stalled, waits)"
| "attempt_loop S D fuel jobID maxAttempts n (Suc left) backoff stalled waits s =
     (case Dispatch (on_store S) (attempt_env D n) fuel jobID (scheduler s) s of
        None \<Rightarrow> None
      | Some (sch, s1, e, _) \<Rightarrow>
          (let s2 = s1\<lparr>scheduler := sch\<rparr>
           in case e of
                None \<Rightarrow> Some (s2, stalled, waits)
              | Some err \<Rightarrow>
                  (if errors_Is err ErrJobAlreadyTerminal then Some (s2, stalled, waits)
                   else if errors_Is err ErrNoWorkersAvailable \<or> errors_Is err ErrAllWorkersExhausted then
                     (let s3 = (if \<not> stalled then s2\<lparr>stalledDispatches := stalledDispatches s2 + 1\<rparr> else s2)
                      in if left = 0 then Some (exhausted S (closing D) jobID maxAttempts s3, True, waits)
                         else if cancelled D n then Some (s3, True, waits)
                         else attempt_loop S D fuel jobID maxAttempts (Suc n) left
                                (if backoff < maxBackoff then 2 * backoff else backoff) True (waits @ [backoff])
                                (pause D n s3))
                   else Some (give_up S (closing D) jobID (''dispatch failed: '' @ err_Error err) s2, stalled, waits))))"

definition max_attempts :: "Config \<Rightarrow> int64" where
  "max_attempts c = (if sint (MaxDispatchAttempts c) < 1 then 30 else MaxDispatchAttempts c)"

definition attemptDispatch ::
  "'st Store \<Rightarrow> 'st drain_env \<Rightarrow> nat \<Rightarrow> string \<Rightarrow> 'st Server \<Rightarrow> ('st Server \<times> duration list) option" where
  "attemptDispatch S D fuel jobID s =
     map_option (\<lambda>(s', stalled, waits).
         (if stalled then s'\<lparr>stalledDispatches := stalledDispatches s' - 1\<rparr> else s', waits))
       (attempt_loop S D fuel jobID (max_attempts (cfg s)) 0 (nat (sint (max_attempts (cfg s))))
          (100 * Millisecond) False [] s)"

record 'st loop_env =
  received :: "nat \<Rightarrow> 'st drain_env"
  idle :: "nat \<Rightarrow> 'st Server \<Rightarrow> 'st Server"
  stopped :: "nat \<Rightarrow> bool"

fun RunPendingQueueLoop :: "'st Store \<Rightarrow> 'st loop_env \<Rightarrow> nat \<Rightarrow> nat \<Rightarrow> nat \<Rightarrow> 'st Server \<Rightarrow> 'st Server option" where
  "RunPendingQueueLoop S R fuel k 0 s = Some s"
| "RunPendingQueueLoop S R fuel k (Suc n) s =
     (let s1 = idle R k s
      in if stopped R k then Some s1
         else case pendingQueue s1 of
                [] \<Rightarrow> RunPendingQueueLoop S R fuel (Suc k) n s1
              | jobID # q \<Rightarrow>
                  (case attemptDispatch S (received R k) fuel jobID (s1\<lparr>pendingQueue := q\<rparr>) of
                     None \<Rightarrow> None
                   | Some (s2, _) \<Rightarrow> RunPendingQueueLoop S R fuel (Suc k) n s2))"

section \<open>Recovery and reaper as server moves\<close>

context served
begin

lemma recover_loop_moves:
  assumes "env_moves A I L E" "recover_loop S E k jobs s = Some s'"
  shows "srv_moves A I L X X s s'"
  using assms(2)
proof (induction jobs arbitrary: k s)
  case Nil
  then show ?case by simp
next
  case (Cons j jobs)
  note e = env_movesD [OF assms(1)]
  obtain s1 c err runs where t: "Transition (on_store S) (clock E k) (ID j) recover (others E (3 * k) s) = (s1, c, err, runs)"
    by (rule prod_cases4)
  have m1: "srv_moves A I L X (insert (ID j) X) (others E (3 * k) s) s1"
    by (rule Transition_srv_moves [OF lifecycle_muts(6) t]) auto
  show ?case
  proof (cases err)
    case (Some x)
    have unch: "srv_moves A I L X X (others E (3 * k) s) s1"
      by (rule Transition_error_moves [OF lifecycle_muts(6) t]) (simp add: Some)
    from Some t Cons.prems have "recover_loop S E (Suc k) jobs s1 = Some s'" by simp
    from srv_moves_trans [OF e srv_moves_trans [OF unch Cons.IH [OF this]]] show ?thesis .
  next
    case None
    with t Cons.prems obtain s2 where q: "enqueue (others E (3 * k + 2)) (ID j) (others E (3 * k + 1) s1) = Some s2"
      and r: "recover_loop S E (Suc k) jobs s2 = Some s'" by (auto split: option.splits)
    note e
    also note m1
    also have "srv_moves A I L (insert (ID j) X) X s1 s2" by (rule srv_moves_trans [OF e enqueue_moves [OF e q]])
    also note Cons.IH [OF r]
    finally show ?thesis .
  qed
qed

lemma RecoverUnfinishedJobs_moves:
  assumes "env_moves A I L E" "RecoverUnfinishedJobs S E s = Some (s', e)"
  shows "srv_moves A I L X X s s'"
proof -
  obtain jobs le where "ListUnfinished S (jobStore s) = (jobs, le)" by fastforce
  with assms(2) have "s' = s \<or> recover_loop S E 0 jobs s = Some s'"
    by (auto simp: RecoverUnfinishedJobs_def split: option.splits if_splits)
  with recover_loop_moves [OF assms(1)] show ?thesis by auto
qed

text \<open>
  A committed reap of a RUNNING job set exactly one of the two flags, and the job is PENDING
  with its retry counted, or FAILED.
\<close>

lemma reap_effect:
  assumes "Transition (on_store S) now i (reap n) s = (s', True, None, runs)" "srv_ok A I s"
  shows "\<exists>r r'. runs = [r] \<and> Status r = StatusRunning \<and> a_jobs (A (jobStore s)) i = Some r \<and>
    a_jobs (A (jobStore s')) i = Some r' \<and> RetryCount r' = RetryCount r + 1 \<and>
    (if markedPending n runs then Status r' = StatusPending \<and> WorkerID r' = []
     else markedFailed n runs \<and> Status r' = StatusFailed)"
proof -
  from Transition_effect [OF lifecycle_muts(4) assms] obtain st where st: "s' = s\<lparr>jobStore := st\<rparr>"
    "(A st, True, None, runs) = spec_Transition now i (reap n) (A (jobStore s))" by blast
  then show ?thesis
    by (auto simp: spec_Transition_def reap_def markedPending_def markedFailed_def Let_def
        split: option.splits sum.splits if_splits)
qed

lemma reassign_loop_moves:
  assumes "env_moves A I L E" "reassign_loop S E k jobs s = Some s'"
  shows "srv_moves A I L X X s s'"
  using assms(2)
proof (induction jobs arbitrary: k s)
  case Nil
  then show ?case by simp
next
  case (Cons j jobs)
  note e = env_movesD [OF assms(1)]
  let ?n = "MaxRetries (cfg s)" and ?s = "others E (3 * k) s"
  obtain s1 c err runs where t: "Transition (on_store S) (clock E k) (ID j) (reap ?n) ?s = (s1, c, err, runs)"
    by (rule prod_cases4)
  have m1: "srv_moves A I L X (insert (ID j) X) ?s s1"
    by (rule Transition_srv_moves [OF lifecycle_muts(4) t]) auto
  consider (no) "err \<noteq> None \<or> \<not> c" | (yes) "err = None" c by blast
  then show ?case
  proof cases
    case no
    then have "srv_moves A I L X X ?s s1" by (rule Transition_error_moves [OF lifecycle_muts(4) t])
    moreover from no t Cons.prems have "reassign_loop S E (Suc k) jobs s1 = Some s'" by (cases err) simp_all
    ultimately show ?thesis using srv_moves_trans [OF e srv_moves_trans [OF _ Cons.IH]] by blast
  next
    case yes
    with t have t': "Transition (on_store S) (clock E k) (ID j) (reap ?n) ?s = (s1, True, None, runs)" by simp
    show ?thesis
    proof (cases "markedPending ?n runs")
      case True
      with yes t Cons.prems obtain s2 where q: "enqueue (others E (3 * k + 2)) (ID j) (others E (3 * k + 1) s1) = Some s2"
        and r: "reassign_loop S E (Suc k) jobs s2 = Some s'" by (auto split: option.splits)
      note e
      also note m1
      also have "srv_moves A I L (insert (ID j) X) X s1 s2" by (rule srv_moves_trans [OF e enqueue_moves [OF e q]])
      also note Cons.IH [OF r]
      finally show ?thesis .
    next
      case False
      have rel: "srv_moves A I L X X ?s s1"
      proof (cases "srv_ok A I ?s")
        case True
        from reap_effect [OF t' True] False have
          "\<exists>r'. a_jobs (A (jobStore s1)) (ID j) = Some r' \<and> Status r' = StatusFailed" by auto
        then have "srv_moves A I L (insert (ID j) X) X s1 s1" by (intro srv_moves_release) (auto simp: status_defs)
        from srv_moves_trans [OF m1 this] show ?thesis .
      qed (simp add: srv_moves_def)
      let ?s2 = "if markedFailed ?n runs then notifyTerminal S (others E (3 * k + 2)) (ID j) (others E (3 * k + 1) s1) else s1"
      from False yes t Cons.prems have r: "reassign_loop S E (Suc k) jobs ?s2 = Some s'"
        by (cases "markedFailed ?n runs") simp_all
      note e
      also note rel
      also have "srv_moves A I L X X s1 ?s2"
        using srv_moves_trans [OF e notifyTerminal_moves [OF e]] by simp
      also note Cons.IH [OF r]
      finally show ?thesis .
    qed
  qed
qed

lemma ReassignJobsOf_moves:
  assumes "env_moves A I L E" "ReassignJobsOf S E w s = Some s'"
  shows "srv_moves A I L X X s s'"
proof -
  obtain jobs le where "ListRunningOnWorker S w (jobStore s) = (jobs, le)" by fastforce
  with assms(2) have "s' = s \<or> reassign_loop S E 0 jobs s = Some s'"
    by (auto simp: ReassignJobsOf_def split: option.splits)
  with reassign_loop_moves [OF assms(1)] show ?thesis by auto
qed

end

section \<open>Dispatch as a server move\<close>

definition dispatch_env_moves ::
  "('st \<Rightarrow> abs_store) \<Rightarrow> ('st \<Rightarrow> bool) \<Rightarrow> bool \<Rightarrow> 'st Server dispatch_env \<Rightarrow> bool" where
  "dispatch_env_moves A I L E \<longleftrightarrow> (\<forall>k s. srv_moves A I L {} {} s (env_other E k s)) \<and>
     (\<forall>k conn req s. srv_moves A I L {} {} s (fst (env_rpc E k conn req s))) \<and> (\<forall>k. time_ok (env_now E k))"

lemma dispatch_env_movesD:
  assumes "dispatch_env_moves A I L E"
  shows "srv_moves A I L X X s (env_other E k s)" "srv_moves A I L X X s (fst (env_rpc E k conn req s))" "time_ok (env_now E k)"
  using assms unfolding dispatch_env_moves_def by (blast intro: srv_moves_frame)+

text \<open>The outcomes after which the drainer lets go of the job.\<close>

definition settled :: "go_error option \<Rightarrow> bool" where
  "settled e \<longleftrightarrow> (case e of None \<Rightarrow> True | Some x \<Rightarrow> errors_Is x ErrJobAlreadyTerminal)"

text \<open>The job was stored as RUNNING on the way; or it is terminal.\<close>

definition was_run :: "('st \<Rightarrow> abs_store) \<Rightarrow> string \<Rightarrow> 'st Server \<Rightarrow> 'st Server \<Rightarrow> bool" where
  "was_run A i s s' \<longleftrightarrow> (\<exists>m r. store_moves (A (jobStore s)) m \<and> a_jobs m i = Some r \<and> Status r = StatusRunning \<and>
     store_moves m (A (jobStore s')))"

definition finished :: "('st \<Rightarrow> abs_store) \<Rightarrow> string \<Rightarrow> 'st Server \<Rightarrow> bool" where
  "finished A i s \<longleftrightarrow> (\<exists>r. a_jobs (A (jobStore s)) i = Some r \<and> terminal r)"

lemma was_run_earlier: "store_moves (A (jobStore s)) (A (jobStore s1)) \<Longrightarrow> was_run A i s1 s' \<Longrightarrow> was_run A i s s'"
  unfolding was_run_def by (meson rtranclp_trans)

lemma was_run_later: "was_run A i s s1 \<Longrightarrow> store_moves (A (jobStore s1)) (A (jobStore s')) \<Longrightarrow> was_run A i s s'"
  unfolding was_run_def by (meson rtranclp_trans)

lemma terminal_not_pending: "terminal r \<Longrightarrow> Status r \<noteq> StatusPending"
  by (auto simp: terminal_def status_defs)

lemma sendExecuteTask_moves:
  assumes "dispatch_env_moves A I L E" "sendExecuteTask E k w a rec sch s = (sch', s', e)"
  shows "srv_moves A I L X X s s'"
proof -
  obtain sch1 x where d: "getOrDial (env_dial E k) w a (if env_closed E k then Scheduler_Close sch else sch) = (sch1, x)"
    by fastforce
  have "s' = s \<or> (\<exists>conn. s' = fst (env_rpc E k conn (exec_request rec) s))"
  proof (cases x)
    case (Inl err)
    with assms(2) d show ?thesis by (simp add: sendExecuteTask_def)
  next
    case (Inr conn)
    with assms(2) d have "s' = fst (env_rpc E k conn (exec_request rec) s)"
      by (auto simp: sendExecuteTask_def split: prod.splits sum.splits if_splits)
    then show ?thesis by blast
  qed
  with dispatch_env_movesD(2) [OF assms(1)] show ?thesis by auto
qed

context served
begin

lemma Transition_live:
  assumes "reliable_store S A I" "srv_ok A I s" "mut_ok f" "time_ok now"
    and "Transition (on_store S) now i f s = (s', c, e, runs)"
  shows "(A (jobStore s'), c, e, runs) = spec_Transition now i f (A (jobStore s))"
proof -
  have "live_server S A I" using served_axioms assms(1) by (intro live_server.intro live_server_axioms.intro)
  from reliable_store.Transition_reliable [OF live_server.on_store_reliable [OF this] srv_okD(1) [OF assms(2)] assms(3-5)]
  show ?thesis .
qed

lemma mark_effect:
  assumes "Transition (on_store S) now i (markRunning w) s = (s', c, None, runs)" "srv_ok A I s"
  shows "\<exists>r. a_jobs (A (jobStore s')) i = Some r \<and> (if c then Status r = StatusRunning else terminal r)"
  using sv.Transition_ok [OF srv_okD(1) [OF assms(2)] mutators_ok(1) assms(1)]
  by (auto simp: markRunning_def terminal_def split: if_splits)

lemma dispatch_loop_srv:
  assumes env: "dispatch_env_moves A I L E" and live: "L \<Longrightarrow> reliable_store S A I"
    and "srv_ok A I s" "dispatch_loop (on_store S) E i rec fuel tried sch s = Some (sch', s', e, tried')"
  shows "srv_moves A I L (insert i X) (if settled e then X else insert i X) s s' \<and>
    (e = None \<longrightarrow> was_run A i s s') \<and> (L \<longrightarrow> e \<noteq> None \<longrightarrow> settled e \<longrightarrow> finished A i s')"
  using assms(3,4)
proof (induction fuel arbitrary: tried sch s)
  case 0
  then show ?case by simp
next
  case (Suc fuel)
  let ?k = "length tried" and ?X = "insert i X"
  obtain w a ok where sel: "LeastLoadedAliveExcluding (env_order E ?k) (set tried) (env_pool E ?k) = (w, a, ok)"
    by (cases "LeastLoadedAliveExcluding (env_order E ?k) (set tried) (env_pool E ?k)")
  show ?case
  proof (cases ok)
    case False
    with sel Suc.prems show ?thesis by (auto simp: Let_def settled_def split: if_splits)
  next
    case True
    note d = dispatch_env_movesD [OF env]
    let ?s = "env_other E (2 * ?k + 1) s"
    obtain s1 c e1 runs where mark:
      "Transition (on_store S) (env_now E (2 * ?k + 1)) i (markRunning w) ?s = (s1, c, e1, runs)"
      by (rule prod_cases4)
    have ok: "srv_ok A I ?s" by (rule srv_movesD(1) [OF d(1) Suc.prems(1)])
    have np: "never_pends (markRunning w) \<or> i \<in> Y" for Y by simp
    have m1: "srv_moves A I L ?X ?X s s1"
      by (rule srv_moves_trans [OF d(1) Transition_srv_moves [OF lifecycle_muts(1) mark np subset_refl]])
    note ok1 = srv_movesD(1) [OF m1 Suc.prems(1)]
    consider (err) x where "e1 = Some x" | (lost) "e1 = None" "\<not> c" | (marked) "e1 = None" c by (cases e1) auto
    then show ?thesis
    proof cases
      case err
      with Suc.prems(2) sel True mark have s': "s' = s1"
        and e: "e = Some (Wrapf (''mark RUNNING for job '' @ i @ '': '') x [])" by (auto simp: Let_def)
      have "\<not> settled e" if L
      proof -
        from Transition_live [OF live [OF that] ok mutators_ok(1) d(3) mark] err have "x = not_found i"
          by (auto simp: spec_Transition_def markRunning_def skip_def split: option.splits sum.splits if_splits)
        then show ?thesis by (simp add: e settled_def)
      qed
      then show ?thesis
      proof (cases L)
        case True
        with \<open>L \<Longrightarrow> \<not> settled e\<close> m1 s' e show ?thesis by simp
      next
        case False
        with m1 s' e show ?thesis by (auto intro: srv_moves_unaccounted)
      qed
    next
      case lost
      with Suc.prems(2) sel True mark have s': "s' = s1" and e: "e = Some (Sentinel ErrJobAlreadyTerminal)"
        by (auto simp: Let_def)
      from lost mark_effect [OF _ ok] mark obtain r where r: "a_jobs (A (jobStore s1)) i = Some r" "terminal r" by fastforce
      then have "srv_moves A I L ?X X s1 s1" by (intro srv_moves_release) (auto dest: terminal_not_pending)
      from srv_moves_trans [OF m1 this] r show ?thesis by (auto simp: s' e settled_def finished_def)
    next
      case marked
      from marked mark_effect [OF _ ok] mark obtain r where r: "a_jobs (A (jobStore s1)) i = Some r" "Status r = StatusRunning"
        by fastforce
      then have rel: "srv_moves A I L ?X X s1 s1" by (intro srv_moves_release) (auto simp: status_defs)
      obtain sch1 s2 e2 where rpc: "sendExecuteTask E ?k w a rec sch s1 = (sch1, s2, e2)"
        by (cases "sendExecuteTask E ?k w a rec sch s1")
      note m2 = srv_moves_trans [OF m1 srv_moves_trans [OF rel sendExecuteTask_moves [OF env rpc]]]
      note sm = srv_movesD(2) [OF sendExecuteTask_moves [OF env rpc, of "{}"] ok1]
      show ?thesis
      proof (cases e2)
        case None
        with Suc.prems(2) sel True mark marked rpc have s': "s' = s2" and e: "e = None" by (auto simp: Let_def)
        have "was_run A i s s2" unfolding was_run_def using srv_movesD(2) [OF m1 Suc.prems(1)] r sm by blast
        with m2 show ?thesis by (simp add: s' e settled_def)
      next
        case (Some x)
        let ?t = "env_other E (2 * ?k + 2) s2"
        obtain s3 c3 e3 runs3 where rev: "Transition (on_store S) (env_now E (2 * ?k + 2)) i revertPending ?t = (s3, c3, e3, runs3)"
          by (rule prod_cases4)
        have v: "srv_moves A I L X ?X ?t s3" by (rule Transition_srv_moves [OF lifecycle_muts(2) rev]) auto
        have m3: "srv_moves A I L ?X ?X s s3" by (rule srv_moves_trans [OF m2 srv_moves_trans [OF d(1) v]])
        from Suc.prems(2) sel True mark marked rpc Some rev have
          loop: "dispatch_loop (on_store S) E i rec fuel (tried @ [w]) sch1 s3 = Some (sch', s', e, tried')" by (simp add: Let_def)
        note IH = Suc.IH [OF srv_movesD(1) [OF m3 Suc.prems(1)] loop]
        from IH srv_moves_trans [OF m3 conjunct1 [OF IH]] was_run_earlier [OF srv_movesD(2) [OF m3 Suc.prems(1)]] show ?thesis
          by blast
      qed
    qed
  qed
qed

lemma Dispatch_srv:
  assumes env: "dispatch_env_moves A I L E" and live: "L \<Longrightarrow> reliable_store S A I"
    and ok: "srv_ok A I s" and d: "Dispatch (on_store S) E fuel i sch s = Some (sch', s', e, tried')"
  shows "srv_moves A I L (insert i X) (if settled e then X else insert i X) s s' \<and>
    (e = None \<longrightarrow> was_run A i s s') \<and> (L \<longrightarrow> e \<noteq> None \<longrightarrow> settled e \<longrightarrow> finished A i s')"
proof (cases "GetJob S i (jobStore s)")
  case (Inl err)
  with d have s': "s' = s" and e: "e = Some (Wrapf (''load job '' @ i @ '': '') err [])" by (auto simp: Dispatch_def)
  have "\<not> L" using reliable_store.GetJob_reliable [OF live srv_okD(1) [OF ok], of i] Inl by auto
  with s' e show ?thesis by (auto intro: srv_moves_unaccounted)
next
  case (Inr x)
  then have x: "x = a_jobs (A (jobStore s)) i"
    using sv.GetJob_fallible [OF srv_okD(1) [OF ok], of i x] by simp
  show ?thesis
  proof (cases x)
    case None
    with d Inr have "s' = s" "e = Some (not_found i)" by (auto simp: Dispatch_def)
    then show ?thesis by (simp add: settled_def)
  next
    case (Some rec)
    then have j: "a_jobs (A (jobStore s)) i = Some rec" using x by simp
    show ?thesis
    proof (cases "terminal rec")
      case True
      with d Inr Some have s': "s' = s" "e = Some (Sentinel ErrJobAlreadyTerminal)" by (auto simp: Dispatch_def terminal_def)
      have "srv_moves A I L (insert i X) X s s"
        by (rule srv_moves_release) (use j True in \<open>auto dest: terminal_not_pending\<close>)
      with s' j True show ?thesis by (auto simp: settled_def finished_def)
    next
      case False
      with srv_okD(2) [OF ok] j have "FunctionBytes rec \<noteq> []" by (auto simp: store_ok_def job_ok_def)
      with False Some Inr d have "dispatch_loop (on_store S) E i rec fuel [] sch s = Some (sch', s', e, tried')"
        by (simp add: Dispatch_def terminal_def)
      from dispatch_loop_srv [OF env live ok this] show ?thesis by blast
    qed
  qed
qed

lemma finished_later:
  assumes "srv_moves A I L X Y s s'" "srv_ok A I s" "finished A i s"
  shows "finished A i s'"
proof -
  from assms(3) obtain r where r: "a_jobs (A (jobStore s)) i = Some r" "terminal r" by (auto simp: finished_def)
  from store_moves_job [OF srv_movesD(2) [OF assms(1,2)] r(1)] obtain r' where
    r': "a_jobs (A (jobStore s')) i = Some r'" "job_step\<^sup>*\<^sup>* r r'" by blast
  have "CreatedAt r \<noteq> 0" using srv_okD(2) [OF assms(2)] r(1) by (simp add: store_ok_def)
  from terminal_stays [OF r'(2) r(2) this] have eq: "r' = r\<lparr>UpdatedAt := UpdatedAt r'\<rparr>" .
  have "terminal r'" using r(2) by (subst eq) simp
  with r' show ?thesis by (auto simp: finished_def)
qed

text \<open>Giving a job up: with a store that works, the job is terminal (or was never there).\<close>

lemma give_up_srv:
  assumes env: "env_moves A I L E" and live: "L \<Longrightarrow> reliable_store S A I" and "time_ok (clock E 0)" "srv_ok A I s"
  shows "srv_moves A I L (insert i X) X s (give_up S E i msg s) \<and>
    (L \<longrightarrow> a_jobs (A (jobStore s)) i \<noteq> None \<longrightarrow> finished A i (give_up S E i msg s))"
proof -
  note e = env_movesD [OF env]
  let ?s = "others E 0 s"
  obtain s1 c err runs where t: "Transition (on_store S) (clock E 0) i (failDispatch msg) ?s = (s1, c, err, runs)"
    by (rule prod_cases4)
  have ok: "srv_ok A I ?s" by (rule srv_movesD(1) [OF e assms(4)])
  have np: "never_pends (failDispatch msg) \<or> i \<in> Y" for Y by simp
  note m1 = srv_moves_trans [OF e Transition_srv_moves [OF lifecycle_muts(3) t np subset_refl]]
  let ?s' = "notifyTerminal S (others E 2) i (others E 1 s1)"
  have res: "give_up S E i msg s = ?s'" using t by (simp add: give_up_def)
  have m2: "srv_moves A I L Y Y s1 ?s'" for Y by (rule srv_moves_trans [OF e notifyTerminal_moves [OF e]])
  show ?thesis
  proof (cases L)
    case False
    with srv_moves_trans [OF m1 m2] show ?thesis unfolding res by (auto intro: srv_moves_unaccounted)
  next
    case True
    from Transition_live [OF live [OF True] ok mutators_ok(4) assms(3) t] have
      fin: "case a_jobs (A (jobStore ?s)) i of None \<Rightarrow> a_jobs (A (jobStore s1)) i = None | Some r \<Rightarrow> finished A i s1"
      by (auto simp: spec_Transition_def failDispatch_def skip_def finished_def terminal_def split: option.splits if_splits)
    then have rel: "srv_moves A I L (insert i X) X s1 s1"
      by (intro srv_moves_release) (auto simp: finished_def split: option.splits dest: terminal_not_pending)
    have "finished A i ?s'" if "a_jobs (A (jobStore s)) i \<noteq> None"
    proof -
      from store_moves_job [OF srv_movesD(2) [OF e assms(4)]] that have "a_jobs (A (jobStore ?s)) i \<noteq> None" by fastforce
      with fin have "finished A i s1" by (auto split: option.splits)
      with finished_later [OF m2 srv_movesD(1) [OF m1 assms(4)]] show ?thesis by blast
    qed
    with srv_moves_trans [OF m1 srv_moves_trans [OF rel m2]] show ?thesis unfolding res by blast
  qed
qed

end

section \<open>The drainer as a server move\<close>

definition drain_ok :: "('st \<Rightarrow> abs_store) \<Rightarrow> ('st \<Rightarrow> bool) \<Rightarrow> bool \<Rightarrow> 'st drain_env \<Rightarrow> bool" where
  "drain_ok A I L D \<longleftrightarrow> (\<forall>n. dispatch_env_moves A I L (attempt_env D n)) \<and>
     (\<forall>n s. srv_moves A I L {} {} s (pause D n s)) \<and> env_moves A I L (closing D) \<and> time_ok (clock (closing D) 0)"

lemma drain_okD:
  assumes "drain_ok A I L D"
  shows "dispatch_env_moves A I L (attempt_env D n)" "srv_moves A I L X X s (pause D n s)"
    "env_moves A I L (closing D)" "time_ok (clock (closing D) 0)"
  using assms unfolding drain_ok_def by (blast intro: srv_moves_frame)+

definition loop_ok :: "('st \<Rightarrow> abs_store) \<Rightarrow> ('st \<Rightarrow> bool) \<Rightarrow> bool \<Rightarrow> 'st loop_env \<Rightarrow> bool" where
  "loop_ok A I L R \<longleftrightarrow> (\<forall>k. drain_ok A I L (received R k)) \<and> (\<forall>k s. srv_moves A I L {} {} s (idle R k s))"

lemma loop_okD:
  assumes "loop_ok A I L R"
  shows "drain_ok A I L (received R k)" "srv_moves A I L X X s (idle R k s)"
  using assms unfolding loop_ok_def by (blast intro: srv_moves_frame)+

context served
begin

lemma exhausted_srv:
  assumes env: "env_moves A I L E" and live: "L \<Longrightarrow> reliable_store S A I" and "time_ok (clock E 0)" "srv_ok A I s"
  shows "srv_moves A I L (insert i X) X s (exhausted S E i m s) \<and>
    (L \<longrightarrow> a_jobs (A (jobStore s)) i \<noteq> None \<longrightarrow> finished A i (exhausted S E i m s))"
proof -
  let ?g = "give_up S E i (''dispatch failed: no worker accepted after '' @ show_int (sint m) @ '' attempts'') s"
  note g = give_up_srv [OF assms, where X = X and i = i]
  have m: "srv_moves A I L X X ?g (exhausted S E i m s)"
    unfolding exhausted_def Let_def
    by (rule srv_moves_trans [OF env_movesD [OF env] srv_moves_fields(3) [OF RecordX_wf(3)]])
  note ok = srv_movesD(1) [OF conjunct1 [OF g] assms(4)]
  from g srv_moves_trans [OF conjunct1 [OF g] m] finished_later [OF m ok] show ?thesis by blast
qed

lemma attempt_loop_srv:
  assumes env: "drain_ok A I L D" and live: "L \<Longrightarrow> reliable_store S A I" and nc: "L \<Longrightarrow> \<forall>n. \<not> cancelled D n"
    and "srv_ok A I s" "attempt_loop S D fuel i m n left backoff stalled ws s = Some (s', stalled', ws')"
  shows "srv_moves A I L (insert i X) X s s' \<and>
    (L \<longrightarrow> a_jobs (A (jobStore s)) i \<noteq> None \<longrightarrow> was_run A i s s' \<or> finished A i s')"
  using assms(4,5)
proof (induction left arbitrary: n backoff stalled ws s)
  case 0
  with exhausted_srv [OF drain_okD(3) [OF env] live drain_okD(4) [OF env] 0(1), of i X m] show ?case by auto
next
  case (Suc left)
  obtain sch s1 e tr where d: "Dispatch (on_store S) (attempt_env D n) fuel i (scheduler s) s = Some (sch, s1, e, tr)"
    using Suc.prems(2) by (auto split: option.splits)
  note D = Dispatch_srv [OF drain_okD(1) [OF env] live Suc.prems(1) d]
  let ?s2 = "s1\<lparr>scheduler := sch\<rparr>"
  have m2: "srv_moves A I L (insert i X) (if settled e then X else insert i X) s ?s2"
    by (rule srv_moves_trans [OF conjunct1 [OF D] srv_moves_fields(5)])
  note ok2 = srv_movesD(1) [OF m2 Suc.prems(1)]
  have stay: "a_jobs (A (jobStore ?s2)) i \<noteq> None" if "a_jobs (A (jobStore s)) i \<noteq> None"
    using store_moves_job [OF srv_movesD(2) [OF m2 Suc.prems(1)]] that by fastforce
  show ?case
  proof (cases "settled e")
    case True
    with d Suc.prems(2) have "s' = ?s2" by (auto simp: settled_def Let_def split: option.splits)
    with m2 True D show ?thesis by (auto simp: was_run_def finished_def)
  next
    case False
    then obtain err where e: "e = Some err" "\<not> errors_Is err ErrJobAlreadyTerminal" by (auto simp: settled_def split: option.splits)
    from False m2 have m2': "srv_moves A I L (insert i X) (insert i X) s ?s2" by simp
    show ?thesis
    proof (cases "errors_Is err ErrNoWorkersAvailable \<or> errors_Is err ErrAllWorkersExhausted")
      case False
      with d e Suc.prems(2) have s': "s' = give_up S (closing D) i (''dispatch failed: '' @ err_Error err) ?s2"
        by (auto simp: Let_def)
      note g = give_up_srv [OF drain_okD(3) [OF env] live drain_okD(4) [OF env] ok2]
      from srv_moves_trans [OF m2' conjunct1 [OF g]] g stay show ?thesis unfolding s' by blast
    next
      case True
      let ?s3 = "if \<not> stalled then ?s2\<lparr>stalledDispatches := stalledDispatches ?s2 + 1\<rparr> else ?s2"
      have m3: "srv_moves A I L (insert i X) (insert i X) s ?s3"
        using srv_moves_trans [OF m2' srv_moves_fields(6)] m2' by simp
      note ok3 = srv_movesD(1) [OF m3 Suc.prems(1)]
      have stay3: "a_jobs (A (jobStore ?s3)) i \<noteq> None" if "a_jobs (A (jobStore s)) i \<noteq> None"
        using stay [OF that] by simp
      consider (last) "left = 0" | (stop) "left \<noteq> 0" "cancelled D n" | (again) "left \<noteq> 0" "\<not> cancelled D n" by blast
      then show ?thesis
      proof cases
        case last
        with d e True Suc.prems(2) have s': "s' = exhausted S (closing D) i m ?s3" by (simp add: Let_def)
        note g = exhausted_srv [OF drain_okD(3) [OF env] live drain_okD(4) [OF env] ok3]
        from srv_moves_trans [OF m3 conjunct1 [OF g]] g stay3 show ?thesis unfolding s' by blast
      next
        case stop
        with d e True Suc.prems(2) have s': "s' = ?s3" by (simp add: Let_def)
        from stop nc have "\<not> L" by blast
        with m3 show ?thesis unfolding s' by (auto intro: srv_moves_unaccounted)
      next
        case again
        have m4: "srv_moves A I L (insert i X) (insert i X) s (pause D n ?s3)"
          by (rule srv_moves_trans [OF m3 drain_okD(2) [OF env]])
        from again d e True Suc.prems(2) have loop: "attempt_loop S D fuel i m (Suc n) left
            (if backoff < maxBackoff then 2 * backoff else backoff) True (ws @ [backoff]) (pause D n ?s3) = Some (s', stalled', ws')"
          by (simp add: Let_def)
        note IH = Suc.IH [OF srv_movesD(1) [OF m4 Suc.prems(1)] loop]
        have "a_jobs (A (jobStore (pause D n ?s3))) i \<noteq> None" if "a_jobs (A (jobStore s)) i \<noteq> None"
          using store_moves_job [OF srv_movesD(2) [OF m4 Suc.prems(1)]] that by fastforce
        with IH srv_moves_trans [OF m4 conjunct1 [OF IH]] was_run_earlier [OF srv_movesD(2) [OF m4 Suc.prems(1)]]
        show ?thesis by blast
      qed
    qed
  qed
qed

lemma attemptDispatch_srv:
  assumes "drain_ok A I L D" "L \<Longrightarrow> reliable_store S A I" "L \<Longrightarrow> \<forall>n. \<not> cancelled D n"
    and "srv_ok A I s" "attemptDispatch S D fuel i s = Some (s', ws)"
  shows "srv_moves A I L (insert i X) X s s' \<and>
    (L \<longrightarrow> a_jobs (A (jobStore s)) i \<noteq> None \<longrightarrow> was_run A i s s' \<or> finished A i s')"
proof -
  from assms(5) obtain t stalled where loop: "attempt_loop S D fuel i (max_attempts (cfg s)) 0 (nat (sint (max_attempts (cfg s))))
      (100 * Millisecond) False [] s = Some (t, stalled, ws)"
    and s': "s' = (if stalled then t\<lparr>stalledDispatches := stalledDispatches t - 1\<rparr> else t)"
    by (auto simp: attemptDispatch_def)
  note A = attempt_loop_srv [OF assms(1-4) loop]
  have "srv_moves A I L X X t s'" unfolding s' by (simp add: srv_moves_fields)
  from srv_moves_trans [OF conjunct1 [OF A] this] A show ?thesis by (auto simp: s' was_run_def finished_def)
qed

lemma RunPendingQueueLoop_moves:
  assumes "loop_ok A I L R" "L \<Longrightarrow> reliable_store S A I" "L \<Longrightarrow> \<forall>k n. \<not> cancelled (received R k) n"
    and "RunPendingQueueLoop S R fuel k n s = Some s'"
  shows "srv_moves A I L X X s s'"
  using assms(4)
proof (induction n arbitrary: k s)
  case 0
  then show ?case by simp
next
  case (Suc n)
  let ?s = "idle R k s"
  have m1: "srv_moves A I L X X s ?s" by (rule loop_okD(2) [OF assms(1)])
  show ?case
  proof (cases "stopped R k")
    case True
    with Suc.prems m1 show ?thesis by simp
  next
    case go: False
    show ?thesis
    proof (cases "pendingQueue ?s")
      case Nil
      with go Suc.prems have "RunPendingQueueLoop S R fuel (Suc k) n ?s = Some s'" by simp
      from srv_moves_trans [OF m1 Suc.IH [OF this]] show ?thesis .
    next
      case (Cons i q)
      let ?t = "?s\<lparr>pendingQueue := q\<rparr>"
      from go Cons Suc.prems obtain s2 ws where a: "attemptDispatch S (received R k) fuel i ?t = Some (s2, ws)"
        and r: "RunPendingQueueLoop S R fuel (Suc k) n s2 = Some s'" by (auto split: option.splits)
      have m2: "srv_moves A I L X (insert i X) ?s ?t" by (rule queue_pop_moves [OF Cons])
      have m3: "srv_moves A I L (insert i X) X ?t s2"
      proof (cases "srv_ok A I ?t")
        case True
        from attemptDispatch_srv [OF loop_okD(1) [OF assms(1)] assms(2) _ True a] assms(3) show ?thesis by blast
      qed (simp add: srv_moves_def)
      from srv_moves_trans [OF m1 srv_moves_trans [OF m2 srv_moves_trans [OF m3 Suc.IH [OF r]]]] show ?thesis .
    qed
  qed
qed

end

section \<open>The drainer ends, its counter is balanced, and its waits\<close>

lemma attempt_loop_returns:
  assumes "\<forall>n. pools_ok (attempt_env D n) W" "card W < fuel"
  shows "\<exists>x. attempt_loop S D fuel i m n left backoff stalled ws s = Some x"
proof (induction left arbitrary: n backoff stalled ws s)
  case 0
  then show ?case by simp
next
  case (Suc left)
  obtain sch s1 e tr where "Dispatch (on_store S) (attempt_env D n) fuel i (scheduler s) s = Some (sch, s1, e, tr)"
    by (rule Dispatch_defined [OF spec [OF assms(1), of n] assms(2)])
  with Suc.IH show ?case by (cases e) (auto simp: Let_def)
qed

definition backoff_after :: "nat \<Rightarrow> duration" where
  "backoff_after k = 100 * Millisecond * 2 ^ min k 5"

lemma backoff_next:
  "(if backoff_after k < maxBackoff then 2 * backoff_after k else backoff_after k) = backoff_after (Suc k)"
proof (cases "k < 5")
  case True
  then have "k \<in> {0, 1, 2, 3, 4}" by auto
  then show ?thesis by (auto simp: backoff_after_def maxBackoff_def Second_def Millisecond_def)
next
  case False
  then show ?thesis by (simp add: backoff_after_def maxBackoff_def Second_def Millisecond_def min_def)
qed

lemma attempt_loop_waits:
  assumes "attempt_loop S D fuel i m n (Suc left) (backoff_after n) stalled ws s = Some (s', stalled', ws')"
  shows "\<exists>d \<le> left. ws' = ws @ map backoff_after [n..<n + d]"
  using assms
proof (induction left arbitrary: n stalled ws s)
  case 0
  then show ?case by (auto simp: Let_def split: option.splits if_splits)
next
  case (Suc left)
  obtain sch s1 e tr where d: "Dispatch (on_store S) (attempt_env D n) fuel i (scheduler s) s = Some (sch, s1, e, tr)"
    using Suc.prems by (auto split: option.splits)
  show ?case
  proof (cases "ws' = ws")
    case True
    then show ?thesis by (intro exI [of _ 0]) simp
  next
    case False
    from Suc.prems d have "\<exists>t. ws' = ws \<or> attempt_loop S D fuel i m (Suc n) (Suc left)
        (if backoff_after n < maxBackoff then 2 * backoff_after n else backoff_after n) True (ws @ [backoff_after n]) t = Some (s', stalled', ws')"
      unfolding attempt_loop.simps(2) [of S D fuel i m n "Suc left"]
      by (cases e) (auto simp: Let_def simp del: attempt_loop.simps split: if_splits)
    with False obtain t where "attempt_loop S D fuel i m (Suc n) (Suc left) (backoff_after (Suc n)) True (ws @ [backoff_after n]) t
        = Some (s', stalled', ws')" unfolding backoff_next by blast
    from Suc.IH [OF this] obtain c where "c \<le> left" "ws' = ws @ [backoff_after n] @ map backoff_after [Suc n..<Suc n + c]" by auto
    then show ?thesis by (intro exI [of _ "Suc c"]) (simp add: upt_conv_Cons del: upt_Suc)
  qed
qed

text \<open>What a dispatch leaves alone: anything its environment and the store leave alone.\<close>

lemma dispatch_loop_keeps:
  assumes "\<And>k s. g (env_other E k s) = g s" "\<And>k conn req s. g (fst (env_rpc E k conn req s)) = g s"
    and "\<And>now i f s. g (fst (Transition S now i f s)) = g s"
    and "dispatch_loop S E i rec fuel tried sch s = Some (sch', s', e, tried')"
  shows "g s' = g s"
  using assms(4)
proof (induction fuel arbitrary: tried sch s)
  case 0
  then show ?case by simp
next
  case (Suc fuel)
  let ?k = "length tried"
  obtain w a ok where sel: "LeastLoadedAliveExcluding (env_order E ?k) (set tried) (env_pool E ?k) = (w, a, ok)"
    by (cases "LeastLoadedAliveExcluding (env_order E ?k) (set tried) (env_pool E ?k)")
  obtain s1 c e1 runs where mark:
    "Transition S (env_now E (2 * ?k + 1)) i (markRunning w) (env_other E (2 * ?k + 1) s) = (s1, c, e1, runs)"
    by (rule prod_cases4)
  have g1: "g s1 = g s" using assms(3) [of "env_now E (2 * ?k + 1)" i "markRunning w" "env_other E (2 * ?k + 1) s"] mark assms(1) by simp
  obtain sch1 s2 e2 where rpc: "sendExecuteTask E ?k w a rec sch s1 = (sch1, s2, e2)"
    by (cases "sendExecuteTask E ?k w a rec sch s1")
  have g2: "g s2 = g s1"
    using rpc assms(2) unfolding sendExecuteTask_def
    by (auto split: prod.splits sum.splits if_splits) (metis fst_conv)+
  let ?t = "fst (Transition S (env_now E (2 * ?k + 2)) i revertPending (env_other E (2 * ?k + 2) s2))"
  have g3: "g ?t = g s" using assms(1,3) g1 g2 by simp
  show ?case
  proof (cases "ok \<and> e1 = None \<and> c \<and> e2 \<noteq> None")
    case True
    with Suc.prems sel mark rpc have "dispatch_loop S E i rec fuel (tried @ [w]) sch1 ?t = Some (sch', s', e, tried')"
      by (auto simp: Let_def)
    from Suc.IH [OF this] g3 show ?thesis by simp
  next
    case False
    with Suc.prems sel mark rpc have "s' = s \<or> s' = s1 \<or> s' = s2"
      by (auto simp: Let_def split: if_splits option.splits)
    with g1 g2 show ?thesis by auto
  qed
qed

lemma Dispatch_keeps:
  assumes "\<And>k s. g (env_other E k s) = g s" "\<And>k conn req s. g (fst (env_rpc E k conn req s)) = g s"
    and "\<And>now i f s. g (fst (Transition S now i f s)) = g s"
    and "Dispatch S E fuel i sch s = Some (sch', s', e, tried')"
  shows "g s' = g s"
  using assms(4) dispatch_loop_keeps [of g E S, OF assms(1-3)] assms(1,3)
  by (auto simp: Dispatch_def split: sum.splits option.splits if_splits)

definition keeps_stalled :: "'st drain_env \<Rightarrow> bool" where
  "keeps_stalled D \<longleftrightarrow>
     (\<forall>n k s. stalledDispatches (env_other (attempt_env D n) k s) = stalledDispatches s) \<and>
     (\<forall>n k conn req s. stalledDispatches (fst (env_rpc (attempt_env D n) k conn req s)) = stalledDispatches s) \<and>
     (\<forall>n s. stalledDispatches (pause D n s) = stalledDispatches s) \<and>
     (\<forall>k s. stalledDispatches (others (closing D) k s) = stalledDispatches s)"

lemma on_store_keeps_stalled: "stalledDispatches (fst (Transition (on_store S) now i f s)) = stalledDispatches s"
  by (simp add: on_store_def split: prod.splits)

lemma give_up_keeps_stalled:
  assumes "\<And>k s. stalledDispatches (others E k s) = stalledDispatches s"
  shows "stalledDispatches (give_up S E i msg s) = stalledDispatches s"
proof -
  obtain s1 c err runs where t: "Transition (on_store S) (clock E 0) i (failDispatch msg) (others E 0 s) = (s1, c, err, runs)"
    by (rule prod_cases4)
  have "stalledDispatches s1 = stalledDispatches s" using on_store_keeps_stalled [of S "clock E 0" i "failDispatch msg" "others E 0 s"] t assms by simp
  with t assms show ?thesis
    by (simp add: give_up_def notifyTerminal_def Let_def split: sum.splits option.splits)
qed

lemma attempt_step:
  assumes "Dispatch (on_store S) (attempt_env D n) fuel i (scheduler s) s = Some (sch, s1, e, tr)"
    and "s2 = s1\<lparr>scheduler := sch\<rparr>" "s3 = (if \<not> stalled then s2\<lparr>stalledDispatches := stalledDispatches s2 + 1\<rparr> else s2)"
    and "attempt_loop S D fuel i m n (Suc left) backoff stalled ws s = Some (s', stalled', ws')"
  shows "(s', stalled') = (s2, stalled) \<or> (\<exists>msg. (s', stalled') = (give_up S (closing D) i msg s2, stalled)) \<or>
      (s', stalled') = (exhausted S (closing D) i m s3, True) \<or> (s', stalled') = (s3, True) \<or>
      (\<exists>b ws1. attempt_loop S D fuel i m (Suc n) left b True ws1 (pause D n s3) = Some (s', stalled', ws'))"
proof -
  let ?b = "if backoff < maxBackoff then 2 * backoff else backoff"
  have "Some (s', stalled', ws') =
    (case e of None \<Rightarrow> Some (s2, stalled, ws)
     | Some err \<Rightarrow>
         (if errors_Is err ErrJobAlreadyTerminal then Some (s2, stalled, ws)
          else if errors_Is err ErrNoWorkersAvailable \<or> errors_Is err ErrAllWorkersExhausted then
            (if left = 0 then Some (exhausted S (closing D) i m s3, True, ws)
             else if cancelled D n then Some (s3, True, ws)
             else attempt_loop S D fuel i m (Suc n) left ?b True (ws @ [backoff]) (pause D n s3))
          else Some (give_up S (closing D) i (''dispatch failed: '' @ err_Error err) s2, stalled, ws)))"
    unfolding assms(4) [symmetric] attempt_loop.simps(2) assms(1) option.case prod.case Let_def assms(3) assms(2) by (rule refl)
  then show ?thesis
    by (simp del: attempt_loop.simps split: option.split_asm if_split_asm) metis+
qed

lemma attempt_loop_stalled:
  assumes ks: "keeps_stalled D"
    and "attempt_loop S D fuel i m n left backoff stalled ws s = Some (s', stalled', ws')"
  shows "stalledDispatches s' + (if stalled then 1 else 0) = stalledDispatches s + (if stalled' then 1 else 0)"
  using assms(2)
proof (induction left arbitrary: n backoff stalled ws s)
  case 0
  with ks give_up_keeps_stalled [of "closing D" S i _ s] show ?case
    by (auto simp: keeps_stalled_def exhausted_def Let_def)
next
  case (Suc left)
  have closing: "\<And>k s. stalledDispatches (others (closing D) k s) = stalledDispatches s" using ks by (simp add: keeps_stalled_def)
  obtain sch s1 e tr where d: "Dispatch (on_store S) (attempt_env D n) fuel i (scheduler s) s = Some (sch, s1, e, tr)"
    using Suc.prems by (auto split: option.splits)
  have g: "stalledDispatches s1 = stalledDispatches s"
    by (rule Dispatch_keeps [OF _ _ on_store_keeps_stalled d]) (use ks in \<open>auto simp: keeps_stalled_def\<close>)
  define s2 where "s2 = s1\<lparr>scheduler := sch\<rparr>"
  define s3 where "s3 = (if \<not> stalled then s2\<lparr>stalledDispatches := stalledDispatches s2 + 1\<rparr> else s2)"
  have g2: "stalledDispatches s2 = stalledDispatches s" using g by (simp add: s2_def)
  then have g3: "stalledDispatches s3 = stalledDispatches s + (if stalled then 0 else 1)" by (simp add: s3_def)
  from attempt_step [OF d s2_def s3_def Suc.prems] show ?case
  proof (elim disjE exE)
    assume "(s', stalled') = (s2, stalled)"
    with g2 show ?thesis by simp
  next
    fix msg assume "(s', stalled') = (give_up S (closing D) i msg s2, stalled)"
    with g2 give_up_keeps_stalled [OF closing] show ?thesis by simp
  next
    assume "(s', stalled') = (exhausted S (closing D) i m s3, True)"
    with g3 give_up_keeps_stalled [OF closing] closing show ?thesis by (simp add: exhausted_def Let_def)
  next
    assume "(s', stalled') = (s3, True)"
    with g3 show ?thesis by simp
  next
    fix b ws1 assume "attempt_loop S D fuel i m (Suc n) left b True ws1 (pause D n s3) = Some (s', stalled', ws')"
    from Suc.IH [OF this] g3 ks show ?thesis
      by (cases stalled; cases stalled') (simp_all add: keeps_stalled_def add.commute [of _ 1])
  qed
qed

section \<open>A concrete drainer\<close>

text \<open>Two workers, the less loaded one refusing, and nobody else running.\<close>

definition demo_dispatch :: "mem_db Server dispatch_env" where
  "demo_dispatch = \<lparr>env_pool = (\<lambda>_. demo_pool), env_order = (\<lambda>_. [''w1'', ''w2'']), env_now = (\<lambda>_. 9),
     env_other = (\<lambda>_ s. s), env_closed = (\<lambda>_. False), env_dial = (\<lambda>_ _. None),
     env_rpc = (\<lambda>k conn req s. (s, Inr \<lparr>Accepted = (conn = ''a''), RejectionReason = ''busy''\<rparr>))\<rparr>"

definition demo_drain :: "mem_db drain_env" where
  "demo_drain = \<lparr>attempt_env = (\<lambda>_. demo_dispatch), cancelled = (\<lambda>_. False), pause = (\<lambda>_ s. s), closing = quiet_env 9\<rparr>"

lemma demo_time_ok: "time_ok 9"
  by (simp add: time_ok_def Second_def Millisecond_def)

lemma demo_drain_ok: "drain_ok A I L demo_drain"
  by (simp add: drain_ok_def demo_drain_def dispatch_env_moves_def demo_dispatch_def quiet_env_moves demo_time_ok)

lemma demo_drain_pools: "pools_ok (attempt_env demo_drain n) {''w1'', ''w2''}"
  using demo_pools_ok by (simp add: pools_ok_def demo_env_def demo_drain_def demo_dispatch_def)

lemma demo_drain_stalled: "keeps_stalled demo_drain"
  by (simp add: keeps_stalled_def demo_drain_def demo_dispatch_def)

section \<open>Properties\<close>



text \<open>
  Attempts and waits are bounded, and the autoscaler's demand signal is balanced.
  \<open>attemptDispatch\<close> returns after fewer waits than the configured attempts (30 when the
  setting is not positive); the waits double from 100 ms up to 3.2 s, which is past the
  \<open>maxBackoff\<close> of 2 s; and the count of stalled dispatches is what it was before.
\<close>
theorem drainer_bounded:
  assumes "\<forall>n. pools_ok (attempt_env D n) W" "card W < fuel" "keeps_stalled D"
  shows "\<exists>s' ws. attemptDispatch S D fuel i s = Some (s', ws) \<and> stalledDispatches s' = stalledDispatches s \<and>
    int (length ws) < (if sint (MaxDispatchAttempts (cfg s)) < 1 then 30 else sint (MaxDispatchAttempts (cfg s))) \<and>
    ws = map (\<lambda>k. 100 * Millisecond * 2 ^ min k 5) [0..<length ws]"
proof -
  let ?m = "max_attempts (cfg s)"
  have m: "sint ?m = (if sint (MaxDispatchAttempts (cfg s)) < 1 then 30 else sint (MaxDispatchAttempts (cfg s)))"
    by (simp add: max_attempts_def)
  then have "sint ?m > 0" by (simp split: if_splits)
  then obtain left where left: "nat (sint ?m) = Suc left" by (metis gr0_implies_Suc zero_less_nat_eq)
  obtain t stalled ws where loop: "attempt_loop S D fuel i ?m 0 (Suc left) (100 * Millisecond) False [] s = Some (t, stalled, ws)"
    using attempt_loop_returns [OF assms(1,2)] by (metis prod_cases3)
  let ?s' = "if stalled then t\<lparr>stalledDispatches := stalledDispatches t - 1\<rparr> else t"
  have a: "attemptDispatch S D fuel i s = Some (?s', ws)" using loop left by (simp add: attemptDispatch_def)
  have "stalledDispatches ?s' = stalledDispatches s" using attempt_loop_stalled [OF assms(3) loop] by auto
  moreover have "100 * Millisecond = backoff_after 0" by (simp add: backoff_after_def)
  from attempt_loop_waits [OF loop [unfolded this]] obtain d where "d \<le> left" "ws = map backoff_after [0..<d]" by auto
  then have "int (length ws) < sint ?m" "ws = map (\<lambda>k. 100 * Millisecond * 2 ^ min k 5) [0..<length ws]"
    using left by (auto simp: backoff_after_def)
  ultimately show ?thesis using a m by auto
qed

theorem drainer_bounded_witness:
  "\<exists>s' ws. attemptDispatch (BoltStore mem_bolt) demo_drain 3 ''j1'' demo_server = Some (s', ws) \<and>
     stalledDispatches s' = 0 \<and> length ws < 30"
proof -
  have "\<forall>n. pools_ok (attempt_env demo_drain n) {''w1'', ''w2''}" by (simp add: demo_drain_pools)
  moreover have "card {''w1'', ''w2''} < (3 :: nat)" by simp
  moreover have "sint (MaxDispatchAttempts demo_config) = 30" by (simp add: demo_config_def LoadConfig_def envInt_def)
  ultimately show ?thesis
    using drainer_bounded [OF _ _ demo_drain_stalled, of "{''w1'', ''w2''}" 3 "BoltStore mem_bolt" "''j1''" demo_server] by auto
qed

end
