(* ===== verification/Recovery.thy ===== *)
theory Recovery
  imports Dispatcher
begin

text \<open>
  What recovery and the reaper do exactly, when the store works and no other goroutine
  interferes. That is how recovery runs: at startup, before any other goroutine exists.
\<close>

section \<open>Effect on the jobs\<close>

definition demoted :: "JobRecord \<Rightarrow> JobRecord" where
  "demoted r = (if Status r = StatusRunning then r\<lparr>Status := StatusPending, WorkerID := []\<rparr> else r)"

definition recovered :: "gotime \<Rightarrow> JobRecord \<Rightarrow> JobRecord" where
  "recovered t r = stamp t (demoted r)"

definition exceeds :: "int64 \<Rightarrow> JobRecord \<Rightarrow> bool" where
  "exceeds n r \<longleftrightarrow> sint (RetryCount r + 1) > sint n"

definition reassigned :: "int64 \<Rightarrow> JobRecord \<Rightarrow> JobRecord" where
  "reassigned n r =
     (let r1 = r\<lparr>RetryCount := RetryCount r + 1\<rparr>
      in if exceeds n r then r1\<lparr>Status := StatusFailed, Error := ''exceeded max retries after worker death(s)''\<rparr>
         else r1\<lparr>Status := StatusPending, WorkerID := []\<rparr>)"

lemma recover_demoted: "recover r = Inr (demoted r)"
  by (simp add: recover_def demoted_def)

lemma reap_reassigned: "Status r = StatusRunning \<Longrightarrow> reap n r = Inr (reassigned n r)"
  by (simp add: reap_def reassigned_def exceeds_def Let_def)

text \<open>The store after rewriting the jobs of a list by \<open>f\<close>.\<close>

definition rewritten :: "(JobRecord \<Rightarrow> JobRecord) \<Rightarrow> JobRecord list \<Rightarrow> abs_store \<Rightarrow> abs_store" where
  "rewritten f js a = a\<lparr>a_jobs := (\<lambda>i. if i \<in> ID ` set js then map_option f (a_jobs a i) else a_jobs a i)\<rparr>"

lemma rewritten_Nil: "rewritten f [] a = a"
  by (simp add: rewritten_def)

lemma rewritten_Cons:
  assumes "a_jobs a (ID j) = Some j" "ID j \<notin> ID ` set js"
  shows "rewritten f js (a\<lparr>a_jobs := (a_jobs a)(ID j \<mapsto> f j)\<rparr>) = rewritten f (j # js) a"
  using assms by (auto simp: rewritten_def fun_eq_iff)

text \<open>The jobs of a scan: stored under their IDs, which are distinct.\<close>

definition scanned :: "JobRecord list \<Rightarrow> abs_store \<Rightarrow> bool" where
  "scanned js a \<longleftrightarrow> distinct (map ID js) \<and> (\<forall>j \<in> set js. a_jobs a (ID j) = Some j)"

lemma scanned_Cons:
  "scanned (j # js) a \<longleftrightarrow> ID j \<notin> ID ` set js \<and> a_jobs a (ID j) = Some j \<and> scanned js a"
  by (auto simp: scanned_def)

lemma scanned_update: "scanned js a \<Longrightarrow> i \<notin> ID ` set js \<Longrightarrow> scanned js (a\<lparr>a_jobs := (a_jobs a)(i \<mapsto> r)\<rparr>)"
  by (auto simp: scanned_def)

lemma scanned_jobs:
  assumes "abs_ok a"
  shows "scanned (filter P (spec_jobs a)) a"
proof -
  have fin: "finite (dom (a_jobs a))" using assms by (simp add: abs_ok_def)
  have "a_jobs a (ID j) = Some j" if "j \<in> set (spec_jobs a)" for j
  proof -
    from that set_spec_jobs [OF fin] obtain i where "a_jobs a i = Some j" by (auto simp: ran_def)
    with abs_ok_ID [OF assms] show ?thesis by auto
  qed
  with distinct_spec_jobs_ID [OF assms] show ?thesis by (auto simp: scanned_def)
qed

lemma rewritten_all:
  assumes "abs_ok a"
  shows "a_jobs (rewritten f (filter P (spec_jobs a)) a) i = map_option (\<lambda>r. if P r then f r else r) (a_jobs a i)"
proof (cases "a_jobs a i")
  case None
  then show ?thesis by (simp add: rewritten_def)
next
  case (Some r)
  have fin: "finite (dom (a_jobs a))" using assms by (simp add: abs_ok_def)
  have "i \<in> ID ` set (filter P (spec_jobs a)) \<longleftrightarrow> P r"
  proof
    assume "i \<in> ID ` set (filter P (spec_jobs a))"
    then obtain j where j: "j \<in> set (spec_jobs a)" "P j" "ID j = i" by auto
    then obtain i' where "a_jobs a i' = Some j" using set_spec_jobs [OF fin] by (auto simp: ran_def)
    with abs_ok_ID [OF assms this] j Some show "P r" by auto
  next
    assume "P r"
    moreover have "r \<in> set (spec_jobs a)" using Some set_spec_jobs [OF fin] by (auto simp: ran_def)
    moreover have "ID r = i" by (rule abs_ok_ID [OF assms Some])
    ultimately show "i \<in> ID ` set (filter P (spec_jobs a))" by auto
  qed
  with Some show ?thesis by (simp add: rewritten_def)
qed

section \<open>Recovery\<close>

context live_server
begin

lemma Transition_quiet:
  assumes "srv_ok A I s" "lifecycle_mut f" "time_ok t" "a_jobs (A (jobStore s)) i = Some r" "f r = Inr r'"
  obtains st where "Transition (on_store S) t i f s = (s\<lparr>jobStore := st\<rparr>, True, None, [r])"
    "A st = (A (jobStore s))\<lparr>a_jobs := (a_jobs (A (jobStore s)))(i \<mapsto> stamp t r')\<rparr>" "srv_ok A I (s\<lparr>jobStore := st\<rparr>)"
proof -
  obtain s' c e runs where tr: "Transition (on_store S) t i f s = (s', c, e, runs)" by (rule prod_cases4)
  have "mut_ok f" using assms(2) by (simp add: lifecycle_mut_def)
  from lv.Transition_reliable [OF srv_okD(1) [OF assms(1)] this assms(3) tr] assms(4,5) have
    res: "A (jobStore s') = (A (jobStore s))\<lparr>a_jobs := (a_jobs (A (jobStore s)))(i \<mapsto> stamp t r')\<rparr>" "c" "e = None" "runs = [r]"
    by (auto simp: spec_Transition_def)
  have ok: "srv_ok A I s'"
    by (rule srv_movesD(1) [OF Transition_srv_moves [OF assms(2) tr, of "{i}" "{}" False] assms(1)]) auto
  from tr obtain st where s': "s' = s\<lparr>jobStore := st\<rparr>" unfolding on_store_Transition by blast
  show thesis by (rule that [of st]) (use tr res ok s' in auto)
qed

lemma recover_loop_quiet:
  assumes "srv_ok A I s" "\<not> shuttingDown s" "time_ok t" "scanned js (A (jobStore s))"
  shows "if length (pendingQueue s) + length js \<le> pendingQueueSize
    then \<exists>st. recover_loop S (quiet_env t) k js s = Some (s\<lparr>jobStore := st, pendingQueue := pendingQueue s @ map ID js\<rparr>) \<and>
      A st = rewritten (recovered t) js (A (jobStore s))
    else recover_loop S (quiet_env t) k js s = None"
  using assms
proof (induction js arbitrary: k s)
  case Nil
  then show ?case using srv_okD(7) [OF Nil(1)] by (auto simp: rewritten_Nil intro!: exI [of _ "jobStore s"])
next
  case (Cons j js)
  from Cons.prems(4) have j: "a_jobs (A (jobStore s)) (ID j) = Some j" "ID j \<notin> ID ` set js" "scanned js (A (jobStore s))"
    by (simp_all add: scanned_Cons)
  from Transition_quiet [OF Cons.prems(1) lifecycle_muts(6) Cons.prems(3) j(1) recover_demoted] obtain st where
    t: "Transition (on_store S) t (ID j) recover s = (s\<lparr>jobStore := st\<rparr>, True, None, [j])"
    and st: "A st = (A (jobStore s))\<lparr>a_jobs := (a_jobs (A (jobStore s)))(ID j \<mapsto> recovered t j)\<rparr>"
    and ok: "srv_ok A I (s\<lparr>jobStore := st\<rparr>)" unfolding recovered_def by blast
  show ?case
  proof (cases "length (pendingQueue s) < pendingQueueSize")
    case False
    with t Cons.prems(2) show ?thesis by (simp add: enqueue_def)
  next
    case True
    let ?s = "s\<lparr>jobStore := st, pendingQueue := pendingQueue s @ [ID j]\<rparr>"
    have step: "recover_loop S (quiet_env t) k (j # js) s = recover_loop S (quiet_env t) (Suc k) js ?s"
      using t True Cons.prems(2) by (simp add: enqueue_def)
    have "srv_ok A I ?s" using ok True by (simp add: srv_ok_def)
    moreover have "scanned js (A (jobStore ?s))" using scanned_update [OF j(3,2)] st by simp
    ultimately have IH: "if length (pendingQueue ?s) + length js \<le> pendingQueueSize
      then \<exists>st'. recover_loop S (quiet_env t) (Suc k) js ?s = Some (?s\<lparr>jobStore := st', pendingQueue := pendingQueue ?s @ map ID js\<rparr>) \<and>
        A st' = rewritten (recovered t) js (A (jobStore ?s))
      else recover_loop S (quiet_env t) (Suc k) js ?s = None"
      using Cons.IH [of ?s "Suc k"] Cons.prems(2,3) by simp
    have "rewritten (recovered t) js (A st) = rewritten (recovered t) (j # js) (A (jobStore s))"
      unfolding st using rewritten_Cons [OF j(1,2), of "recovered t"] by simp
    with IH show ?thesis unfolding step by (simp del: recover_loop.simps split: if_splits)
  qed
qed

lemma RecoverUnfinishedJobs_quiet:
  assumes "srv_ok A I s" "\<not> shuttingDown s" "time_ok t" "js = filter unfinished (spec_jobs (A (jobStore s)))"
  shows "if length (pendingQueue s) + length js \<le> pendingQueueSize
    then \<exists>st. RecoverUnfinishedJobs S (quiet_env t) s =
        Some (s\<lparr>jobStore := st, pendingQueue := pendingQueue s @ map ID js\<rparr>, None) \<and>
      A st = rewritten (recovered t) js (A (jobStore s))
    else RecoverUnfinishedJobs S (quiet_env t) s = None"
proof -
  have ok: "abs_ok (A (jobStore s))" using srv_okD(2) [OF assms(1)] by (simp add: store_ok_def)
  have "snd (ListUnfinished S (jobStore s)) = None" using lv.ListUnfinished_reliable [OF srv_okD(1) [OF assms(1)]] by simp
  then obtain l where l: "ListUnfinished S (jobStore s) = (l, None)" by (cases "ListUnfinished S (jobStore s)") auto
  have "l = js" using sv.ListUnfinished_fallible [OF srv_okD(1) [OF assms(1)], of l] l assms(4) by simp
  with l have scan: "ListUnfinished S (jobStore s) = (js, None)" by simp
  have sc: "scanned js (A (jobStore s))" unfolding assms(4) by (rule scanned_jobs [OF ok])
  show ?thesis
  proof (cases "js = []")
    case True
    with scan srv_okD(7) [OF assms(1)] show ?thesis
      by (auto simp: RecoverUnfinishedJobs_def rewritten_Nil intro!: exI [of _ "jobStore s"])
  next
    case False
    with scan recover_loop_quiet [OF assms(1-3) sc, of 0] show ?thesis
      by (auto simp: RecoverUnfinishedJobs_def simp del: recover_loop.simps split: if_splits)
  qed
qed

text \<open>The same, job by job: afterwards no PENDING job is outside the queue.\<close>

lemma RecoverUnfinishedJobs_exact:
  assumes "srv_ok A I s" "\<not> shuttingDown s" "time_ok t" "js = filter unfinished (spec_jobs (A (jobStore s)))"
  shows "if length (pendingQueue s) + length js \<le> pendingQueueSize
    then \<exists>s'. RecoverUnfinishedJobs S (quiet_env t) s = Some (s', None) \<and> pendingQueue s' = pendingQueue s @ map ID js \<and>
      (\<forall>i. a_jobs (A (jobStore s')) i = map_option (\<lambda>r. if unfinished r then recovered t r else r) (a_jobs (A (jobStore s)) i)) \<and>
      accounted A {} s'
    else RecoverUnfinishedJobs S (quiet_env t) s = None"
proof (cases "length (pendingQueue s) + length js \<le> pendingQueueSize")
  case False
  with RecoverUnfinishedJobs_quiet [OF assms] show ?thesis by simp
next
  case True
  let ?a = "A (jobStore s)"
  have ok: "abs_ok ?a" using srv_okD(2) [OF assms(1)] by (simp add: store_ok_def)
  from True RecoverUnfinishedJobs_quiet [OF assms] obtain st where
    st: "RecoverUnfinishedJobs S (quiet_env t) s = Some (s\<lparr>jobStore := st, pendingQueue := pendingQueue s @ map ID js\<rparr>, None)"
      "A st = rewritten (recovered t) js ?a" by auto
  have jobs: "a_jobs (A st) i = map_option (\<lambda>r. if unfinished r then recovered t r else r) (a_jobs ?a i)" for i
    unfolding st(2) assms(4) by (rule rewritten_all [OF ok])
  have "accounted A {} (s\<lparr>jobStore := st, pendingQueue := pendingQueue s @ map ID js\<rparr>)"
    unfolding accounted_def
  proof (intro allI impI)
    fix i r
    let ?s' = "s\<lparr>jobStore := st, pendingQueue := pendingQueue s @ map ID js\<rparr>"
    assume "a_jobs (A (jobStore ?s')) i = Some r" "Status r = StatusPending"
    then obtain r0 where r0: "a_jobs ?a i = Some r0" "unfinished r0"
      using jobs [of i] by (auto simp: unfinished_def split: if_splits)
    then have "r0 \<in> set (spec_jobs ?a)" using set_spec_jobs ok by (auto simp: abs_ok_def ran_def)
    with r0 abs_ok_ID [OF ok r0(1)] have "i \<in> ID ` set js" unfolding assms(4) by auto
    then show "i \<in> set (pendingQueue ?s') \<or> i \<in> {}" by auto
  qed
  with True st(1) jobs show ?thesis by auto
qed

section \<open>The reaper\<close>

lemma reassign_loop_quiet:
  assumes "srv_ok A I s" "\<not> shuttingDown s" "time_ok t" "scanned js (A (jobStore s))" "\<forall>j \<in> set js. Status j = StatusRunning"
    and "length (pendingQueue s) + length js \<le> pendingQueueSize" "n = MaxRetries (cfg s)"
  shows "\<exists>s'. reassign_loop S (quiet_env t) k js s = Some s' \<and>
    pendingQueue s' = pendingQueue s @ map ID (filter (\<lambda>r. \<not> exceeds n r) js) \<and>
    A (jobStore s') = rewritten (\<lambda>r. stamp t (reassigned n r)) js (A (jobStore s))"
  using assms
proof (induction js arbitrary: k s)
  case Nil
  then show ?case by (simp add: rewritten_Nil)
next
  case (Cons j js)
  let ?f = "\<lambda>r. stamp t (reassigned n r)"
  from Cons.prems(4) have j: "a_jobs (A (jobStore s)) (ID j) = Some j" "ID j \<notin> ID ` set js" "scanned js (A (jobStore s))"
    by (simp_all add: scanned_Cons)
  from Cons.prems(5) have run: "Status j = StatusRunning" by simp
  from Transition_quiet [OF Cons.prems(1) lifecycle_muts(4) Cons.prems(3) j(1) reap_reassigned [OF run]] obtain st where
    t: "Transition (on_store S) t (ID j) (reap n) s = (s\<lparr>jobStore := st\<rparr>, True, None, [j])"
    and st: "A st = (A (jobStore s))\<lparr>a_jobs := (a_jobs (A (jobStore s)))(ID j \<mapsto> ?f j)\<rparr>"
    and ok: "srv_ok A I (s\<lparr>jobStore := st\<rparr>)" by blast
  let ?s1 = "s\<lparr>jobStore := st\<rparr>"
  define s2 where "s2 = (if exceeds n j then notifyTerminal S (\<lambda>s. s) (ID j) ?s1
    else ?s1\<lparr>pendingQueue := pendingQueue s @ [ID j]\<rparr>)"
  have room: "length (pendingQueue s) < pendingQueueSize" using Cons.prems(6) by simp
  have step: "reassign_loop S (quiet_env t) k (j # js) s = reassign_loop S (quiet_env t) (Suc k) js s2"
    using t run room Cons.prems(2,7)
    by (simp add: markedPending_def markedFailed_def exceeds_def enqueue_def s2_def)
  have q2: "pendingQueue s2 = pendingQueue s @ map ID (filter (\<lambda>r. \<not> exceeds n r) [j])" "jobStore s2 = st"
    "shuttingDown s2 = shuttingDown s" "cfg s2 = cfg s"
    by (simp_all add: s2_def notifyTerminal_def Let_def split: sum.splits option.splits)
  have "srv_moves A I False {} {} ?s1 (notifyTerminal S (\<lambda>s. s) (ID j) ?s1)" by (rule notifyTerminal_moves) simp
  from srv_movesD(1) [OF this ok] ok room have ok2: "srv_ok A I s2" by (simp add: s2_def srv_ok_def)
  have sc: "scanned js (A (jobStore s2))" using scanned_update [OF j(3,2)] st q2 by simp
  have nxt: "\<not> shuttingDown s2" "\<forall>j \<in> set js. Status j = StatusRunning"
    "length (pendingQueue s2) + length js \<le> pendingQueueSize" "n = MaxRetries (cfg s2)"
    using Cons.prems q2 by auto
  from Cons.IH [OF ok2 nxt(1) Cons.prems(3) sc nxt(2-4)] obtain s' where
    IH: "reassign_loop S (quiet_env t) (Suc k) js s2 = Some s'"
      "pendingQueue s' = pendingQueue s2 @ map ID (filter (\<lambda>r. \<not> exceeds n r) js)"
      "A (jobStore s') = rewritten ?f js (A (jobStore s2))" by blast
  have "rewritten ?f js (A st) = rewritten ?f (j # js) (A (jobStore s))"
    unfolding st by (rule rewritten_Cons [OF j(1,2)])
  with IH q2 step show ?case by simp
qed

lemma ReassignJobsOf_quiet:
  assumes "srv_ok A I s" "\<not> shuttingDown s" "time_ok t" "js = filter (runningOn w) (spec_jobs (A (jobStore s)))"
    and "length (pendingQueue s) + length js \<le> pendingQueueSize" "n = MaxRetries (cfg s)"
  shows "\<exists>s'. ReassignJobsOf S (quiet_env t) w s = Some s' \<and>
    pendingQueue s' = pendingQueue s @ map ID (filter (\<lambda>r. \<not> exceeds n r) js) \<and>
    A (jobStore s') = rewritten (\<lambda>r. stamp t (reassigned n r)) js (A (jobStore s))"
proof -
  have ok: "abs_ok (A (jobStore s))" using srv_okD(2) [OF assms(1)] by (simp add: store_ok_def)
  have "snd (ListRunningOnWorker S w (jobStore s)) = None"
    using lv.ListRunningOnWorker_reliable [OF srv_okD(1) [OF assms(1)]] by simp
  then obtain l where l: "ListRunningOnWorker S w (jobStore s) = (l, None)" by (cases "ListRunningOnWorker S w (jobStore s)") auto
  have "l = js" using sv.ListRunningOnWorker_fallible [OF srv_okD(1) [OF assms(1)], of w l] l assms(4) by simp
  moreover have "scanned js (A (jobStore s))" unfolding assms(4) by (rule scanned_jobs [OF ok])
  moreover have "\<forall>j \<in> set js. Status j = StatusRunning" unfolding assms(4) by (auto simp: runningOn_def)
  ultimately show ?thesis
    using reassign_loop_quiet [OF assms(1-3) _ _ assms(5,6), of 0] l by (simp add: ReassignJobsOf_def)
qed

end

section \<open>Properties\<close>

text \<open>
  Recovery is complete, and blocks when it cannot be. At startup, before any other
  goroutine runs, every unfinished job (and no other) is queued once, in ID order, as
  PENDING with no worker, and terminal jobs are untouched; so no PENDING job is outside the
  queue. If the unfinished jobs do not fit into the queue, the call never returns: the
  queue's drainer is only started after it.
\<close>
theorem recovery_exact:
  assumes "bolt_live B" "srv_ok (store_abs B) (store_wf B) s" "\<not> shuttingDown s" "time_ok t"
    and "js = filter unfinished (spec_jobs (store_abs B (jobStore s)))"
  shows "if length (pendingQueue s) + length js \<le> 10000
    then \<exists>s'. RecoverUnfinishedJobs (BoltStore B) (quiet_env t) s = Some (s', None) \<and>
      pendingQueue s' = pendingQueue s @ map ID js \<and>
      (\<forall>i. a_jobs (store_abs B (jobStore s')) i =
        map_option (\<lambda>r. if unfinished r then recovered t r else r) (a_jobs (store_abs B (jobStore s)) i)) \<and>
      accounted (store_abs B) {} s'
    else RecoverUnfinishedJobs (BoltStore B) (quiet_env t) s = None"
  using live_server.RecoverUnfinishedJobs_exact [OF bolt_live_server [OF assms(1)] assms(2-5)]
  unfolding pendingQueueSize_def .

theorem recovery_exact_witness:
  "\<exists>s'. RecoverUnfinishedJobs (BoltStore mem_bolt) (quiet_env 9) demo_server = Some (s', None) \<and>
     pendingQueue s' = [''j1'']"
proof -
  have js: "filter unfinished (spec_jobs (store_abs mem_bolt (jobStore demo_server))) = [demo_job]"
    by (simp add: spec_jobs_def demo_abs unfinished_def) (simp add: demo_job_def)
  have "\<not> shuttingDown demo_server" by simp
  from recovery_exact [OF mem_bolt_live demo_server_ok this demo_time_ok refl] show ?thesis
    unfolding js by (auto simp: demo_ID)
qed

text \<open>
  C16: a dead worker's jobs are all taken care of. With no interference, and room in the
  queue, the reaper counts one retry for each job that was RUNNING on the worker, requeues
  it as PENDING, or marks it FAILED when the retries are used up; no other job changes, and
  nothing is left RUNNING on that worker.
\<close>
theorem reaper_exact:
  assumes "bolt_live B" "srv_ok (store_abs B) (store_wf B) s" "\<not> shuttingDown s" "time_ok t"
    and "js = filter (runningOn w) (spec_jobs (store_abs B (jobStore s)))" "length (pendingQueue s) + length js \<le> 10000"
  shows "\<exists>s'. ReassignJobsOf (BoltStore B) (quiet_env t) w s = Some s' \<and>
    pendingQueue s' = pendingQueue s @ map ID (filter (\<lambda>r. \<not> exceeds (MaxRetries (cfg s)) r) js) \<and>
    (\<forall>i. a_jobs (store_abs B (jobStore s')) i = map_option
      (\<lambda>r. if runningOn w r then stamp t (reassigned (MaxRetries (cfg s)) r) else r) (a_jobs (store_abs B (jobStore s)) i)) \<and>
    (\<forall>i r. a_jobs (store_abs B (jobStore s')) i = Some r \<longrightarrow> \<not> runningOn w r)"
proof -
  let ?a = "store_abs B (jobStore s)" and ?n = "MaxRetries (cfg s)"
  have ok: "abs_ok ?a" using srv_okD(2) [OF assms(2)] by (simp add: store_ok_def)
  have "length (pendingQueue s) + length js \<le> pendingQueueSize" using assms(6) by (simp add: pendingQueueSize_def)
  from live_server.ReassignJobsOf_quiet [OF bolt_live_server [OF assms(1)] assms(2-5) this refl] obtain s' where
    s': "ReassignJobsOf (BoltStore B) (quiet_env t) w s = Some s'"
      "pendingQueue s' = pendingQueue s @ map ID (filter (\<lambda>r. \<not> exceeds ?n r) js)"
      "store_abs B (jobStore s') = rewritten (\<lambda>r. stamp t (reassigned ?n r)) js ?a" by blast
  have jobs: "a_jobs (store_abs B (jobStore s')) i = map_option
      (\<lambda>r. if runningOn w r then stamp t (reassigned ?n r) else r) (a_jobs ?a i)" for i
    unfolding s'(3) assms(5) by (rule rewritten_all [OF ok])
  have "\<not> runningOn w (reassigned ?n r)" for r
    by (simp add: runningOn_def reassigned_def Let_def status_defs)
  then have clear: "\<not> runningOn w r" if "a_jobs (store_abs B (jobStore s')) i = Some r" for i r
  proof -
    from that [unfolded jobs] obtain r0 where "r = (if runningOn w r0 then stamp t (reassigned ?n r0) else r0)"
      unfolding map_option_eq_Some by blast
    with \<open>\<And>r. \<not> runningOn w (reassigned ?n r)\<close> show ?thesis by (cases "runningOn w r0") simp_all
  qed
  show ?thesis
    by (rule exI [of _ s'], intro conjI allI impI, rule s'(1), rule s'(2), rule jobs, erule clear)
qed

theorem reaper_exact_witness:
  "\<exists>s'. ReassignJobsOf (BoltStore mem_bolt) (quiet_env 9) ''w1'' demo_server = Some s' \<and>
     pendingQueue s' = [''j1''] \<and> (\<exists>r. a_jobs (store_abs mem_bolt (jobStore s')) ''j1'' = Some r \<and> Status r = StatusPending)"
proof -
  have run: "runningOn ''w1'' demo_job" by (simp add: runningOn_def demo_job_def)
  have js: "filter (runningOn ''w1'') (spec_jobs (store_abs mem_bolt (jobStore demo_server))) = [demo_job]"
    using run by (simp add: spec_jobs_def demo_abs)
  have few: "\<not> exceeds (MaxRetries (cfg demo_server)) demo_job"
    by (simp add: exceeds_def demo_job_def zeroJob_def demo_config_def LoadConfig_def envInt_def)
  have "\<not> shuttingDown demo_server" by simp
  moreover have "length (pendingQueue demo_server) + length [demo_job] \<le> 10000" by simp
  ultimately obtain s' where
    s': "ReassignJobsOf (BoltStore mem_bolt) (quiet_env 9) ''w1'' demo_server = Some s'"
      "pendingQueue s' = pendingQueue demo_server @ map ID (filter (\<lambda>r. \<not> exceeds (MaxRetries (cfg demo_server)) r) [demo_job])"
      "\<forall>i. a_jobs (store_abs mem_bolt (jobStore s')) i = map_option (\<lambda>r. if runningOn ''w1'' r
        then stamp 9 (reassigned (MaxRetries (cfg demo_server)) r) else r) (a_jobs (store_abs mem_bolt (jobStore demo_server)) i)"
    using reaper_exact [OF mem_bolt_live demo_server_ok _ demo_time_ok js [symmetric]] by blast
  have queue: "pendingQueue s' = [''j1'']" using s'(2) few by (simp add: demo_ID)
  have job: "a_jobs (store_abs mem_bolt (jobStore s')) ''j1'' = Some (stamp 9 (reassigned (MaxRetries (cfg demo_server)) demo_job))"
    using spec [OF s'(3), of "''j1''"] run by (simp add: demo_abs)
  have "Status (stamp 9 (reassigned (MaxRetries (cfg demo_server)) demo_job)) = StatusPending"
    using few by (simp add: reassigned_def Let_def)
  with s'(1) queue job show ?thesis by blast
qed

end
