(* ===== verification/Watch.thy ===== *)
theory Watch
  imports Dispatcher
begin

text \<open>
  The streaming RPCs of \<open>watch.go\<close>. \<open>WatchJob\<close> returns the server, the events its stream
  accepted, in order, and how it ended. Between its actions the other goroutines run
  (\<open>w_others\<close>, by step); a send may fail (\<open>w_send\<close>, by the number of events sent
  before); when the event loop waits, \<open>w_wake\<close> is what wakes it: the stream's context, a
  mailbox event, or the poll ticker, which is what remains when the mailbox is empty. The
  loops run until the job is terminal or the stream ends, so they have fuel (\<open>None\<close>: not
  enough). \<open>StreamTaskLogs\<close> takes the chunks received and the error that ended the
  stream, if it was not its end.
\<close>

section \<open>WatchJob\<close>

datatype wake = CtxDone | Mail | Tick

datatype watch_end = Ended | StatusErr grpc_error | SendErr go_error

record 'st watch_env =
  w_others :: "nat \<Rightarrow> 'st Server \<Rightarrow> 'st Server"
  w_send :: "nat \<Rightarrow> go_error option"
  w_wake :: "nat \<Rightarrow> wake"

fun send_all :: "'st watch_env \<Rightarrow> JobEvent list \<Rightarrow> JobEvent list \<Rightarrow> JobEvent list \<times> go_error option" where
  "send_all W [] sent = (sent, None)"
| "send_all W (ev # evs) sent =
     (case w_send W (length sent) of
        Some e \<Rightarrow> (sent, Some e)
      | None \<Rightarrow> send_all W evs (sent @ [ev]))"

text \<open>The last event: \<open>return stream.Send(ev)\<close>.\<close>

definition send_last :: "'st watch_env \<Rightarrow> JobEvent \<Rightarrow> JobEvent list \<Rightarrow> JobEvent list \<times> watch_end" where
  "send_last W ev sent = (case w_send W (length sent) of Some e \<Rightarrow> (sent, SendErr e) | None \<Rightarrow> (sent @ [ev], Ended))"

text \<open>Deliver the mailbox backlog; \<open>None\<close> as the end means that the mailbox is empty.\<close>

fun drain_mail ::
  "'st watch_env \<Rightarrow> nat \<Rightarrow> nat \<Rightarrow> nat \<Rightarrow> JobEvent list \<Rightarrow> 'st Server \<Rightarrow> ('st Server \<times> JobEvent list \<times> watch_end option) option" where
  "drain_mail W 0 k sub sent s = None"
| "drain_mail W (Suc fuel) k sub sent s =
     (let s1 = w_others W k s
      in case recv sub (logHub s1) of
           (h, None) \<Rightarrow> Some (s1, sent, None)
         | (h, Some ev) \<Rightarrow>
             (let s2 = s1\<lparr>logHub := h\<rparr>
              in case w_send W (length sent) of
                   Some e \<Rightarrow> Some (s2, sent, Some (SendErr e))
                 | None \<Rightarrow>
                     (if GetResult (Event ev) \<noteq> None then Some (s2, sent @ [ev], Some Ended)
                      else drain_mail W fuel (Suc k) sub (sent @ [ev]) s2)))"

text \<open>One look at the store: the status to remember, the events sent, and a failed send.\<close>

definition poll_status ::
  "'st watch_env \<Rightarrow> string \<Rightarrow> JobRecord option result \<Rightarrow> JobStatus \<Rightarrow> JobEvent list \<Rightarrow> JobStatus \<times> JobEvent list \<times> go_error option" where
  "poll_status W jobID x lastStatus sent =
     (case x of
        Inr (Some rec) \<Rightarrow>
          (if Status rec \<noteq> lastStatus
           then (case send_all W [statusEvent jobID (Status rec)] sent of (sent', e) \<Rightarrow> (Status rec, sent', e))
           else (lastStatus, sent, None))
      | _ \<Rightarrow> (lastStatus, sent, None))"

definition stored_terminal :: "JobRecord option result \<Rightarrow> JobRecord option" where
  "stored_terminal x =
     (case x of Inr (Some rec) \<Rightarrow> (if Status rec = StatusDone \<or> Status rec = StatusFailed then Some rec else None)
      | _ \<Rightarrow> None)"

fun watch_loop ::
  "'st Store \<Rightarrow> 'st watch_env \<Rightarrow> nat \<Rightarrow> nat \<Rightarrow> string \<Rightarrow> nat \<Rightarrow> JobStatus \<Rightarrow> JobEvent list \<Rightarrow> 'st Server \<Rightarrow>
   ('st Server \<times> JobEvent list \<times> watch_end) option" where
  "watch_loop S W 0 k jobID sub lastStatus sent s = None"
| "watch_loop S W (Suc fuel) k jobID sub lastStatus sent s =
     (let s1 = w_others W k s; x = GetJob (on_store S) jobID s1
      in case stored_terminal x of
           Some rec \<Rightarrow>
             (case drain_mail W fuel (Suc k) sub sent s1 of
                None \<Rightarrow> None
              | Some (s2, sent2, Some r) \<Rightarrow> Some (s2, sent2, r)
              | Some (s2, sent2, None) \<Rightarrow> Some (s2, send_last W (jobResultEvent rec) sent2))
         | None \<Rightarrow>
             (case poll_status W jobID x lastStatus sent of
                (last1, sent1, Some e) \<Rightarrow> Some (s1, sent1, SendErr e)
              | (last1, sent1, None) \<Rightarrow>
                  (let s2 = w_others W (Suc k) s1
                   in if w_wake W k = CtxDone then Some (s2, sent1, Ended)
                      else case (w_wake W k, recv sub (logHub s2)) of
                             (Mail, h, Some ev) \<Rightarrow>
                               (let s3 = s2\<lparr>logHub := h\<rparr>
                                in case w_send W (length sent1) of
                                     Some e \<Rightarrow> Some (s3, sent1, SendErr e)
                                   | None \<Rightarrow>
                                       (if GetResult (Event ev) \<noteq> None then Some (s3, sent1 @ [ev], Ended)
                                        else watch_loop S W fuel (k + 2) jobID sub last1 (sent1 @ [ev]) s3))
                           | _ \<Rightarrow> watch_loop S W fuel (k + 2) jobID sub last1 sent1 s2)))"

definition WatchJob ::
  "'st Store \<Rightarrow> 'st watch_env \<Rightarrow> nat \<Rightarrow> string \<Rightarrow> 'st Server \<Rightarrow> ('st Server \<times> JobEvent list \<times> watch_end) option" where
  "WatchJob S W fuel jobID s =
     (if jobID = [] then Some (s, [], StatusErr (GrpcStatus InvalidArgument ''job_id required''))
      else case GetJob (on_store S) jobID s of
        Inl err \<Rightarrow> Some (s, [], StatusErr (GrpcStatus Internal (''load job: '' @ err_Error err)))
      | Inr None \<Rightarrow> Some (s, [], StatusErr (GrpcStatus NotFound (''job '' @ jobID @ '' not found'')))
      | Inr (Some rec) \<Rightarrow>
          (let s1 = w_others W 0 s
           in case Subscribe jobID (logHub s1) of
                (h, sub, replay, final_ev) \<Rightarrow>
                  (let s2 = s1\<lparr>logHub := h\<rparr>
                   in map_option (\<lambda>(s', sent, r). (s'\<lparr>logHub := Unsubscribe jobID sub (logHub s')\<rparr>, sent, r))
                        (case send_all W (statusEvent jobID (Status rec) # replay) [] of
                           (sent, Some e) \<Rightarrow> Some (s2, sent, SendErr e)
                         | (sent, None) \<Rightarrow>
                             (case final_ev of
                                Some ev \<Rightarrow> Some (s2, send_last W ev sent)
                              | None \<Rightarrow> watch_loop S W fuel 1 jobID sub (Status rec) sent s2)))))"

section \<open>StreamTaskLogs\<close>

text \<open>The response is \<open>acknowledged\<close>, at the end of the client's stream.\<close>

fun StreamTaskLogs ::
  "'st Store \<Rightarrow> 'st handler_env \<Rightarrow> nat \<Rightarrow> TaskLogChunk list \<Rightarrow> go_error option \<Rightarrow> 'st Server \<Rightarrow> 'st Server \<times> bool result" where
  "StreamTaskLogs S E k [] err s = (s, case err of None \<Rightarrow> Inr True | Some e \<Rightarrow> Inl e)"
| "StreamTaskLogs S E k (chunk # chunks) err s =
     (if c_JobId chunk = [] \<or> c_Lines chunk = [] then StreamTaskLogs S E k chunks err s
      else let s1 = others E (2 * k) s
           in case GetJob (on_store S) (c_JobId chunk) s1 of
                Inl e \<Rightarrow> StreamTaskLogs S E (Suc k) chunks err s1
              | Inr None \<Rightarrow> StreamTaskLogs S E (Suc k) chunks err s1
              | Inr (Some rec) \<Rightarrow>
                  (if Status rec = StatusDone \<or> Status rec = StatusFailed then StreamTaskLogs S E (Suc k) chunks err s1
                   else let s2 = others E (2 * k + 1) s1
                        in StreamTaskLogs S E (Suc k) chunks err
                             (s2\<lparr>logHub := Append (c_JobId chunk) (c_Lines chunk) (logHub s2)\<rparr>)))"

section \<open>What a watcher's stream looks like\<close>

definition no_result :: "JobEvent list \<Rightarrow> bool" where
  "no_result evs \<longleftrightarrow> (\<forall>ev \<in> set evs. GetResult (Event ev) = None)"

definition ends_with_result :: "JobEvent list \<Rightarrow> bool" where
  "ends_with_result evs \<longleftrightarrow> evs \<noteq> [] \<and> no_result (butlast evs) \<and> GetResult (Event (last evs)) \<noteq> None"

lemma no_result_simps [simp]:
  "no_result []" "no_result (xs @ ys) \<longleftrightarrow> no_result xs \<and> no_result ys"
  "no_result [ev] \<longleftrightarrow> GetResult (Event ev) = None"
  by (auto simp: no_result_def)

lemma statusEvent_no_result [simp]: "GetResult (Event (statusEvent i st)) = None"
  by (simp add: statusEvent_def)

lemma ends_with_result_snoc: "no_result sent \<Longrightarrow> GetResult (Event ev) \<noteq> None \<Longrightarrow> ends_with_result (sent @ [ev])"
  by (simp add: ends_with_result_def)

lemma jobResultEvent_result: "GetResult (Event (jobResultEvent rec)) \<noteq> None"
  by (simp add: jobResultEvent_def)

lemma send_all_shape:
  "send_all W evs sent = (sent', e) \<Longrightarrow> no_result evs \<Longrightarrow> no_result sent \<Longrightarrow>
    no_result sent' \<and> prefix sent sent' \<and> (e = None \<longrightarrow> sent' = sent @ evs)"
proof (induction evs arbitrary: sent)
  case Nil
  then show ?case by simp
next
  case (Cons ev evs)
  show ?case
  proof (cases "w_send W (length sent)")
    case (Some x)
    with Cons.prems(1) have "sent' = sent" "e = Some x" by auto
    with Cons.prems(3) show ?thesis by simp
  next
    case None
    with Cons.prems have "send_all W evs (sent @ [ev]) = (sent', e)" "no_result evs" "no_result (sent @ [ev])"
      by (auto simp: no_result_def)
    from Cons.IH [OF this] show ?thesis by (auto intro: append_prefixD)
  qed
qed

text \<open>A stream that ran to its end, and one that was cut.\<close>

definition stream_ok :: "JobEvent list \<Rightarrow> watch_end \<Rightarrow> bool \<Rightarrow> bool" where
  "stream_ok sent r stopped_early \<longleftrightarrow> (if r = Ended \<and> \<not> stopped_early then ends_with_result sent else no_result sent \<or> ends_with_result sent)"

lemma send_all_hd: "send_all W (ev # evs) [] = (sent, e) \<Longrightarrow> sent \<noteq> [] \<Longrightarrow> hd sent = ev"
proof -
  have "send_all W xs (ev # ys) = (zs, e) \<Longrightarrow> hd zs = ev" for xs ys zs e
    by (induction xs arbitrary: ys) (auto split: option.splits)
  then show "send_all W (ev # evs) [] = (sent, e) \<Longrightarrow> sent \<noteq> [] \<Longrightarrow> hd sent = ev" by (auto split: option.splits)
qed

lemma stream_ok_weaken: "stream_ok sent r False \<Longrightarrow> stream_ok sent r c"
  by (auto simp: stream_ok_def split: if_splits)

lemma send_last_shape:
  "send_last W ev sent = (sent', r) \<Longrightarrow> no_result sent \<Longrightarrow> GetResult (Event ev) \<noteq> None \<Longrightarrow>
    stream_ok sent' r stopped_early \<and> prefix sent sent'"
  by (auto simp: send_last_def stream_ok_def ends_with_result_snoc split: option.splits)

text \<open>Once subscribed, a watcher never ends with a status error.\<close>

lemma send_last_end: "send_last W ev sent \<noteq> (sent', StatusErr x)"
  by (simp add: send_last_def split: option.splits)

lemma drain_mail_end: "drain_mail W fuel k sub sent s \<noteq> Some (s', sent', Some (StatusErr x))"
  by (induction fuel arbitrary: k sent s) (auto simp: Let_def split: prod.splits option.splits)

lemma watch_loop_end: "watch_loop S W fuel k i sub st sent s \<noteq> Some (s', sent', StatusErr x)"
proof (induction fuel arbitrary: k st sent s)
  case 0
  then show ?case by simp
next
  case (Suc fuel)
  then show ?case
    by (auto simp: Let_def drain_mail_end send_last_end split: prod.splits option.splits if_splits wake.splits)
qed

text \<open>Nor with a send error, if no send fails.\<close>

lemma send_all_sends: "\<forall>n. w_send W n = None \<Longrightarrow> send_all W evs sent = (sent @ evs, None)"
  by (induction evs arbitrary: sent) simp_all

lemma send_last_sends: "\<forall>n. w_send W n = None \<Longrightarrow> send_last W ev sent \<noteq> (sent', SendErr x)"
  by (simp add: send_last_def)

lemma drain_mail_sends: "\<forall>n. w_send W n = None \<Longrightarrow> drain_mail W fuel k sub sent s \<noteq> Some (s', sent', Some (SendErr x))"
  by (induction fuel arbitrary: k sent s) (auto simp: Let_def split: prod.splits option.splits)

lemma poll_status_sends: "\<forall>n. w_send W n = None \<Longrightarrow> poll_status W i y old sent \<noteq> (old', sent', Some x)"
  by (auto simp: poll_status_def send_all_sends simp del: send_all.simps split: sum.splits option.splits if_splits)

lemma watch_loop_sends:
  assumes "\<forall>n. w_send W n = None"
  shows "watch_loop S W fuel k i sub st sent s \<noteq> Some (s', sent', SendErr x)"
proof (induction fuel arbitrary: k st sent s)
  case 0
  then show ?case by simp
next
  case (Suc fuel)
  with assms show ?case
    by (auto simp: Let_def drain_mail_sends send_last_sends poll_status_sends split: prod.splits option.splits if_splits wake.splits)
qed

lemma WatchJob_ends:
  assumes "\<forall>n. w_send W n = None" "WatchJob S W fuel i s = Some (s', sent, r)"
    and "i \<noteq> []" "GetJob S i (jobStore s) = Inr (Some rec)"
  shows "r = Ended"
proof -
  have "r \<noteq> StatusErr e \<and> r \<noteq> SendErr x" for e x
    using assms(2-4) watch_loop_end watch_loop_sends [OF assms(1)] send_last_end send_last_sends [OF assms(1)]
    by (fastforce simp: WatchJob_def Let_def send_all_sends [OF assms(1)] map_option_eq_Some
        simp del: send_all.simps split: prod.splits option.splits)
  then show ?thesis by (cases r) auto
qed

section \<open>Both are server moves\<close>

context served
begin

lemma StreamTaskLogs_moves:
  assumes "env_moves A I L E"
  shows "srv_moves A I L X X s (fst (StreamTaskLogs S E k chunks err s))"
proof (induction chunks arbitrary: k s)
  case Nil
  then show ?case by simp
next
  case (Cons c chunks)
  note e = env_movesD [OF assms]
  have go: "srv_moves A I L X X s (fst (StreamTaskLogs S E k' chunks err t))" if "srv_moves A I L X X s t" for k' t
    by (rule srv_moves_trans [OF that Cons.IH])
  have m1: "srv_moves A I L X X s (others E (2 * k) s)" by (rule e)
  have m2: "srv_moves A I L X X s ((others E k1 (others E k2 s))\<lparr>logHub := Append i ls (logHub (others E k1 (others E k2 s)))\<rparr>)" for k1 k2 i ls
    by (rule srv_moves_trans [OF srv_moves_trans [OF e e] srv_moves_fields(1) [OF Append_ok]])
  show ?case
    using Cons.IH go [OF m1] go [OF m2] by (simp add: Let_def split: sum.split option.split)
qed

lemma recv_moves: "srv_moves A I L X X s (s\<lparr>logHub := fst (recv sub (logHub s))\<rparr>)"
  by (rule srv_moves_fields(1) [OF recv_ok])

lemma drain_mail_shape:
  assumes env: "\<And>k s X. srv_moves A I L X X s (w_others W k s)"
    and "drain_mail W fuel k sub sent s = Some (s', sent', r)" "no_result sent"
  shows "srv_moves A I L X X s s' \<and> prefix sent sent' \<and>
    (case r of None \<Rightarrow> no_result sent' | Some x \<Rightarrow> stream_ok sent' x False)"
  using assms(2,3)
proof (induction fuel arbitrary: k sent s)
  case 0
  then show ?case by simp
next
  case (Suc fuel)
  let ?s1 = "w_others W k s"
  obtain h x where r: "recv sub (logHub ?s1) = (h, x)" by fastforce
  then have h: "?s1\<lparr>logHub := h\<rparr> = ?s1\<lparr>logHub := fst (recv sub (logHub ?s1))\<rparr>" by simp
  have m2: "srv_moves A I L X X s (?s1\<lparr>logHub := h\<rparr>)" unfolding h by (rule srv_moves_trans [OF env recv_moves])
  show ?case
  proof (cases x)
    case None
    with r Suc.prems env show ?thesis by auto
  next
    case (Some ev)
    show ?thesis
    proof (cases "w_send W (length sent)")
      case (Some e)
      with r \<open>x = Some ev\<close> Suc.prems m2 show ?thesis by (auto simp: Let_def stream_ok_def)
    next
      case None
      show ?thesis
      proof (cases "GetResult (Event ev)")
        case (Some res)
        with r None \<open>x = Some ev\<close> Suc.prems m2 ends_with_result_snoc [of sent ev] show ?thesis
          by (auto simp: Let_def stream_ok_def)
      next
        case no: None
        with r None \<open>x = Some ev\<close> Suc.prems have
          "drain_mail W fuel (Suc k) sub (sent @ [ev]) (?s1\<lparr>logHub := h\<rparr>) = Some (s', sent', r)" by (simp add: Let_def)
        note IH = Suc.IH [OF this]
        from Suc.prems(2) no have "no_result (sent @ [ev])" by simp
        note I = IH [OF this]
        from I srv_moves_trans [OF m2 conjunct1 [OF I]] show ?thesis by (auto dest: append_prefixD)
      qed
    qed
  qed
qed

lemma poll_status_shape:
  assumes "poll_status W i x old sent = (old', sent', e)" "no_result sent"
  shows "no_result sent' \<and> prefix sent sent'"
proof (cases "\<exists>rec. x = Inr (Some rec) \<and> Status rec \<noteq> old")
  case False
  with assms have "sent' = sent" by (auto simp: poll_status_def split: sum.splits option.splits if_splits)
  with assms(2) show ?thesis by simp
next
  case True
  then obtain rec where rec: "x = Inr (Some rec)" "Status rec \<noteq> old" by blast
  obtain sent1 e1 where a: "send_all W [statusEvent i (Status rec)] sent = (sent1, e1)" by fastforce
  with assms(1) rec have "sent' = sent1" by (simp add: poll_status_def del: send_all.simps)
  with send_all_shape [OF a] assms(2) show ?thesis by simp
qed

text \<open>\<open>cut\<close>: the stream's context may end it.\<close>

lemma watch_loop_shape:
  assumes env: "\<And>k s X. srv_moves A I L X X s (w_others W k s)"
    and "watch_loop S W fuel k i sub old sent s = Some (s', sent', r)" "no_result sent"
  shows "srv_moves A I L X X s s' \<and> prefix sent sent' \<and> stream_ok sent' r (\<exists>k. w_wake W k = CtxDone)"
  using assms(2,3)
proof (induction fuel arbitrary: k old sent s)
  case 0
  then show ?case by simp
next
  case (Suc fuel)
  let ?cut = "\<exists>k. w_wake W k = CtxDone"
  let ?s1 = "w_others W k s"
  let ?x = "GetJob (on_store S) i ?s1"
  show ?case
  proof (cases "stored_terminal ?x")
    case (Some rec)
    with Suc.prems obtain s2 sent2 q where d: "drain_mail W fuel (Suc k) sub sent ?s1 = Some (s2, sent2, q)"
      by (auto simp: Let_def split: option.splits)
    note D = drain_mail_shape [OF env d Suc.prems(2)]
    have m: "srv_moves A I L X X s s2" by (rule srv_moves_trans [OF env conjunct1 [OF D]])
    show ?thesis
    proof (cases q)
      case None
      with Some d Suc.prems have "s' = s2" "send_last W (jobResultEvent rec) sent2 = (sent', r)" by (auto simp: Let_def)
      with send_last_shape [OF this(2) _ jobResultEvent_result, of ?cut] D None m show ?thesis
        by (auto intro: prefix_order.trans)
    next
      case (Some y)
      with \<open>stored_terminal ?x = Some rec\<close> d Suc.prems have "s' = s2" "sent' = sent2" "r = y" by (auto simp: Let_def)
      with D Some m show ?thesis by (auto intro: stream_ok_weaken)
    qed
  next
    case None
    obtain old1 sent1 e where p: "poll_status W i ?x old sent = (old1, sent1, e)" by (rule prod_cases3)
    note P = poll_status_shape [OF p Suc.prems(2)]
    show ?thesis
    proof (cases e)
      case (Some y)
      with None p Suc.prems have "s' = ?s1" "sent' = sent1" "r = SendErr y" by (auto simp: Let_def)
      with P env show ?thesis by (auto simp: stream_ok_def)
    next
      case sent: None
      let ?s2 = "w_others W (Suc k) ?s1"
      have m2: "srv_moves A I L X X s ?s2" by (rule srv_moves_trans [OF env env])
      obtain h x where rv: "recv sub (logHub ?s2) = (h, x)" by fastforce
      then have h: "?s2\<lparr>logHub := h\<rparr> = ?s2\<lparr>logHub := fst (recv sub (logHub ?s2))\<rparr>" by simp
      have m3: "srv_moves A I L X X s (?s2\<lparr>logHub := h\<rparr>)" unfolding h by (rule srv_moves_trans [OF m2 recv_moves])
      show ?thesis
      proof (cases "w_wake W k = CtxDone")
        case True
        with None sent p Suc.prems have "s' = ?s2" "sent' = sent1" by (auto simp: Let_def)
        moreover have ?cut using True by blast
        ultimately show ?thesis using P m2 by (auto simp: stream_ok_def)
      next
        case go: False
        show ?thesis
        proof (cases "w_wake W k = Mail \<and> x \<noteq> None")
          case False
          with go have "watch_loop S W fuel (k + 2) i sub old1 sent1 ?s2 = Some (s', sent', r)"
            using None sent p rv Suc.prems(1) by (cases "w_wake W k"; cases x) (simp_all add: Let_def)
          note I = Suc.IH [OF this conjunct1 [OF P]]
          from I P srv_moves_trans [OF m2 conjunct1 [OF I]] show ?thesis by (auto intro: prefix_order.trans)
        next
          case True
          then obtain ev where ev: "w_wake W k = Mail" "x = Some ev" by blast
          show ?thesis
          proof (cases "w_send W (length sent1)")
            case (Some y)
            with None sent p rv ev Suc.prems have "s' = ?s2\<lparr>logHub := h\<rparr>" "sent' = sent1" "r = SendErr y"
              by (auto simp: Let_def)
            with P m3 show ?thesis by (auto simp: stream_ok_def)
          next
            case ok: None
            show ?thesis
            proof (cases "GetResult (Event ev)")
              case (Some res)
              with None sent p rv ev ok Suc.prems have "s' = ?s2\<lparr>logHub := h\<rparr>" "sent' = sent1 @ [ev]" "r = Ended"
                by (auto simp: Let_def)
              with P m3 ends_with_result_snoc [of sent1 ev] Some show ?thesis by (auto simp: stream_ok_def)
            next
              case no: None
              with None sent p rv ev ok Suc.prems(1) have
                "watch_loop S W fuel (k + 2) i sub old1 (sent1 @ [ev]) (?s2\<lparr>logHub := h\<rparr>) = Some (s', sent', r)"
                by (simp add: Let_def)
              note IH = Suc.IH [OF this]
              from P no have "no_result (sent1 @ [ev])" by simp
              note I = IH [OF this]
              from I P srv_moves_trans [OF m3 conjunct1 [OF I]] show ?thesis
                by (auto intro: prefix_order.trans dest: append_prefixD)
            qed
          qed
        qed
      qed
    qed
  qed
qed

lemma WatchJob_shape:
  assumes env: "\<And>k s X. srv_moves A I L X X s (w_others W k s)"
    and "srv_ok A I s" "WatchJob S W fuel i s = Some (s', sent, r)"
  shows "srv_moves A I L X X s s' \<and>
    (case r of StatusErr e \<Rightarrow> sent = []
     | _ \<Rightarrow> (\<exists>rec. a_jobs (A (jobStore s)) i = Some rec \<and>
         \<not> (sent \<noteq> [] \<and> hd sent \<noteq> statusEvent i (Status rec))) \<and> stream_ok sent r (\<exists>k. w_wake W k = CtxDone))"
proof (cases "\<exists>rec. i \<noteq> [] \<and> GetJob S i (jobStore s) = Inr (Some rec)")
  case False
  with assms(3) show ?thesis by (auto simp: WatchJob_def split: if_splits sum.splits option.splits)
next
  case True
  then obtain rec where get: "i \<noteq> []" "GetJob S i (jobStore s) = Inr (Some rec)" by blast
  have rec: "a_jobs (A (jobStore s)) i = Some rec"
    using sv.GetJob_fallible [OF srv_okD(1) [OF assms(2)], of i "Some rec"] get by simp
  let ?s1 = "w_others W 0 s" and ?cut = "\<exists>k. w_wake W k = CtxDone"
  have ok1: "srv_ok A I ?s1" by (rule srv_movesD(1) [OF env assms(2)])
  obtain h sub replay fe where sb: "Subscribe i (logHub ?s1) = (h, sub, replay, fe)" by (rule prod_cases4)
  note R = Subscribe_result [OF sb]
  let ?s2 = "?s1\<lparr>logHub := h\<rparr>"
  have m2: "srv_moves A I L X X s ?s2"
    unfolding R(1) by (rule srv_moves_trans [OF env srv_moves_fields(1) [OF Subscribe_ok]])
  obtain sent0 e where sa: "send_all W (statusEvent i (Status rec) # replay) [] = (sent0, e)" by fastforce
  have nr: "no_result (statusEvent i (Status rec) # replay)" by (auto simp: no_result_def R(4))
  note SA = send_all_shape [OF sa nr]
  have hd0: "\<not> (sent0 \<noteq> [] \<and> hd sent0 \<noteq> statusEvent i (Status rec))" using send_all_hd [OF sa] by blast
  define body where "body = (case e of Some x \<Rightarrow> Some (?s2, sent0, SendErr x) | None \<Rightarrow>
      (case fe of Some ev \<Rightarrow> Some (?s2, send_last W ev sent0) | None \<Rightarrow> watch_loop S W fuel 1 i sub (Status rec) sent0 ?s2))"
  have "map_option (\<lambda>(s', sent, r). (s'\<lparr>logHub := Unsubscribe i sub (logHub s')\<rparr>, sent, r)) body = Some (s', sent, r)"
    using assms(3) get sb sa by (cases e) (simp_all add: WatchJob_def Let_def body_def del: send_all.simps)
  then obtain t where t: "body = Some (t, sent, r)" and s': "s' = t\<lparr>logHub := Unsubscribe i sub (logHub t)\<rparr>"
    by (auto simp: map_option_eq_Some)
  have u: "srv_moves A I L X X t s'" unfolding s' by (rule srv_moves_fields(1) [OF Unsubscribe_ok])
  have b: "srv_moves A I L X X ?s2 t \<and> prefix sent0 sent \<and> stream_ok sent r ?cut"
  proof (cases e)
    case (Some x)
    with t SA show ?thesis by (auto simp: body_def stream_ok_def)
  next
    case None
    show ?thesis
    proof (cases fe)
      case (Some ev)
      then have "GetResult (Event ev) \<noteq> None" using hub_ok_get [OF srv_okD(3) [OF ok1]] R(5) by auto
      moreover from t None Some have "t = ?s2" "send_last W ev sent0 = (sent, r)" by (auto simp: body_def)
      ultimately show ?thesis using send_last_shape [of W ev sent0 sent r ?cut] SA by auto
    next
      case no: None
      with None t have "watch_loop S W fuel 1 i sub (Status rec) sent0 ?s2 = Some (t, sent, r)" by (simp add: body_def)
      from watch_loop_shape [OF env this] SA show ?thesis by simp
    qed
  qed
  moreover have "\<not> (sent \<noteq> [] \<and> hd sent \<noteq> statusEvent i (Status rec))"
  proof (cases "sent0 = []")
    case True
    with SA have "e \<noteq> None" by auto
    with t True show ?thesis by (auto simp: body_def)
  next
    case False
    with b hd0 show ?thesis by (auto simp: prefix_def)
  qed
  moreover have "srv_moves A I L X X s s'" by (rule srv_moves_trans [OF m2 srv_moves_trans [OF conjunct1 [OF b] u]])
  moreover have "\<not> (\<exists>x. r = StatusErr x)" using t watch_loop_end send_last_end by (fastforce simp: body_def split: option.splits)
  ultimately show ?thesis using rec by (cases r) auto
qed

end

section \<open>A watcher's stream ends\<close>

definition mail :: "nat \<Rightarrow> 'st Server \<Rightarrow> nat" where
  "mail sub s = (case mailboxes (logHub s) sub of None \<Rightarrow> 0 | Some m \<Rightarrow> length (ch m))"

lemma mail_bound: "srv_ok A I s \<Longrightarrow> mail sub s \<le> 1024"
  using hub_wfD(3) [OF hub_okD(1) [OF srv_okD(3)], of A I s sub]
  by (auto simp: mail_def subChannelBuffer_def split: option.splits)

lemma mail_recv:
  "recv sub (logHub s) = (h, Some ev) \<Longrightarrow> Suc (mail sub (s\<lparr>logHub := h\<rparr>)) = mail sub s"
  by (auto simp: recv_def mail_def split: option.splits list.splits)

text \<open>
  The environment of a watcher whose job is over after step \<open>K\<close>: from then on it is
  terminal, and nothing more is put into the watcher's mailbox.
\<close>

definition over_after :: "('st \<Rightarrow> abs_store) \<Rightarrow> ('st \<Rightarrow> bool) \<Rightarrow> string \<Rightarrow> nat \<Rightarrow> 'st watch_env \<Rightarrow> bool" where
  "over_after A I i K W \<longleftrightarrow>
     (\<forall>k s. srv_moves A I False {} {} s (w_others W k s)) \<and>
     (\<forall>s. srv_ok A I s \<longrightarrow> a_jobs (A (jobStore s)) i \<noteq> None \<longrightarrow> finished A i (w_others W K s)) \<and>
     (\<forall>k s. k > K \<longrightarrow> mailboxes (logHub (w_others W k s)) = mailboxes (logHub s))"

lemma over_afterD:
  assumes "over_after A I i K W"
  shows "srv_moves A I False X X s (w_others W k s)"
    "srv_ok A I s \<Longrightarrow> a_jobs (A (jobStore s)) i \<noteq> None \<Longrightarrow> finished A i (w_others W K s)"
    "k > K \<Longrightarrow> mail sub (w_others W k s) = mail sub s"
  using assms unfolding over_after_def mail_def by (auto intro: srv_moves_frame)

lemma drain_mail_returns:
  assumes "over_after A I i K W" "srv_ok A I s"
    and "if k \<le> K then fuel > (Suc K - k) + 1024 else fuel > mail sub s"
  shows "\<exists>x. drain_mail W fuel k sub sent s = Some x"
  using assms(2,3)
proof (induction fuel arbitrary: k sent s)
  case 0
  then show ?case by (simp split: if_splits)
next
  case (Suc fuel)
  let ?s1 = "w_others W k s"
  have ok1: "srv_ok A I ?s1" by (rule srv_movesD(1) [OF over_afterD(1) [OF assms(1)] Suc.prems(1)])
  obtain h x where r: "recv sub (logHub ?s1) = (h, x)" by fastforce
  show ?case
  proof (cases x)
    case None
    with r show ?thesis by simp
  next
    case (Some ev)
    let ?s2 = "?s1\<lparr>logHub := h\<rparr>"
    have h: "h = fst (recv sub (logHub ?s1))" using r by simp
    have ok2: "srv_ok A I ?s2"
      unfolding h by (rule srv_movesD(1) [OF srv_moves_fields(1) [OF recv_ok, where L = False and X = "{}"] ok1])
    have m: "Suc (mail sub ?s2) = mail sub ?s1" using mail_recv r Some by blast
    have "if Suc k \<le> K then fuel > (Suc K - Suc k) + 1024 else fuel > mail sub ?s2"
    proof (cases "k \<le> K")
      case True
      then show ?thesis using Suc.prems(2) mail_bound [OF ok2, of sub] by auto
    next
      case False
      then show ?thesis using Suc.prems(2) m over_afterD(3) [OF assms(1), of k sub s] by simp
    qed
    from Suc.IH [OF ok2 this] r Some show ?thesis by (simp add: Let_def split: option.split)
  qed
qed

context live_server
begin

lemma watch_loop_returns:
  assumes W: "over_after A I i K W" and "srv_ok A I s" "a_jobs (A (jobStore s)) i \<noteq> None"
    and "k > K \<longrightarrow> finished A i s" "fuel > (Suc K - k) + 1026"
  shows "\<exists>x. watch_loop S W fuel k i sub old sent s = Some x"
  using assms(2-5)
proof (induction fuel arbitrary: k old sent s)
  case 0
  then show ?case by simp
next
  case (Suc fuel)
  let ?s1 = "w_others W k s"
  let ?x = "GetJob (on_store S) i ?s1"
  note e = over_afterD(1) [OF W]
  have ok1: "srv_ok A I ?s1" by (rule srv_movesD(1) [OF e Suc.prems(1)])
  have there: "a_jobs (A (jobStore t)) i \<noteq> None" if "srv_moves A I False {} {} s t" for t
    using store_moves_job [OF srv_movesD(2) [OF that Suc.prems(1)]] Suc.prems(2) by fastforce
  have get: "?x = Inr (a_jobs (A (jobStore ?s1)) i)" by (rule lv.GetJob_reliable [OF srv_okD(1) [OF ok1]])
  have drain: "\<exists>y. drain_mail W fuel (Suc k) sub sent ?s1 = Some y"
  proof (rule drain_mail_returns [OF W ok1])
    show "if Suc k \<le> K then fuel > (Suc K - Suc k) + 1024 else fuel > mail sub ?s1"
      using Suc.prems(4) mail_bound [OF ok1, of sub] by auto
  qed
  show ?case
  proof (cases "stored_terminal ?x")
    case (Some rec)
    from drain obtain t sent2 q where "drain_mail W fuel (Suc k) sub sent ?s1 = Some (t, sent2, q)" by auto
    with Some show ?thesis by (cases q) (auto simp: Let_def)
  next
    case None
    have "\<not> finished A i ?s1"
      using None get by (auto simp: stored_terminal_def finished_def terminal_def split: if_splits)
    moreover have "finished A i ?s1" if "k = K" using over_afterD(2) [OF W Suc.prems(1,2)] that by simp
    moreover have "finished A i ?s1" if "k > K" using finished_later [OF e Suc.prems(1)] Suc.prems(3) that by blast
    ultimately have kK: "k < K" by (meson linorder_neqE_nat)
    obtain old1 sent1 er where p: "poll_status W i ?x old sent = (old1, sent1, er)" by (rule prod_cases3)
    let ?s2 = "w_others W (Suc k) ?s1"
    have m2: "srv_moves A I False {} {} s ?s2" by (rule srv_moves_trans [OF e e])
    have fin: "finished A i ?s2" if "k + 2 > K"
    proof -
      from that kK have "K = Suc k" by simp
      with over_afterD(2) [OF W ok1 there [OF e]] show ?thesis by simp
    qed
    obtain h x where rv: "recv sub (logHub ?s2) = (h, x)" by fastforce
    let ?s3 = "?s2\<lparr>logHub := h\<rparr>"
    have h: "h = fst (recv sub (logHub ?s2))" using rv by simp
    have m3: "srv_moves A I False {} {} s ?s3"
      unfolding h by (rule srv_moves_trans [OF m2 srv_moves_fields(1) [OF recv_ok]])
    have fin3: "finished A i ?s3" if "k + 2 > K" using fin [OF that] by (simp add: finished_def)
    have fuel: "fuel > (Suc K - (k + 2)) + 1026" using Suc.prems(4) kK by auto
    have go2: "\<exists>x. watch_loop S W fuel (k + 2) i sub o2 sn ?s2 = Some x" for o2 sn
      by (rule Suc.IH [OF srv_movesD(1) [OF m2 Suc.prems(1)] there [OF m2] _ fuel]) (use fin in blast)
    have go3: "\<exists>x. watch_loop S W fuel (k + 2) i sub o2 sn ?s3 = Some x" for o2 sn
      by (rule Suc.IH [OF srv_movesD(1) [OF m3 Suc.prems(1)] there [OF m3] _ fuel]) (use fin3 in blast)
    show ?thesis
    proof (cases er)
      case (Some y)
      with None p show ?thesis by (simp add: Let_def)
    next
      case er: None
      show ?thesis
      proof (cases "w_wake W k = Mail \<and> x \<noteq> None")
        case True
        then obtain ev where "w_wake W k = Mail" "x = Some ev" by blast
        with None er p rv go3 show ?thesis by (auto simp: Let_def split: option.split)
      next
        case False
        with None er p rv go2 show ?thesis by (cases "w_wake W k"; cases x) (simp_all add: Let_def)
      qed
    qed
  qed
qed

lemma WatchJob_returns:
  assumes W: "over_after A I i K W" and "srv_ok A I s" "fuel > K + 1026"
  shows "\<exists>x. WatchJob S W fuel i s = Some x"
proof (cases "i \<noteq> [] \<and> a_jobs (A (jobStore s)) i \<noteq> None")
  case False
  with lv.GetJob_reliable [OF srv_okD(1) [OF assms(2)], of i] show ?thesis by (auto simp: WatchJob_def)
next
  case True
  then obtain rec where rec: "i \<noteq> []" "a_jobs (A (jobStore s)) i = Some rec" by blast
  have get: "GetJob S i (jobStore s) = Inr (Some rec)"
    using lv.GetJob_reliable [OF srv_okD(1) [OF assms(2)], of i] rec by simp
  let ?s1 = "w_others W 0 s"
  note e = over_afterD(1) [OF W]
  have ok1: "srv_ok A I ?s1" by (rule srv_movesD(1) [OF e assms(2)])
  obtain h sub replay fe where sb: "Subscribe i (logHub ?s1) = (h, sub, replay, fe)" by (rule prod_cases4)
  let ?s2 = "?s1\<lparr>logHub := h\<rparr>"
  have m2: "srv_moves A I False {} {} s ?s2"
    unfolding Subscribe_result(1) [OF sb] by (rule srv_moves_trans [OF e srv_moves_fields(1) [OF Subscribe_ok]])
  have there: "a_jobs (A (jobStore ?s2)) i \<noteq> None"
    using store_moves_job [OF srv_movesD(2) [OF m2 assms(2)] rec(2)] by auto
  have fin: "1 > K \<longrightarrow> finished A i ?s2" using over_afterD(2) [OF W assms(2)] rec by (auto simp: finished_def)
  have loop: "\<exists>x. watch_loop S W fuel 1 i sub st sent ?s2 = Some x" for st sent
    by (rule watch_loop_returns [OF W srv_movesD(1) [OF m2 assms(2)] there fin]) (use assms(3) in simp)
  obtain sent er where sa: "send_all W (statusEvent i (Status rec) # replay) [] = (sent, er)" by fastforce
  from loop [of "Status rec" sent] rec get sb sa show ?thesis
    by (cases er; cases fe) (auto simp: WatchJob_def Let_def simp del: send_all.simps)
qed

end

section \<open>No log entries for jobs that are over\<close>

lemma Append_dom: "dom (hub_jobs (Append i ls h)) \<subseteq> insert i (dom (hub_jobs h))"
proof -
  have line: "dom (hub_jobs (append_line i l h')) = insert i (dom (hub_jobs h'))" for l h'
    by (auto simp: append_line_def Let_def)
  have "dom (hub_jobs (fold (append_line i) xs h')) \<subseteq> insert i (dom (hub_jobs h'))" for xs h'
  proof (induction xs arbitrary: h')
    case (Cons l xs)
    from Cons [of "append_line i l h'"] show ?case by (simp add: line)
  qed auto
  note folded = this
  let ?h = "h\<lparr>hub_jobs := (hub_jobs h)(i \<mapsto> hub_get i h)\<rparr>"
  have "dom (hub_jobs ?h) = insert i (dom (hub_jobs h))" by simp
  with folded [of ls ?h] show ?thesis unfolding Append_def Let_def by (auto simp del: dom_fun_upd)
qed

context served
begin

lemma StreamTaskLogs_entries:
  assumes "I (jobStore s)"
  shows "dom (hub_jobs (logHub (fst (StreamTaskLogs S (quiet_env t) k chunks err s)))) \<subseteq>
    dom (hub_jobs (logHub s)) \<union> {i. \<exists>r. a_jobs (A (jobStore s)) i = Some r \<and> \<not> terminal r}"
  using assms
proof (induction chunks arbitrary: k s)
  case Nil
  then show ?case by simp
next
  case (Cons c chunks)
  let ?i = "c_JobId c"
  have skip: ?case if "StreamTaskLogs S (quiet_env t) k (c # chunks) err s = StreamTaskLogs S (quiet_env t) k' chunks err s" for k'
    unfolding that by (rule Cons.IH [OF Cons.prems])
  show ?case
  proof (cases "?i \<noteq> [] \<and> c_Lines c \<noteq> [] \<and> (\<exists>r. GetJob S ?i (jobStore s) = Inr (Some r) \<and> \<not> terminal r)")
    case False
    then show ?thesis
      using skip [of k] skip [of "Suc k"] by (auto simp: terminal_def split: sum.splits option.splits)
  next
    case True
    then obtain r where r: "GetJob S ?i (jobStore s) = Inr (Some r)" "\<not> terminal r" by blast
    then have job: "a_jobs (A (jobStore s)) ?i = Some r" using sv.GetJob_fallible [of s ?i "Some r"] Cons.prems by simp
    let ?s = "s\<lparr>logHub := Append ?i (c_Lines c) (logHub s)\<rparr>"
    have eq: "StreamTaskLogs S (quiet_env t) k (c # chunks) err s = StreamTaskLogs S (quiet_env t) (Suc k) chunks err ?s"
      using True r by (auto simp: terminal_def Let_def)
    have "I (jobStore ?s)" using Cons.prems by simp
    from Cons.IH [OF this, of "Suc k"] Append_dom [of ?i "c_Lines c" "logHub s"] job r(2) show ?thesis
      unfolding eq by auto
  qed
qed

end

text \<open>Under any interleaving, a job that gets finished ends its watchers' streams.\<close>

lemma watch_ends:
  assumes "bolt_live B" "over_after (store_abs B) (store_wf B) i K W" "srv_ok (store_abs B) (store_wf B) s"
    and "i \<noteq> []" "a_jobs (store_abs B (jobStore s)) i \<noteq> None" "fuel > K + 1026"
    and "\<forall>n. w_send W n = None" "\<forall>k. w_wake W k \<noteq> CtxDone"
  shows "\<exists>s' sent. WatchJob (BoltStore B) W fuel i s = Some (s', sent, Ended) \<and> ends_with_result sent"
proof -
  from assms(1) have B: "bolt_db B" by (simp add: bolt_live_def)
  obtain s' sent r where w: "WatchJob (BoltStore B) W fuel i s = Some (s', sent, r)"
    using live_server.WatchJob_returns [OF bolt_live_server [OF assms(1)] assms(2,3,6)] by auto
  note shape = served.WatchJob_shape [OF bolt_served [OF B] over_afterD(1) [OF assms(2)] assms(3) w]
  have get: "GetJob (BoltStore B) i (jobStore s) = Inr (a_jobs (store_abs B (jobStore s)) i)"
    by (rule reliable_store.GetJob_reliable [OF bolt_live.BoltStore_reliable [OF assms(1)] srv_okD(1) [OF assms(3)]])
  have "r = Ended" using WatchJob_ends [OF assms(7) w assms(4)] get assms(5) by auto
  with w shape assms(8) show ?thesis by (auto simp: stream_ok_def)
qed

section \<open>Properties\<close>

text \<open>
  C26: a watcher's stream is well-formed under every interleaving. It starts with the
  job's status, carries status changes and log lines, and unless the client cancels it or a
  send fails it ends with the job's result, which is the only result on it.
\<close>
theorem watch_stream_shape:
  assumes "bolt_db B" "\<And>k s. srv_moves (store_abs B) (store_wf B) L {} {} s (w_others W k s)"
    and "srv_ok (store_abs B) (store_wf B) s" "WatchJob (BoltStore B) W fuel i s = Some (s', sent, r)"
  shows "srv_moves (store_abs B) (store_wf B) L {} {} s s' \<and>
    (case r of StatusErr e \<Rightarrow> sent = []
     | _ \<Rightarrow> (\<exists>rec. a_jobs (store_abs B (jobStore s)) i = Some rec \<and>
         \<not> (sent \<noteq> [] \<and> hd sent \<noteq> statusEvent i (Status rec))) \<and> stream_ok sent r (\<exists>k. w_wake W k = CtxDone))"
  by (rule served.WatchJob_shape [OF bolt_served [OF assms(1)] srv_moves_frame [OF assms(2)] assms(3,4)])

definition demo_watch :: "mem_db watch_env" where
  "demo_watch = \<lparr>w_others = (\<lambda>k. if k = 1 then give_up (BoltStore mem_bolt) (quiet_env 9) ''j1'' ''lost'' else (\<lambda>s. s)),
     w_send = (\<lambda>_. None), w_wake = (\<lambda>_. Tick)\<rparr>"

lemma demo_watch_over: "over_after (store_abs mem_bolt) (store_wf mem_bolt) ''j1'' 1 demo_watch"
proof -
  let ?A = "store_abs mem_bolt" and ?I = "store_wf mem_bolt"
  let ?g = "give_up (BoltStore mem_bolt) (quiet_env 9) ''j1'' ''lost''"
  have t9: "time_ok (clock (quiet_env 9) 0)" using demo_time_ok by simp
  have g: "srv_moves ?A ?I True (insert ''j1'' {}) {} s (?g s) \<and>
    (True \<longrightarrow> a_jobs (?A (jobStore s)) ''j1'' \<noteq> None \<longrightarrow> finished ?A ''j1'' (?g s))" if "srv_ok ?A ?I s" for s
    by (rule served.give_up_srv [OF bolt_served [OF mem_bolt_db] quiet_env_moves
          bolt_live.BoltStore_reliable [OF mem_bolt_live] t9 that])
  have "srv_moves ?A ?I False {} {} s (?g s)" for s
    using g [of s] unfolding srv_moves_def by blast
  with g show ?thesis by (auto simp: over_after_def demo_watch_def)
qed

lemma demo_watch_sends: "\<forall>n. w_send demo_watch n = None" "\<forall>k. w_wake demo_watch k \<noteq> CtxDone"
  by (simp_all add: demo_watch_def)

theorem watch_stream_shape_witness:
  "\<exists>s' sent r. WatchJob (BoltStore mem_bolt) demo_watch 1028 ''j1'' demo_server = Some (s', sent, r) \<and>
     \<not> (sent \<noteq> [] \<and> hd sent \<noteq> statusEvent ''j1'' StatusRunning)"
proof -
  obtain s' sent r where w: "WatchJob (BoltStore mem_bolt) demo_watch 1028 ''j1'' demo_server = Some (s', sent, r)"
    using live_server.WatchJob_returns [OF bolt_live_server [OF mem_bolt_live] demo_watch_over demo_server_ok, of 1028] by auto
  from watch_stream_shape [OF mem_bolt_db over_afterD(1) [OF demo_watch_over] demo_server_ok w]
  show ?thesis using w by (cases r) (auto simp: demo_abs demo_job_def)
qed

text \<open>
  A watcher gets the result. If the job is terminal from some moment on, no send
  fails and the client stays, \<open>WatchJob\<close> returns, however its goroutine interleaved
  with the others before, and the stream has ended with the result.
\<close>
theorem watcher_gets_result:
  assumes "bolt_live B" "over_after (store_abs B) (store_wf B) i K W" "srv_ok (store_abs B) (store_wf B) s"
    and "i \<noteq> []" "a_jobs (store_abs B (jobStore s)) i \<noteq> None" "fuel > K + 1026"
    and "\<forall>n. w_send W n = None" "\<forall>k. w_wake W k \<noteq> CtxDone"
  shows "\<exists>s' sent. WatchJob (BoltStore B) W fuel i s = Some (s', sent, Ended) \<and> ends_with_result sent"
  by (rule watch_ends [OF assms])

theorem watcher_gets_result_witness:
  "\<exists>s' sent. WatchJob (BoltStore mem_bolt) demo_watch 1028 ''j1'' demo_server = Some (s', sent, Ended) \<and> ends_with_result sent"
  by (rule watcher_gets_result [OF mem_bolt_live demo_watch_over demo_server_ok _ _ _ demo_watch_sends]) (simp_all add: demo_abs)

text \<open>
  A worker's log stream makes log entries only for jobs that the store has and that
  are not terminal, so straggler and garbage chunks leave none behind.
\<close>
theorem straggler_logs_dropped:
  assumes "bolt_db B" "store_wf B (jobStore s)"
  shows "dom (hub_jobs (logHub (fst (StreamTaskLogs (BoltStore B) (quiet_env t) k chunks err s)))) \<subseteq>
    dom (hub_jobs (logHub s)) \<union> {i. \<exists>r. a_jobs (store_abs B (jobStore s)) i = Some r \<and> \<not> terminal r}"
  by (rule served.StreamTaskLogs_entries [OF bolt_served [OF assms(1)] assms(2)])

theorem straggler_logs_dropped_witness:
  "dom (hub_jobs (logHub (fst (StreamTaskLogs (BoltStore mem_bolt) (quiet_env 9) 0
     [\<lparr>c_JobId = ''gone'', c_WorkerId = ''w1'', c_Lines = [\<lparr>Line = ''x'', IsStderr = False, TsUnixMs = 1\<rparr>]\<rparr>] None demo_server))))
   \<subseteq> dom (hub_jobs (logHub demo_server)) \<union>
     {i. \<exists>r. a_jobs (store_abs mem_bolt (jobStore demo_server)) i = Some r \<and> \<not> terminal r}"
  by (rule straggler_logs_dropped [OF mem_bolt_db]) (simp add: demo_wf)

end
