(* ===== verification/Main_Program.thy ===== *)
theory Main_Program
  imports Http_Server Autoscaler Recovery Watch
begin

text \<open>
  \<open>main.go\<close> and \<open>recovery.go\<close>: the order in which the program brings its parts up and
  takes them down, the replay on raft leadership, the tick of the fault detector on the
  whole server, and the interceptor around unary handlers. A phase of \<open>main\<close> ends with
  the process exiting (\<open>Exit\<close>), with a call that never returns (\<open>Blocked\<close>) or with the
  parts that are up. Sockets, the signal handler and the goroutines' scheduling are the
  system's: what they deliver are arguments.
\<close>

section \<open>The log handler\<close>

datatype slog_Handler = TextHandler | JSONHandler

definition log_handler :: "(string \<Rightarrow> string) \<Rightarrow> slog_Handler" where
  "log_handler getenv = (if getenv ''MINIMODAL_LOG_FORMAT'' = ''json'' then JSONHandler else TextHandler)"

section \<open>The panic interceptor\<close>

datatype 'a outcome = Returns 'a | Panics string

definition recoveryUnaryInterceptor :: "('s \<Rightarrow> 's \<times> 'a rpc outcome) \<Rightarrow> 's \<Rightarrow> 's \<times> 'a rpc" where
  "recoveryUnaryInterceptor handler s =
     (case handler s of
        (s', Returns resp) \<Rightarrow> (s', resp)
      | (s', Panics r) \<Rightarrow> (s', Inl (GrpcStatus Internal ''internal server panic'')))"

section \<open>Leadership\<close>

text \<open>
  What the loop receives: a leadership change, with what the others did since the event
  before and the environment of the replay it may start. The list ends when the context
  does.
\<close>

record 'st lead_event =
  isLeader :: bool
  meanwhile :: "'st Server \<Rightarrow> 'st Server"
  replaying :: "'st handler_env"

fun watchRaftLeadership :: "'st Store \<Rightarrow> 'st lead_event list \<Rightarrow> 'st Server \<Rightarrow> 'st Server option" where
  "watchRaftLeadership S [] s = Some s"
| "watchRaftLeadership S (ev # evs) s =
     (let s1 = meanwhile ev s
      in if \<not> isLeader ev then watchRaftLeadership S evs s1
         else case RecoverUnfinishedJobs S (replaying ev) s1 of
                None \<Rightarrow> None
              | Some (s2, err) \<Rightarrow> watchRaftLeadership S evs s2)"

section \<open>The fault detector's tick on the server\<close>

fun reap_dead ::
  "'st Store \<Rightarrow> (nat \<Rightarrow> 'st Server \<Rightarrow> 'st Server) \<Rightarrow> (nat \<Rightarrow> 'st handler_env) \<Rightarrow> nat \<Rightarrow> string list \<Rightarrow> 'st Server \<Rightarrow> 'st Server option" where
  "reap_dead S gap E k [] s = Some s"
| "reap_dead S gap E k (i # dead) s =
     (let s1 = gap k s
      in if reaper (workerPool s1)
         then (case ReassignJobsOf S (E k) i s1 of
                 None \<Rightarrow> None
               | Some s2 \<Rightarrow> reap_dead S gap E (Suc k) dead s2)
         else reap_dead S gap E (Suc k) dead s1)"

definition detector_tick ::
  "'st Store \<Rightarrow> (nat \<Rightarrow> 'st Server \<Rightarrow> 'st Server) \<Rightarrow> (nat \<Rightarrow> 'st handler_env) \<Rightarrow> gotime \<Rightarrow> string list \<Rightarrow> 'st Server \<Rightarrow> 'st Server option" where
  "detector_tick S gap E now ks s =
     (case sweep now ks (workerPool s) of (p, dead) \<Rightarrow> reap_dead S gap E 0 dead (s\<lparr>workerPool := p\<rparr>))"

section \<open>Coming up\<close>

datatype 'a phase = Exit int | Blocked | Up (the_up: 'a)

text \<open>
  The first part of \<open>main\<close>: listen, open the store, replay. No other goroutine exists
  yet, so the replay runs in the quiet environment.
\<close>

definition main_start ::
  "'r raft_api \<Rightarrow> 'db bolt_api \<Rightarrow> ('db, 'lg, 'sn, 'ad, 'tr, 'r) cluster_api \<Rightarrow> (int64 \<Rightarrow> go_error option) \<Rightarrow>
   gotime \<Rightarrow> gotime \<Rightarrow> Config \<Rightarrow> ('db, 'r) any_store Server phase" where
  "main_start R B K listen now t c =
     (case listen (GRPCPort c) of
        Some err \<Rightarrow> Exit 1
      | None \<Rightarrow>
          (case NewServer (\<lambda>c. map_sum id Raft (NewRaftStore B K c)) (\<lambda>p. map_sum id Bolt (NewBoltStore B p)) now c of
             Inl err \<Rightarrow> Exit 1
           | Inr srv \<Rightarrow>
               (if Server_RaftStore srv = None then
                  (case RecoverUnfinishedJobs (any_Store R B) (quiet_env t) srv of
                     None \<Rightarrow> Blocked
                   | Some (srv', Some err) \<Rightarrow> Exit 1
                   | Some (srv', None) \<Rightarrow> Up srv')
                else Up srv)))"

text \<open>
  \<open>strings.Fields\<close>: split around the UTF-8 encodings of Unicode white space.
\<close>

definition white_space :: "string list" where
  "white_space = map (map char_of) ([[0x09], [0x0A], [0x0B], [0x0C], [0x0D], [0x20], [0xC2, 0x85], [0xC2, 0xA0],
     [0xE1, 0x9A, 0x80]] @ map (\<lambda>k. [0xE2, 0x80, 0x80 + k]) [0..<11] @
     [[0xE2, 0x80, 0xA8], [0xE2, 0x80, 0xA9], [0xE2, 0x80, 0xAF], [0xE2, 0x81, 0x9F], [0xE3, 0x80, 0x80 :: nat]])"

definition space_width :: "string \<Rightarrow> nat" where
  "space_width s = (case find (\<lambda>w. prefix w s) white_space of None \<Rightarrow> 0 | Some w \<Rightarrow> length w)"

fun fields_from :: "nat \<Rightarrow> string \<Rightarrow> string \<Rightarrow> string list" where
  "fields_from skipped word [] = (if word = [] then [] else [word])"
| "fields_from (Suc n) word (c # cs) = fields_from n word cs"
| "fields_from 0 word (c # cs) =
     (let w = space_width (c # cs)
      in if w = 0 then fields_from 0 (word @ [c]) cs
         else (if word = [] then [] else [word]) @ fields_from (w - 1) [] cs)"

definition Fields :: "string \<Rightarrow> string list" where
  "Fields s = fields_from 0 [] s"

definition autoscaler_config :: "Config \<Rightarrow> AutoscalerConfig" where
  "autoscaler_config c = \<lparr>as_Min = AutoscaleMin c, as_Max = AutoscaleMax c, QueueThreshold = AutoscaleQueueThreshold c,
     IdleTimeout = AutoscaleIdleTimeout c, Cooldown = AutoscaleCooldown c,
     RegisterTimeout = AutoscaleRegisterTimeout c, as_Tick = AutoscaleTick c\<rparr>"

definition start_autoscaler :: "Config \<Rightarrow> ProcessLauncher Autoscaler option phase" where
  "start_autoscaler c =
     (if AutoscaleEnabled c then
        (let argv = Fields (WorkerCmd c)
         in if length argv = 0 then Exit 1
            else Up (Some (NewAutoscaler (autoscaler_config c)
                   (NewProcessLauncher argv (WorkerDir c) (''127.0.0.1:'' @ show_int (sint (GRPCPort c))) (WorkerBasePort c)))))
      else Up None)"

definition grpc_MaxRecvMsgSize :: "Config \<Rightarrow> int64" where
  "grpc_MaxRecvMsgSize c = MaxPayloadBytes c + 1024 * 1024"

text \<open>
  Everything up to serving: the parts that are up and the goroutines that were started, in
  order. They act from here on; each is a loop modelled elsewhere. \<open>dash\<close> is what
  \<open>resolveDashboardPath\<close> found.
\<close>

datatype goroutine =
    Go_RunFaultDetector | Go_RunPendingQueueLoop | Go_watchRaftLeadership | Go_joinRaftCluster string
  | Go_Autoscaler_Run | Go_HTTP_Run | Go_Serve

record ('db, 'r) program =
  prog_srv :: "('db, 'r) any_store Server"
  prog_scaler :: "ProcessLauncher Autoscaler option"
  prog_routes :: "(string \<times> route) list"
  prog_recv_limit :: int64
  prog_started :: "goroutine list"

definition main_up ::
  "'r raft_api \<Rightarrow> 'db bolt_api \<Rightarrow> ('db, 'lg, 'sn, 'ad, 'tr, 'r) cluster_api \<Rightarrow> (string \<Rightarrow> string) \<Rightarrow> string \<Rightarrow>
   (int64 \<Rightarrow> go_error option) \<Rightarrow> gotime \<Rightarrow> gotime \<Rightarrow> Config \<Rightarrow> ('db, 'r) program phase" where
  "main_up R B K getenv dash listen now t c =
     (case main_start R B K listen now t c of
        Exit n \<Rightarrow> Exit n
      | Blocked \<Rightarrow> Blocked
      | Up srv \<Rightarrow>
          (let bg = [Go_RunFaultDetector, Go_RunPendingQueueLoop] @
                 (if Server_RaftStore srv \<noteq> None
                  then Go_watchRaftLeadership # (if RaftJoin c \<noteq> [] then [Go_joinRaftCluster (join_url c)] else [])
                  else [])
           in case start_autoscaler c of
                Exit n \<Rightarrow> Exit n
              | Blocked \<Rightarrow> Blocked
              | Up scaler \<Rightarrow>
                  Up \<lparr>prog_srv = srv, prog_scaler = scaler, prog_routes = NewHTTPServer getenv dash srv,
                      prog_recv_limit = grpc_MaxRecvMsgSize c,
                      prog_started = bg @ (if scaler \<noteq> None then [Go_Autoscaler_Run] else []) @ [Go_HTTP_Run, Go_Serve]\<rparr>))"

section \<open>Going down\<close>

text \<open>
  After the signal: the flag, the RPCs in flight until \<open>GracefulStop\<close> returns or the
  deadline forces the stop (\<open>in_flight\<close>), the background goroutines until they see the
  cancelled context (\<open>winding_down\<close>), the managed workers, and the deferred \<open>Close\<close>,
  whose error nobody reads. \<open>None\<close> when the launcher never returns.
\<close>

definition main_shutdown ::
  "'st Store \<Rightarrow> 'l Launcher \<Rightarrow> ('st Server \<Rightarrow> 'st Server) \<Rightarrow> ('st Server \<Rightarrow> 'st Server) \<Rightarrow>
   'st Server \<Rightarrow> 'l Autoscaler option \<Rightarrow> ('st Server \<times> 'l Autoscaler option) option" where
  "main_shutdown S L in_flight winding_down s scaler =
     (let s1 = BeginShutdown s;
          s2 = in_flight s1;
          s3 = winding_down s2
      in case scaler of
           None \<Rightarrow> Some (fst (Server_Close S s3), None)
         | Some a \<Rightarrow>
             (case Autoscaler_Shutdown L a of
                None \<Rightarrow> None
              | Some a' \<Rightarrow> Some (fst (Server_Close S s3), Some a')))"

section \<open>Words\<close>

text \<open>A worker command never has an empty word, so its first word names a program.\<close>

lemma fields_from_words: "w \<in> set (fields_from n word s) \<Longrightarrow> w \<noteq> []"
  by (induction n word s rule: fields_from.induct) (auto simp: Let_def split: if_splits)

lemma Fields_words: "[] \<notin> set (Fields s)"
  using fields_from_words by (auto simp: Fields_def)

section \<open>Moves\<close>

lemma sweep_wf: "range_order (workers p) ks \<Longrightarrow> sweep now ks p = (p', dead) \<Longrightarrow> pool_wf p \<Longrightarrow> pool_wf p'"
  by (auto simp: sweep_eq bury_wf)

context served
begin

lemma reap_dead_moves:
  assumes "\<And>k s. srv_moves A I L {} {} s (gap k s)" "\<And>k. env_moves A I L (E k)"
  shows "reap_dead S gap E k dead s = Some s' \<Longrightarrow> srv_moves A I L X X s s'"
proof (induction dead arbitrary: k s)
  case Nil
  then show ?case by simp
next
  case (Cons i dead)
  let ?s1 = "gap k s"
  have g: "srv_moves A I L X X s ?s1" by (rule srv_moves_frame [OF assms(1)])
  show ?case
  proof (cases "reaper (workerPool ?s1)")
    case True
    with Cons.prems obtain s2 where r: "ReassignJobsOf S (E k) i ?s1 = Some s2" "reap_dead S gap E (Suc k) dead s2 = Some s'"
      by (auto simp: Let_def split: option.splits)
    show ?thesis
      by (rule srv_moves_trans [OF g srv_moves_trans [OF ReassignJobsOf_moves [OF assms(2) r(1)] Cons.IH [OF r(2)]]])
  next
    case False
    with Cons.prems have "reap_dead S gap E (Suc k) dead ?s1 = Some s'" by (simp add: Let_def)
    from srv_moves_trans [OF g Cons.IH [OF this]] show ?thesis .
  qed
qed

lemma detector_tick_moves:
  assumes "\<And>k s. srv_moves A I L {} {} s (gap k s)" "\<And>k. env_moves A I L (E k)"
    and "range_order (workers (workerPool s)) ks" "detector_tick S gap E now ks s = Some s'"
  shows "srv_moves A I L X X s s'"
proof -
  obtain p dead where sw: "sweep now ks (workerPool s) = (p, dead)" by fastforce
  then have "reap_dead S gap E 0 dead (s\<lparr>workerPool := p\<rparr>) = Some s'" using assms(4) by (simp add: detector_tick_def)
  from reap_dead_moves [OF assms(1,2) this] have "srv_moves A I L X X (s\<lparr>workerPool := p\<rparr>) s'" .
  moreover have "srv_moves A I L X X s (s\<lparr>workerPool := p\<rparr>)"
    by (rule srv_moves_fields(4)) (rule sweep_wf [OF assms(3) sw])
  ultimately show ?thesis by (rule srv_moves_trans [rotated])
qed

lemma watchRaftLeadership_moves:
  assumes "\<And>ev s. ev \<in> set evs \<Longrightarrow> srv_moves A I L {} {} s (meanwhile ev s)" "\<And>ev. ev \<in> set evs \<Longrightarrow> env_moves A I L (replaying ev)"
  shows "watchRaftLeadership S evs s = Some s' \<Longrightarrow> srv_moves A I L X X s s'"
  using assms
proof (induction evs arbitrary: s)
  case Nil
  then show ?case by simp
next
  case (Cons ev evs)
  let ?s1 = "meanwhile ev s"
  have g: "srv_moves A I L X X s ?s1" by (rule srv_moves_frame [OF Cons.prems(2)]) simp
  show ?case
  proof (cases "isLeader ev")
    case True
    with Cons.prems(1) obtain s2 e where r: "RecoverUnfinishedJobs S (replaying ev) ?s1 = Some (s2, e)"
      "watchRaftLeadership S evs s2 = Some s'"
      by (auto simp: Let_def split: option.splits)
    have "srv_moves A I L X X s2 s'" by (rule Cons.IH [OF r(2)]) (use Cons.prems in auto)
    with r(1) show ?thesis
      by (intro srv_moves_trans [OF g srv_moves_trans [OF RecoverUnfinishedJobs_moves [OF _ r(1)]]]) (use Cons.prems in auto)
  next
    case False
    with Cons.prems(1) have "watchRaftLeadership S evs ?s1 = Some s'" by (simp add: Let_def)
    then have "srv_moves A I L X X ?s1 s'" by (rule Cons.IH) (use Cons.prems in auto)
    with g show ?thesis by (rule srv_moves_trans)
  qed
qed

end

section \<open>Opening the database\<close>

lemma create_buckets_Get:
  assumes "bolt_db B"
  shows "create_buckets B names tx = (tx', u, None) \<Longrightarrow> bolt_Get B tx' = bolt_Get B tx"
proof (induction names arbitrary: tx)
  case Nil
  then show ?case by simp
next
  case (Cons name names)
  then obtain tx1 where "bolt_CreateBucketIfNotExists B tx name = Inr tx1" "create_buckets B names tx1 = (tx', u, None)"
    by (auto split: sum.splits)
  with Cons.IH bolt_db.CreateBucketIfNotExists_Get [OF assms] show ?case by metis
qed

lemma NewBoltStore_Get:
  assumes "bolt_db B" "bolt_Open B path = Inr db" "NewBoltStore B path = Inr db'"
  shows "bolt_Get B db' = bolt_Get B db"
proof -
  obtain u where "bolt_Update B (create_buckets B [bucketJobs, bucketWorkers, bucketIdempotency]) () db = (db', u, None)"
    using assms(2,3) by (auto simp: NewBoltStore_def split: prod.splits option.splits)
  then show ?thesis
    by (cases rule: bolt_db.Update_cases [OF assms(1), consumes 1]) (use create_buckets_Get [OF assms(1)] in \<open>auto simp del: create_buckets.simps\<close>)
qed

lemma NewBoltStore_same:
  assumes "bolt_db B" "bolt_Open B path = Inr db" "NewBoltStore B path = Inr db'"
  shows "store_abs B db' = store_abs B db" "store_wf B db' = store_wf B db"
  by (simp_all add: store_abs_def store_wf_def NewBoltStore_Get [OF assms])

end
