(* ===== verification/System.thy ===== *)
theory System
  imports Main_Program
begin

text \<open>
  The orchestrator as a whole, in the mode with the local database. \<open>sys_run\<close> is what the
  server goes through while it is up: every RPC handler and every background loop, where
  between two actions of one of them any number of the others may run, to any depth.
  \<open>lives\<close> adds crashes and restarts: the process dies at any moment, with the database in
  any state that steps of the handlers in progress lead to, and \<open>main\<close> starts again on
  it. The theorems are end to end: from the first start on, through any number of runs,
  crashes and restarts.

  The premises of \<open>sys_run\<close> are what comes from outside the program: a UUID that is not
  in use yet, a clock within the years that a time can be stored with, and a context that
  is cancelled only after the shutdown flag is set (\<open>main_shutdown\<close> has that order).
\<close>

section \<open>A server that is up\<close>

inductive sys_run :: "'st Store \<Rightarrow> ('st \<Rightarrow> abs_store) \<Rightarrow> 'st Server \<Rightarrow> 'st Server \<Rightarrow> bool" for S A where
  idle: "sys_run S A s s"
| followed: "sys_run S A s s1 \<Longrightarrow> sys_run S A s1 s2 \<Longrightarrow> sys_run S A s s2"
| RegisterWorker: "sys_run S A s (fst (RegisterWorker now reg s))"
| Heartbeat: "sys_run S A s (fst (Heartbeat now hb s))"
| ReportTaskResult: "\<forall>k t. sys_run S A t (others E k t) \<Longrightarrow> ReportTaskResult S E req s = (s', ack) \<Longrightarrow> sys_run S A s s'"
| InvokeFunction: "\<forall>k t. sys_run S A t (others E k t) \<Longrightarrow> a_jobs (A (jobStore s)) uuid = None \<Longrightarrow> clock E 0 \<noteq> 0 \<Longrightarrow>
    InvokeFunction S E uuid call s = Some (s', resp) \<Longrightarrow> sys_run S A s s'"
| GetJobStatus: "\<forall>k t. sys_run S A t (others E k t) \<Longrightarrow> GetJobStatus S E i s = (s', st) \<Longrightarrow> sys_run S A s s'"
| WatchJob: "\<forall>k t. sys_run S A t (w_others W k t) \<Longrightarrow> WatchJob S W fuel i s = Some (s', sent, ended) \<Longrightarrow> sys_run S A s s'"
| StreamTaskLogs: "\<forall>k t. sys_run S A t (others E k t) \<Longrightarrow> sys_run S A s (fst (StreamTaskLogs S E k chunks err s))"
| drainer: "\<forall>k t. sys_run S A t (Dispatcher.idle R k t) \<Longrightarrow> \<forall>k n t. sys_run S A t (pause (received R k) n t) \<Longrightarrow>
    \<forall>k j t. sys_run S A t (others (closing (received R k)) j t) \<Longrightarrow>
    \<forall>k n j t. sys_run S A t (env_other (attempt_env (received R k) n) j t) \<Longrightarrow>
    \<forall>k n j conn task t. sys_run S A t (fst (env_rpc (attempt_env (received R k) n) j conn task t)) \<Longrightarrow>
    \<forall>k. time_ok (clock (closing (received R k)) 0) \<Longrightarrow> \<forall>k n j. time_ok (env_now (attempt_env (received R k) n) j) \<Longrightarrow>
    RunPendingQueueLoop S R fuel k n s = Some s' \<Longrightarrow> (\<forall>k n. \<not> cancelled (received R k) n) \<or> shuttingDown s' \<Longrightarrow>
    sys_run S A s s'"
| fault_detector: "\<forall>k t. sys_run S A t (gap k t) \<Longrightarrow> \<forall>j k t. sys_run S A t (others (F j) k t) \<Longrightarrow>
    range_order (workers (workerPool s)) ks \<Longrightarrow> detector_tick S gap F now ks s = Some s' \<Longrightarrow> sys_run S A s s'"
| leadership: "\<forall>ev \<in> set evs. \<forall>t. sys_run S A t (meanwhile ev t) \<Longrightarrow> \<forall>ev \<in> set evs. \<forall>k t. sys_run S A t (others (replaying ev) k t) \<Longrightarrow>
    watchRaftLeadership S evs s = Some s' \<Longrightarrow> sys_run S A s s'"
| BeginShutdown: "sys_run S A s (BeginShutdown s)"
| Server_Close: "sys_run S A s (fst (Server_Close S s))"

lemma srv_moves_down: "srv_moves A I False X Y s s' \<Longrightarrow> shuttingDown s' \<Longrightarrow> srv_moves A I L X' Y' s s'"
  by (simp add: srv_moves_def)

lemma sys_run_moves:
  assumes S: "served S A I" and L: "L \<Longrightarrow> reliable_store S A I" and "sys_run S A s s'"
  shows "srv_moves A I L {} {} s s'"
  using assms(3)
proof (induction rule: sys_run.induct)
  case (followed s s1 s2)
  then show ?case by (blast intro: srv_moves_trans)
next
  case (ReportTaskResult E req s s' ack)
  from ReportTaskResult.IH have "env_moves A I L E" by (simp add: env_moves_def)
  then show ?case using ReportTaskResult.hyps by (rule served.ReportTaskResult_moves [OF S])
next
  case (InvokeFunction E s uuid call s' resp)
  from InvokeFunction.IH have "env_moves A I L E" by (simp add: env_moves_def)
  then show ?case using InvokeFunction.hyps by (intro served.InvokeFunction_moves [OF S])
next
  case (GetJobStatus E i s s' st)
  from GetJobStatus.IH have "env_moves A I L E" by (simp add: env_moves_def)
  then show ?case using GetJobStatus.hyps by (rule served.GetJobStatus_moves [OF S])
next
  case (WatchJob W fuel i s s' sent ended)
  show ?case
  proof (cases "srv_ok A I s")
    case True
    show ?thesis
      by (rule served.WatchJob_shape [OF S srv_moves_frame True WatchJob.hyps, THEN conjunct1])
        (use WatchJob.IH in blast)
  qed (simp add: srv_moves_def)
next
  case (StreamTaskLogs E s k chunks err)
  then have "env_moves A I L E" by (simp add: env_moves_def)
  then show ?case by (rule served.StreamTaskLogs_moves [OF S])
next
  case (drainer R fuel k n s s')
  then have ok: "loop_ok A I L R"
    by (simp add: loop_ok_def drain_ok_def dispatch_env_moves_def env_moves_def)
  show ?case
  proof (cases "\<forall>k n. \<not> cancelled (received R k) n")
    case True
    with ok L drainer.hyps show ?thesis by (intro served.RunPendingQueueLoop_moves [OF S])
  next
    case False
    have "loop_ok A I False R"
      using ok by (auto simp: loop_ok_def drain_ok_def dispatch_env_moves_def env_moves_def srv_moves_def)
    then have "srv_moves A I False {} {} s s'"
      by (rule served.RunPendingQueueLoop_moves [OF S _ _ _ drainer.hyps(3)]) simp_all
    with drainer.hyps(4) False show ?thesis by (auto intro: srv_moves_down)
  qed
next
  case (fault_detector gap F s ks now s')
  show ?case
    by (rule served.detector_tick_moves [OF S _ _ fault_detector.hyps])
      (use fault_detector.IH in \<open>simp_all add: env_moves_def\<close>)
next
  case (leadership evs s s')
  show ?case
    by (rule served.watchRaftLeadership_moves [OF S _ _ leadership.hyps])
      (use leadership.IH in \<open>simp_all add: env_moves_def\<close>)
next
  case (Server_Close s)
  then show ?case by (simp add: Server_Close_def srv_moves_fields)
qed (simp_all add: RegisterWorker_moves Heartbeat_moves BeginShutdown_moves)

text \<open>The shutdown sequence is such a run, and it ends with the flag set.\<close>

lemma main_shutdown_runs:
  assumes "\<And>t. sys_run S A t (in_flight t)" "\<And>t. sys_run S A t (winding_down t)"
    and "main_shutdown S L in_flight winding_down s scaler = Some (s', scaler')"
  shows "sys_run S A s s'"
proof -
  have "s' = fst (Server_Close S (winding_down (in_flight (BeginShutdown s))))"
    using assms(3) by (auto simp: main_shutdown_def Let_def split: option.splits)
  then show ?thesis
    using sys_run.followed [OF sys_run.BeginShutdown sys_run.followed [OF assms(1) sys_run.followed [OF assms(2) sys_run.Server_Close]]]
    by simp
qed

section \<open>Crashes and restarts\<close>

text \<open>A database file with the contents \<open>db\<close>.\<close>

definition holding :: "'db bolt_api \<Rightarrow> 'db \<Rightarrow> 'db bolt_api" where
  "holding B db = B\<lparr>bolt_Open := (\<lambda>_. Inr db)\<rparr>"

inductive lives ::
  "'r raft_api \<Rightarrow> 'db bolt_api \<Rightarrow> ('db, 'lg, 'sn, 'ad, 'tr, 'r) cluster_api \<Rightarrow>
   ('db, 'r) any_store Server \<Rightarrow> ('db, 'r) any_store Server \<Rightarrow> bool" for R B K where
  up: "sys_run (any_Store R B) (any_abs B) s s' \<Longrightarrow> lives R B K s s'"
| crash: "store_wf B db \<Longrightarrow> store_moves (any_abs B (jobStore s)) (store_abs B db) \<Longrightarrow> \<not> RaftEnabled c \<Longrightarrow> time_ok t \<Longrightarrow>
    main_up R (holding B db) K getenv dash listen now t c = Up p \<Longrightarrow> lives R B K s (prog_srv p)"
| on: "lives R B K s s1 \<Longrightarrow> lives R B K s1 s2 \<Longrightarrow> lives R B K s s2"

lemma holding_simps [simp]:
  "bolt_Open (holding B db) path = Inr db" "store_abs (holding B db) = store_abs B" "store_wf (holding B db) = store_wf B"
  "any_abs (holding B db) = any_abs B" "any_wf (holding B db) = any_wf B"
  by (simp_all add: holding_def store_abs_def store_wf_def any_abs_def any_wf_def fun_eq_iff split: any_store.split)

lemma holding_live: "bolt_live B \<Longrightarrow> bolt_live (holding B db)"
proof -
  have "bolt_live (holding B db) = bolt_live B"
    by (cases B) (simp only: bolt_live_def bolt_db_def bolt_live_axioms_def holding_def bolt_api.simps)
  then show "bolt_live B \<Longrightarrow> bolt_live (holding B db)" by (simp only:)
qed

definition settled_down :: "'db bolt_api \<Rightarrow> ('db, 'r) any_store Server \<Rightarrow> bool" where
  "settled_down B s \<longleftrightarrow> srv_ok (any_abs B) (any_wf B) s \<and> (\<not> shuttingDown s \<longrightarrow> accounted (any_abs B) {} s)"

lemma settled_down_holding [simp]: "settled_down (holding B db) s = settled_down B s"
  by (simp add: settled_down_def)

lemma NewServer_bolt:
  assumes "\<not> RaftEnabled c"
  shows "NewServer raft_open (\<lambda>p. map_sum id Bolt (NewBoltStore B p)) now c =
    (case NewBoltStore B (DBPath c) of Inl e \<Rightarrow> Inl e | Inr db \<Rightarrow> Inr (NewServerWithStore now c (Bolt db)))"
  using assms by (simp add: NewServer_def rbind_def split: sum.split)

text \<open>What a start of the program on a database leaves.\<close>

lemma main_start_bolt:
  fixes R :: "'r raft_api" and B :: "'db bolt_api"
  assumes "bolt_live B" "\<not> RaftEnabled c" "time_ok t" "bolt_Open B (DBPath c) = Inr db" "store_wf B db" "store_ok (store_abs B db)"
    and "js = filter unfinished (spec_jobs (store_abs B db))" "listen (GRPCPort c) = None" "NewBoltStore B (DBPath c) = Inr db'"
  shows "if length js \<le> pendingQueueSize
    then \<exists>s. main_start R B K listen now t c = Up s \<and> pendingQueue s = map ID js \<and>
      (\<forall>i. a_jobs (any_abs B (jobStore s)) i = map_option (\<lambda>r. if unfinished r then recovered t r else r) (a_jobs (store_abs B db) i)) \<and>
      store_moves (store_abs B db) (any_abs B (jobStore s)) \<and> srv_ok (any_abs B) (any_wf B) s \<and> accounted (any_abs B) {} s \<and> cfg s = c
    else main_start R B K listen now t c = Blocked"
proof -
  let ?s = "NewServerWithStore now c (Bolt db' :: ('db, 'r) any_store)" and ?S = "any_Store R B"
  have db: "bolt_db B" using assms(1) by (simp add: bolt_live_def)
  note same = NewBoltStore_same [OF db assms(4,9)]
  have js: "js = filter unfinished (spec_jobs (any_abs B (jobStore ?s)))"
    by (simp add: assms(7) NewServerWithStore_def Let_def same)
  have ok: "srv_ok (any_abs B) (any_wf B) ?s" by (rule new_server_ok) (simp_all add: same assms(5,6))
  have q: "pendingQueue ?s = []" "\<not> shuttingDown ?s" "Server_RaftStore ?s = None" "jobStore ?s = Bolt db'"
    by (simp_all add: NewServerWithStore_def Let_def Server_RaftStore_def)
  have start: "main_start R B K listen now t c = (case RecoverUnfinishedJobs ?S (quiet_env t) ?s of
      None \<Rightarrow> Blocked | Some (srv', Some err) \<Rightarrow> Exit 1 | Some (srv', None) \<Rightarrow> Up srv')"
    using assms(2,8,9) q(3) by (simp add: main_start_def NewServer_bolt)
  note rec = live_server.RecoverUnfinishedJobs_exact [OF any_live_server [OF assms(1)] ok q(2) assms(3) js, of R]
  show ?thesis
  proof (cases "length js \<le> pendingQueueSize")
    case False
    with rec q(1) start show ?thesis by simp
  next
    case True
    with rec q(1) obtain s where s: "RecoverUnfinishedJobs ?S (quiet_env t) ?s = Some (s, None)" "pendingQueue s = map ID js"
      "\<forall>i. a_jobs (any_abs B (jobStore s)) i = map_option (\<lambda>r. if unfinished r then recovered t r else r) (a_jobs (any_abs B (jobStore ?s)) i)"
      "accounted (any_abs B) {} s" by auto
    note m = served.RecoverUnfinishedJobs_moves [OF any_served [OF db] quiet_env_moves s(1), of False "{}"]
    have "srv_ok (any_abs B) (any_wf B) s \<and> cfg s = c" using srv_movesD(1,3) [OF m ok] by (simp add: NewServerWithStore_def Let_def)
    moreover have "store_moves (store_abs B db) (any_abs B (jobStore s))"
      using srv_movesD(2) [OF m ok] by (simp add: q(4) same)
    moreover have "\<forall>i. a_jobs (any_abs B (jobStore s)) i = map_option (\<lambda>r. if unfinished r then recovered t r else r) (a_jobs (store_abs B db) i)"
      using s(3) by (simp add: q(4) same)
    ultimately show ?thesis using True s(1,2,4) start by simp
  qed
qed

lemma main_up_start:
  "main_up R B K getenv dash listen now t c = Up p \<Longrightarrow> main_start R B K listen now t c = Up (prog_srv p)"
  by (auto simp: main_up_def Let_def split: phase.splits)

lemma main_start_opened:
  assumes "main_start R B K listen now t c = Up s" "\<not> RaftEnabled c"
  obtains db' where "listen (GRPCPort c) = None" "NewBoltStore B (DBPath c) = Inr db'"
  using assms by (auto simp: main_start_def NewServer_bolt split: option.splits sum.splits)

lemma restart_settled:
  assumes "bolt_live B" "store_wf B db" "store_ok (store_abs B db)" "\<not> RaftEnabled c" "time_ok t"
    and "main_up R (holding B db) K getenv dash listen now t c = Up p"
  shows "store_moves (store_abs B db) (any_abs B (jobStore (prog_srv p))) \<and> settled_down B (prog_srv p)"
proof -
  note up = main_up_start [OF assms(6)]
  from main_start_opened [OF up assms(4)] obtain db' where o: "listen (GRPCPort c) = None"
    "NewBoltStore (holding B db) (DBPath c) = Inr db'" .
  have wf: "store_wf (holding B db) db" "store_ok (store_abs (holding B db) db)" using assms(2,3) by simp_all
  then show ?thesis
    using main_start_bolt [of "holding B db" c t db _ listen, OF holding_live [OF assms(1)] assms(4,5) holding_simps(1) wf refl o, of R K now] up
    by (auto simp: settled_down_def split: if_splits)
qed

lemma lives_settled:
  assumes "bolt_live B" "lives R B K s s'" "settled_down B s"
  shows "store_moves (any_abs B (jobStore s)) (any_abs B (jobStore s')) \<and> settled_down B s'"
  using assms(2,3)
proof (induction rule: lives.induct)
  case (up s s')
  have "bolt_db B" using assms(1) by (simp add: bolt_live_def)
  have m: "srv_moves (any_abs B) (any_wf B) True {} {} s s'"
    by (rule sys_run_moves [OF any_served any_reliable up.hyps]) (rule assms(1) \<open>bolt_db B\<close>)+
  from up.prems have "srv_ok (any_abs B) (any_wf B) s" by (simp add: settled_down_def)
  from m [unfolded srv_moves_def, THEN mp, OF this] have
    "srv_ok (any_abs B) (any_wf B) s'" "store_moves (any_abs B (jobStore s)) (any_abs B (jobStore s'))"
    "\<not> shuttingDown s' \<Longrightarrow> \<not> shuttingDown s" "\<not> shuttingDown s' \<Longrightarrow> accounted (any_abs B) {} s \<Longrightarrow> accounted (any_abs B) {} s'"
    by (auto dest: spec [of _ "{}"])
  with up.prems show ?case by (simp add: settled_down_def)
next
  case (crash db s c t getenv dash listen now p)
  from crash.prems have "store_ok (any_abs B (jobStore s))" by (simp add: settled_down_def srv_ok_def)
  from store_moves_ok [OF crash.hyps(2) this] have "store_ok (store_abs B db)" .
  from restart_settled [OF assms(1) crash.hyps(1) this crash.hyps(3-5)]
  show ?case by (auto intro: rtranclp_trans [OF crash.hyps(2)])
next
  case (on s s1 s2)
  from on.IH(1) [OF on.prems] have "settled_down B s1" by simp
  from on.IH(2) [OF this] on.IH(1) [OF on.prems] show ?case by (auto intro: rtranclp_trans)
qed

section \<open>A job along its steps\<close>

lemma job_steps_payload:
  assumes "job_step\<^sup>*\<^sup>* r r'" "CreatedAt r \<noteq> 0"
  shows "CreatedAt r' = CreatedAt r \<and> (\<not> terminal r' \<longrightarrow> FunctionBytes r' = FunctionBytes r \<and> ArgsBytes r' = ArgsBytes r)"
  using assms(1)
proof (induction rule: rtranclp_induct)
  case base
  then show ?case by simp
next
  case (step b c)
  have b: "CreatedAt b \<noteq> 0" using step.IH assms(2) by simp
  then have created: "CreatedAt c = CreatedAt r" using job_step_identity [OF step.hyps(2)] step.IH by simp
  moreover have "FunctionBytes c = FunctionBytes r \<and> ArgsBytes c = ArgsBytes r" if "\<not> terminal c"
  proof -
    have "\<not> terminal b"
    proof
      assume "terminal b"
      from job_step_terminal [OF step.hyps(2) this b] have "Status c = Status b" by (metis JobRecord.select_convs(2) JobRecord.surjective JobRecord.update_convs)
      with \<open>terminal b\<close> that show False by (simp add: terminal_def)
    qed
    with step.IH job_step_payload [OF step.hyps(2) that] show ?thesis by simp
  qed
  ultimately show ?case by blast
qed

section \<open>Properties\<close>

text \<open>
  C6: startup is complete. Started on a database that holds well-formed jobs, when the
  port, the database and the worker command are usable, the program comes up with every
  unfinished job (and no other) PENDING and queued once, in ID order, and every finished
  one as it was; or, if there are more unfinished jobs than the queue holds, it never comes
  up.
\<close>
theorem startup_complete:
  assumes "bolt_live B" "\<not> RaftEnabled c" "time_ok t" "bolt_Open B (DBPath c) = Inr db" "store_wf B db" "store_ok (store_abs B db)"
    and "js = filter unfinished (spec_jobs (store_abs B db))" "listen (GRPCPort c) = None" "NewBoltStore B (DBPath c) = Inr db'"
    and "start_autoscaler c = Up scaler"
  shows "if length js \<le> 10000
    then \<exists>p. main_up R B K getenv dash listen now t c = Up p \<and> prog_scaler p = scaler \<and>
      pendingQueue (prog_srv p) = map ID js \<and>
      (\<forall>i. a_jobs (any_abs B (jobStore (prog_srv p))) i = map_option (\<lambda>r. if unfinished r then recovered t r else r) (a_jobs (store_abs B db) i)) \<and>
      srv_ok (any_abs B) (any_wf B) (prog_srv p)
    else main_up R B K getenv dash listen now t c = Blocked"
proof (cases "length js \<le> 10000")
  case True
  then obtain s where s: "main_start R B K listen now t c = Up s" "pendingQueue s = map ID js"
    "\<forall>i. a_jobs (any_abs B (jobStore s)) i = map_option (\<lambda>r. if unfinished r then recovered t r else r) (a_jobs (store_abs B db) i)"
    "srv_ok (any_abs B) (any_wf B) s"
    using main_start_bolt [where listen = listen, OF assms(1-9), of R K now] by (auto simp: pendingQueueSize_def)
  then show ?thesis using True assms(10) by (simp add: main_up_def)
next
  case False
  then show ?thesis using main_start_bolt [where listen = listen, OF assms(1-9), of R K now] by (simp add: pendingQueueSize_def main_up_def)
qed

definition demo_cluster :: "(mem_db, unit, unit, unit, unit, nat) cluster_api" where
  "demo_cluster = \<lparr>os_MkdirAll = (\<lambda>_. None), raftboltdb_NewBoltStore = (\<lambda>_. Inr ()), raft_NewFileSnapshotStore = (\<lambda>_ _. Inr ()),
     net_ResolveTCPAddr = (\<lambda>_. Inr ()), raft_NewTCPTransport = (\<lambda>_ _ _ _. Inr ()), raft_NewRaft = (\<lambda>_. Inr 0),
     raft_BootstrapCluster = (\<lambda>r _. (r, None))\<rparr>"

definition demo_up :: "mem_db \<Rightarrow> (mem_db, nat) program phase" where
  "demo_up db = main_up demo_follower (holding mem_bolt db) demo_cluster (\<lambda>_. []) [] (\<lambda>_. None) 1 9 demo_config"

lemma demo_opens: "NewBoltStore (holding mem_bolt db) path = Inr db"
  by (simp add: NewBoltStore_def holding_def mem_bolt_def bolt_Update_def)

lemma demo_no_scaler: "start_autoscaler demo_config = Up None" "\<not> RaftEnabled demo_config"
  by (simp_all add: start_autoscaler_def demo_config_def LoadConfig_def envBool_def)

lemma demo_jobs: "filter unfinished (spec_jobs (store_abs (holding mem_bolt demo_db) demo_db)) = [demo_job]"
  by (simp add: spec_jobs_def demo_abs unfinished_def) (simp add: demo_job_def)

theorem startup_complete_witness: "\<exists>p. demo_up demo_db = Up p \<and> pendingQueue (prog_srv p) = [''j1'']"
  using startup_complete [where listen = "\<lambda>_. None", OF holding_live [OF mem_bolt_live] demo_no_scaler(2) demo_time_ok holding_simps(1) _ _
      demo_jobs [symmetric] refl demo_opens demo_no_scaler(1), of demo_follower demo_cluster "\<lambda>_. []" "[]" 1]
  by (auto simp: demo_up_def demo_wf demo_store_ok demo_ID)


lemma demo_restarts:
  assumes "store_wf mem_bolt db" "store_ok (store_abs mem_bolt db)" "length (filter unfinished (spec_jobs (store_abs mem_bolt db))) \<le> 10000"
  obtains p s where "demo_up db = Up p" "prog_srv p = s" "srv_ok (any_abs mem_bolt) (any_wf mem_bolt) s" "accounted (any_abs mem_bolt) {} s"
    "cfg s = demo_config" "length (pendingQueue s) = length (filter unfinished (spec_jobs (store_abs mem_bolt db)))"
    "\<forall>i. a_jobs (any_abs mem_bolt (jobStore s)) i = None \<longleftrightarrow> a_jobs (store_abs mem_bolt db) i = None"
proof -
  let ?B = "holding mem_bolt db"
  have "store_wf ?B db" "store_ok (store_abs ?B db)" using assms(1,2) by simp_all
  note start = main_start_bolt [where listen = "\<lambda>_. None", OF holding_live [OF mem_bolt_live] demo_no_scaler(2) demo_time_ok holding_simps(1) this
      refl refl demo_opens, of demo_follower demo_cluster 1]
  from start assms(3) obtain s where
    "main_start demo_follower ?B demo_cluster (\<lambda>_. None) 1 9 demo_config = Up s"
    "srv_ok (any_abs mem_bolt) (any_wf mem_bolt) s" "accounted (any_abs mem_bolt) {} s" "cfg s = demo_config"
    "length (pendingQueue s) = length (filter unfinished (spec_jobs (store_abs mem_bolt db)))"
    "\<forall>i. a_jobs (any_abs mem_bolt (jobStore s)) i = map_option (\<lambda>r. if unfinished r then recovered 9 r else r) (a_jobs (store_abs mem_bolt db) i)"
    by (auto simp: pendingQueueSize_def)
  then show thesis
    by (intro that [of "the_up (demo_up db)" s]) (simp_all add: demo_up_def main_up_def demo_no_scaler(1))
qed



lemma demo_accepts:
  obtains p s s1 i where "demo_up demo_db = Up p" "prog_srv p = s" "srv_ok (any_abs mem_bolt) (any_wf mem_bolt) s" "accounted (any_abs mem_bolt) {} s"
    "a_jobs (any_abs mem_bolt (jobStore s)) ''u'' = None"
    "InvokeFunction (any_Store demo_follower mem_bolt) (quiet_env 9) ''u'' demo_request s = Some (s1, Inr i)"
proof -
  have js: "length (filter unfinished (spec_jobs (store_abs mem_bolt demo_db))) = 1"
    using arg_cong [OF demo_jobs, of length] by (simp only: holding_simps) simp
  then have "length (filter unfinished (spec_jobs (store_abs mem_bolt demo_db))) \<le> 10000" by linarith
  then obtain p s where s: "demo_up demo_db = Up p" "prog_srv p = s" "srv_ok (any_abs mem_bolt) (any_wf mem_bolt) s" "accounted (any_abs mem_bolt) {} s"
      "cfg s = demo_config" "length (pendingQueue s) = length (filter unfinished (spec_jobs (store_abs mem_bolt demo_db)))"
      "\<forall>i. a_jobs (any_abs mem_bolt (jobStore s)) i = None \<longleftrightarrow> a_jobs (store_abs mem_bolt demo_db) i = None"
    by (rule demo_restarts [OF demo_wf demo_store_ok])
  have fresh: "a_jobs (any_abs mem_bolt (jobStore s)) ''u'' = None" using spec [OF s(7), of "''u''"] by (simp add: demo_abs)
  have "\<not> payload_too_large (cfg s) demo_request"
    by (simp add: s(5) payload_too_large_def demo_request_def demo_config_def LoadConfig_def envInt_def)
  then obtain s1 i where "InvokeFunction (any_Store demo_follower mem_bolt) (quiet_env 9) ''u'' demo_request s = Some (s1, Inr i)"
    using live_server.InvokeFunction_accepts [OF any_live_server [OF mem_bolt_live] s(3) _ demo_time_ok, of "''u''" demo_request demo_follower] s(6)
    unfolding js by (auto simp: demo_request_def MaxKeySize_def pendingQueueSize_def)
  with s(1-4) fresh show thesis by (rule that)
qed


end
