(* ===== verification/Worker_Frames.thy ===== *)
theory Worker_Frames
  imports Prelude
begin

text \<open>
  The length-prefixed frames that the worker exchanges with the processes it runs functions
  in: \<open>_recv_exact\<close>, \<open>_send_message\<close> and \<open>_recv_message\<close> of \<open>warm_pool.py\<close>, \<open>_read_exact\<close> and
  \<open>_read_request\<close> of \<open>subprocess_runner.py\<close>. A byte stream delivers its data in any pieces:
  the pieces are part of the stream's state, and the lemmas hold for all of them.
\<close>

section \<open>Python's exceptions and integers in network order\<close>

text \<open>
  \<open>OSError\<close> includes its subclasses \<open>TimeoutError\<close> and \<open>ConnectionError\<close>; \<open>Raised\<close> is any other
  subclass of \<open>Exception\<close>, with its text.
\<close>

datatype py_error = EOFError | OSError | StructError | Raised string

type_synonym 'a py = "py_error + 'a"

text \<open>\<open>struct.pack("!I", n)\<close> raises when \<open>n\<close> does not fit 32 bits.\<close>

definition pack_I :: "nat \<Rightarrow> bytes py" where
  "pack_I n = (if n < 2 ^ 32 then Inr [of_nat (n div 2 ^ 24), of_nat (n div 2 ^ 16), of_nat (n div 2 ^ 8), of_nat n] else Inl StructError)"

definition unpack_I :: "bytes \<Rightarrow> nat" where
  "unpack_I bs = foldl (\<lambda>a b. a * 256 + unat b) 0 bs"

lemma unat_byte: "unat (of_nat n :: byte) = n mod 256"
  by (simp add: unat_of_nat)

lemma unpack_pack: "pack_I n = Inr bs \<Longrightarrow> unpack_I bs = n \<and> length bs = 4"
proof -
  assume "pack_I n = Inr bs"
  then have n: "n < 2 ^ 32" and bs: "bs = [of_nat (n div 2 ^ 24), of_nat (n div 2 ^ 16), of_nat (n div 2 ^ 8), of_nat n]"
    by (simp_all add: pack_I_def split: if_splits)
  have d: "n div 2 ^ 16 = n div 2 ^ 8 div 256" "n div 2 ^ 24 = n div 2 ^ 8 div 256 div 256" by (simp_all add: div_mult2_eq [symmetric])
  have "n div 2 ^ 24 mod 256 = n div 2 ^ 24" using n by (simp add: less_mult_imp_div_less)
  then have "unpack_I bs = ((n div 2 ^ 24 * 256 + n div 2 ^ 16 mod 256) * 256 + n div 2 ^ 8 mod 256) * 256 + n mod 256"
    by (simp only: bs unpack_I_def foldl.simps unat_byte) simp
  also have "n div 2 ^ 24 * 256 + n div 2 ^ 16 mod 256 = n div 2 ^ 16" unfolding d by simp
  also have "n div 2 ^ 16 * 256 + n div 2 ^ 8 mod 256 = n div 2 ^ 8" unfolding d by simp
  also have "n div 2 ^ 8 * 256 + n mod 256 = n" by simp
  finally show ?thesis by (simp add: bs)
qed

section \<open>Byte streams\<close>

text \<open>How a stream ends: closed by the peer, or with an error (reset, or timed out).\<close>

datatype stream_end = Eof | Broken

record stream =
  pieces :: "bytes list"
  ending :: stream_end

definition wf_stream :: "stream \<Rightarrow> bool" where
  "wf_stream s \<longleftrightarrow> [] \<notin> set (pieces s)"

definition data :: "stream \<Rightarrow> bytes" where
  "data s = concat (pieces s)"

text \<open>
  \<open>sock.recv(n)\<close>, and \<open>stream.read(n)\<close> of a pipe: at most \<open>n\<close> bytes of the next piece, and no
  bytes once the peer has closed.
\<close>

definition sock_recv :: "nat \<Rightarrow> stream \<Rightarrow> (bytes \<times> stream) py" where
  "sock_recv n s =
     (case pieces s of
        [] \<Rightarrow> (case ending s of Eof \<Rightarrow> Inr ([], s) | Broken \<Rightarrow> Inl OSError)
      | p # ps \<Rightarrow> Inr (take n p, s\<lparr>pieces := (if n < length p then drop n p # ps else ps)\<rparr>))"

function recv_exact_loop :: "nat \<Rightarrow> bytes \<Rightarrow> stream \<Rightarrow> (bytes \<times> stream) py" where
  "recv_exact_loop n buf s =
     (if length buf < n then
        (case sock_recv (n - length buf) s of
           Inl e \<Rightarrow> Inl e
         | Inr (chunk, s') \<Rightarrow> (if chunk = [] then Inl EOFError else recv_exact_loop n (buf @ chunk) s'))
      else Inr (buf, s))"
  by pat_completeness auto

termination recv_exact_loop
  by (relation "measure (\<lambda>(n, buf, s). n - length buf)") (auto intro: diff_less_mono2 simp: diff_less_mono2)

declare recv_exact_loop.simps [simp del]

definition recv_exact :: "nat \<Rightarrow> stream \<Rightarrow> (bytes \<times> stream) py" where
  "recv_exact n s = recv_exact_loop n [] s"

definition send_message :: "bytes \<Rightarrow> bytes py" where
  "send_message payload = (case pack_I (length payload) of Inl e \<Rightarrow> Inl e | Inr h \<Rightarrow> Inr (h @ payload))"

definition recv_message :: "stream \<Rightarrow> (bytes \<times> stream) py" where
  "recv_message s =
     (case recv_exact 4 s of
        Inl e \<Rightarrow> Inl e
      | Inr (h, s1) \<Rightarrow> recv_exact (unpack_I h) s1)"

definition read_request :: "stream \<Rightarrow> ((bytes \<times> bytes) \<times> stream) py" where
  "read_request s =
     (case recv_exact 4 s of
        Inl e \<Rightarrow> Inl e
      | Inr (h, s1) \<Rightarrow>
          (case recv_exact (unpack_I h) s1 of
             Inl e \<Rightarrow> Inl e
           | Inr (fn_bytes, s2) \<Rightarrow>
               (case recv_exact 4 s2 of
                  Inl e \<Rightarrow> Inl e
                | Inr (h', s3) \<Rightarrow>
                    (case recv_exact (unpack_I h') s3 of
                       Inl e \<Rightarrow> Inl e
                     | Inr (args_bytes, s4) \<Rightarrow> Inr ((fn_bytes, args_bytes), s4)))))"

section \<open>What is received\<close>

lemma recv_cases:
  assumes "wf_stream s" "n > 0"
  obtains (none) "data s = []" "sock_recv n s = (case ending s of Eof \<Rightarrow> Inr ([], s) | Broken \<Rightarrow> Inl OSError)"
  | (some) chunk s' where "sock_recv n s = Inr (chunk, s')" "chunk \<noteq> []" "length chunk \<le> n" "data s = chunk @ data s'" "wf_stream s'" "ending s' = ending s"
proof (cases "pieces s")
  case Nil
  then show ?thesis by (intro none) (simp_all add: data_def sock_recv_def)
next
  case (Cons p ps)
  then have "p \<noteq> []" "[] \<notin> set ps" using assms(1) by (auto simp: wf_stream_def)
  then show ?thesis using assms(2)
    by (intro some [of "take n p" "s\<lparr>pieces := (if n < length p then drop n p # ps else ps)\<rparr>"])
      (auto simp: sock_recv_def Cons data_def wf_stream_def)
qed

definition gotten :: "nat \<Rightarrow> bytes \<Rightarrow> stream \<Rightarrow> (bytes \<times> stream) py \<Rightarrow> bool" where
  "gotten n buf s r \<longleftrightarrow>
     (if n \<le> length (data s)
      then \<exists>s'. r = Inr (buf @ take n (data s), s') \<and> data s' = drop n (data s) \<and> wf_stream s' \<and> ending s' = ending s
      else r = Inl (case ending s of Eof \<Rightarrow> EOFError | Broken \<Rightarrow> OSError))"

lemma recv_exact_loop_spec:
  "wf_stream s \<Longrightarrow> length buf \<le> n \<Longrightarrow> gotten (n - length buf) buf s (recv_exact_loop n buf s)"
proof (induction n buf s rule: recv_exact_loop.induct)
  case (1 n buf s)
  show ?case
  proof (cases "length buf < n")
    case False
    then show ?thesis using "1.prems" by (simp add: gotten_def recv_exact_loop.simps [of n buf s])
  next
    case True
    from "1.prems"(1) True have "n - length buf > 0" by simp
    from "1.prems"(1) this show ?thesis
    proof (cases rule: recv_cases)
      case none
      then show ?thesis using True by (simp add: gotten_def recv_exact_loop.simps [of n buf s] split: stream_end.splits)
    next
      case (some chunk s')
      have l: "length (buf @ chunk) \<le> n" using some(3) True by simp
      have t: "gotten (n - length (buf @ chunk)) (buf @ chunk) s' (recv_exact_loop n (buf @ chunk) s')"
        by (rule "1.IH" [OF True some(1) refl some(2,5) l])
      have e: "recv_exact_loop n buf s = recv_exact_loop n (buf @ chunk) s'"
        using True some(1,2) by (simp add: recv_exact_loop.simps [of n buf s])
      from t some(3,4,6) show ?thesis unfolding e gotten_def
        by (simp add: take_append drop_append diff_diff_add split: if_splits)
    qed
  qed
qed

lemma recv_exact_spec:
  "wf_stream s \<Longrightarrow> gotten n [] s (recv_exact n s)"
  using recv_exact_loop_spec [of s "[]" n] by (simp add: recv_exact_def)

lemma recv_exact_gets:
  assumes "wf_stream s" "data s = a @ b" "length a = n"
  obtains s' where "recv_exact n s = Inr (a, s')" "data s' = b" "wf_stream s'" "ending s' = ending s"
  using recv_exact_spec [OF assms(1), of n] assms(2,3) by (auto simp: gotten_def)

lemma recv_exact_short:
  "wf_stream s \<Longrightarrow> length (data s) < n \<Longrightarrow> recv_exact n s = Inl (case ending s of Eof \<Rightarrow> EOFError | Broken \<Rightarrow> OSError)"
  using recv_exact_spec [of s n] by (simp add: gotten_def)

text \<open>A frame is received whole, and what follows it stays in the stream.\<close>

lemma recv_message_gets:
  assumes "wf_stream s" "send_message payload = Inr m" "data s = m @ rest"
  obtains s' where "recv_message s = Inr (payload, s')" "data s' = rest" "wf_stream s'" "ending s' = ending s"
proof -
  obtain h where h: "pack_I (length payload) = Inr h" "m = h @ payload" using assms(2) by (auto simp: send_message_def split: sum.splits)
  note u = unpack_pack [OF h(1)]
  obtain s1 where s1: "recv_exact 4 s = Inr (h, s1)" "data s1 = payload @ rest" "wf_stream s1" "ending s1 = ending s"
    using recv_exact_gets [OF assms(1), of h "payload @ rest" 4] assms(3) h(2) u by auto
  obtain s2 where "recv_exact (length payload) s1 = Inr (payload, s2)" "data s2 = rest" "wf_stream s2" "ending s2 = ending s1"
    using recv_exact_gets [OF s1(3,2) refl] by metis
  then show ?thesis using s1 u by (intro that [of s2]) (simp_all add: recv_message_def)
qed

text \<open>A frame cut short is never gotten for a message.\<close>

lemma recv_message_short:
  assumes "wf_stream s" "send_message payload = Inr m" "m = data s @ missing" "missing \<noteq> []"
  shows "recv_message s = Inl (case ending s of Eof \<Rightarrow> EOFError | Broken \<Rightarrow> OSError)"
proof -
  obtain h where h: "pack_I (length payload) = Inr h" "m = h @ payload" using assms(2) by (auto simp: send_message_def split: sum.splits)
  note u = unpack_pack [OF h(1)]
  show ?thesis
  proof (cases "length (data s) < 4")
    case True
    from recv_exact_short [OF assms(1) this] show ?thesis by (simp add: recv_message_def)
  next
    case False
    have eq: "h @ payload = data s @ missing" using h(2) assms(3) by simp
    have "data s = h @ drop 4 (data s)" using arg_cong [OF eq, of "take 4"] False u by (simp add: append_eq_conv_conj)
    then obtain d where d: "data s = h @ d" by blast
    with eq have d: "data s = h @ d" "payload = d @ missing" by simp_all
    obtain s1 where s1: "recv_exact 4 s = Inr (h, s1)" "data s1 = d" "wf_stream s1" "ending s1 = ending s"
      using recv_exact_gets [OF assms(1) d(1), of 4] u by auto
    have "length (data s1) < length payload" using d(2) s1(2) assms(4) by simp
    from recv_exact_short [OF s1(3) this] show ?thesis using s1 u by (simp add: recv_message_def)
  qed
qed

lemma read_request_gets:
  assumes "wf_stream s" "send_message f = Inr a" "send_message g = Inr b" "data s = a @ b"
  obtains s' where "read_request s = Inr ((f, g), s')"
proof -
  obtain s1 where "recv_message s = Inr (f, s1)" and s1: "data s1 = b" "wf_stream s1" using recv_message_gets [OF assms(1,2,4)] by metis
  moreover obtain s2 where "recv_message s1 = Inr (g, s2)" using recv_message_gets [OF s1(2) assms(3), of "[]"] s1(1) by auto
  moreover have "read_request s = (case recv_message s of Inl e \<Rightarrow> Inl e | Inr (f, s1) \<Rightarrow>
      (case recv_message s1 of Inl e \<Rightarrow> Inl e | Inr (g, s2) \<Rightarrow> Inr ((f, g), s2)))"
    by (auto simp: read_request_def recv_message_def split: sum.splits)
  ultimately show ?thesis by (intro that [of s2]) simp
qed

section \<open>Properties\<close>

text \<open>
  C33: frames survive any segmentation. A payload of less than 4 GiB is received exactly as it
  was sent, however the stream cuts it into pieces, and what follows it is left for the next
  read; a frame of which any part is missing is an error and never a shorter message; a longer
  payload is refused before anything is sent.
\<close>
theorem frame_roundtrip:
  "(if length payload < 2 ^ 32
    then \<exists>m. send_message payload = Inr m \<and> length m = 4 + length payload \<and>
      (\<forall>s rest. wf_stream s \<longrightarrow> data s = m @ rest \<longrightarrow> (\<exists>s'. recv_message s = Inr (payload, s') \<and> data s' = rest)) \<and>
      (\<forall>s missing. wf_stream s \<longrightarrow> m = data s @ missing \<longrightarrow> missing \<noteq> [] \<longrightarrow>
        recv_message s = Inl (case ending s of Eof \<Rightarrow> EOFError | Broken \<Rightarrow> OSError))
    else send_message payload = Inl StructError)"
proof (cases "length payload < 2 ^ 32")
  case True
  then obtain h where h: "pack_I (length payload) = Inr h" by (simp add: pack_I_def)
  then have m: "send_message payload = Inr (h @ payload)" by (simp add: send_message_def)
  have "\<exists>s'. recv_message s = Inr (payload, s') \<and> data s' = rest" if "wf_stream s" "data s = (h @ payload) @ rest" for s rest
    using recv_message_gets [OF that(1) m that(2)] by metis
  then show ?thesis using True m unpack_pack [OF h] recv_message_short [OF _ m] by simp
next
  case False
  then show ?thesis by (simp add: send_message_def pack_I_def)
qed

theorem frame_roundtrip_witness:
  "\<exists>s'. recv_message \<lparr>pieces = [[0, 0], [0, 2, 7], [8, 9]], ending = Eof\<rparr> = Inr ([7, 8], s') \<and> data s' = [9]"
proof -
  have m: "send_message [7, 8] = Inr [0, 0, 0, 2, 7, 8]" by (simp add: send_message_def pack_I_def)
  show ?thesis using frame_roundtrip [of "[7, 8]"] m by (simp add: wf_stream_def data_def)
qed

end
