(* ===== verification/Worker_Logs.thy ===== *)
theory Worker_Logs
  imports Proto
begin

text \<open>
  \<open>LineBuffer\<close> and \<open>TaskLogStreamer\<close> of the worker's \<open>logstream.py\<close>: what a task
  writes to its two streams, in any pieces, becomes the \<open>TaskLogChunk\<close> messages of one
  \<open>StreamTaskLogs\<close> call. The producer (the task's thread) and the consumer (the stream's
  thread) share an unbounded queue; what the producer put there before the \<open>k\<close>-th look of
  the consumer is an argument, so every interleaving is covered. A Python \<open>str\<close> is a list
  of characters.
\<close>

section \<open>Lines\<close>

definition LF :: char where
  "LF = CHR 0x0A"

text \<open>\<open>s.split("\n", 1)\<close> of a text that has a newline.\<close>

definition split1 :: "string \<Rightarrow> string \<times> string" where
  "split1 s = (takeWhile (\<lambda>c. c \<noteq> LF) s, tl (dropWhile (\<lambda>c. c \<noteq> LF) s))"

record LineBuffer =
  lb_is_stderr :: bool
  lb_buf :: string

text \<open>The loop of \<open>write\<close>: the lines it emits and what stays in the buffer.\<close>

function write_loop :: "string \<Rightarrow> string list \<times> string" where
  "write_loop buf =
     (if LF \<in> set buf
      then case split1 buf of (line, rest) \<Rightarrow> (case write_loop rest of (ls, buf') \<Rightarrow> (line # ls, buf'))
      else ([], buf))"
  by pat_completeness auto

lemma split1_eq: "LF \<in> set s \<Longrightarrow> split1 s = (a, b) \<Longrightarrow> s = a @ LF # b \<and> LF \<notin> set a"
proof -
  assume "LF \<in> set s" "split1 s = (a, b)"
  then have a: "a = takeWhile (\<lambda>c. c \<noteq> LF) s" and b: "b = tl (dropWhile (\<lambda>c. c \<noteq> LF) s)" by (simp_all add: split1_def)
  have ne: "dropWhile (\<lambda>c. c \<noteq> LF) s \<noteq> []" using \<open>LF \<in> set s\<close> by (auto simp: dropWhile_eq_Nil_conv)
  then have "hd (dropWhile (\<lambda>c. c \<noteq> LF) s) = LF" using hd_dropWhile by blast
  then have "dropWhile (\<lambda>c. c \<noteq> LF) s = LF # b" using ne b by (metis list.collapse)
  then show ?thesis using takeWhile_dropWhile_id [of "\<lambda>c. c \<noteq> LF" s] a by (auto dest: set_takeWhileD)
qed

lemma split1_shorter: "LF \<in> set s \<Longrightarrow> (a, b) = split1 s \<Longrightarrow> length b < length s"
  by (drule split1_eq, erule sym) simp

termination write_loop
  by (relation "measure length") (simp_all add: split1_shorter)

declare write_loop.simps [simp del]

section \<open>The streamer\<close>

datatype q_item = Ln LogLine | CLOSE

record TaskLogStreamer =
  ts_job_id :: string
  ts_worker_id :: string
  ts_q :: "q_item list"
  ts_thread :: bool
  ts_out :: LineBuffer
  ts_err :: LineBuffer

definition new_streamer :: "string \<Rightarrow> string \<Rightarrow> TaskLogStreamer" where
  "new_streamer job_id worker_id = \<lparr>ts_job_id = job_id, ts_worker_id = worker_id, ts_q = [], ts_thread = False,
     ts_out = \<lparr>lb_is_stderr = False, lb_buf = []\<rparr>, ts_err = \<lparr>lb_is_stderr = True, lb_buf = []\<rparr>\<rparr>"

text \<open>
  \<open>ts_q\<close> is all the producer has put so far, in order, and \<open>now n\<close> the clock's reading in
  milliseconds for the \<open>n\<close>-th line.
\<close>

definition ts_enqueue :: "(nat \<Rightarrow> int64) \<Rightarrow> bool \<Rightarrow> string \<Rightarrow> TaskLogStreamer \<Rightarrow> TaskLogStreamer" where
  "ts_enqueue now is_stderr line s =
     s\<lparr>ts_q := ts_q s @ [Ln \<lparr>Line = line, IsStderr = is_stderr, TsUnixMs = now (length (ts_q s))\<rparr>], ts_thread := True\<rparr>"

definition ts_buffer :: "bool \<Rightarrow> TaskLogStreamer \<Rightarrow> LineBuffer" where
  "ts_buffer is_stderr s = (if is_stderr then ts_err s else ts_out s)"

definition ts_set_buf :: "bool \<Rightarrow> string \<Rightarrow> TaskLogStreamer \<Rightarrow> TaskLogStreamer" where
  "ts_set_buf is_stderr b s =
     (if is_stderr then s\<lparr>ts_err := (ts_err s)\<lparr>lb_buf := b\<rparr>\<rparr> else s\<lparr>ts_out := (ts_out s)\<lparr>lb_buf := b\<rparr>\<rparr>)"

text \<open>\<open>sink\<close>: the text goes to the buffer of its stream, whose complete lines are queued.\<close>

definition sink :: "(nat \<Rightarrow> int64) \<Rightarrow> string \<Rightarrow> bool \<Rightarrow> TaskLogStreamer \<Rightarrow> TaskLogStreamer" where
  "sink now text is_stderr s =
     (case write_loop (lb_buf (ts_buffer is_stderr s) @ text) of
        (ls, rest) \<Rightarrow> ts_set_buf is_stderr rest
          (fold (ts_enqueue now (lb_is_stderr (ts_buffer is_stderr s))) ls s))"

definition flush_partial :: "(nat \<Rightarrow> int64) \<Rightarrow> bool \<Rightarrow> TaskLogStreamer \<Rightarrow> TaskLogStreamer" where
  "flush_partial now is_stderr s =
     (let b = ts_buffer is_stderr s
      in if lb_buf b \<noteq> [] then ts_set_buf is_stderr [] (ts_enqueue now (lb_is_stderr b) (lb_buf b) s) else s)"

definition ts_close :: "(nat \<Rightarrow> int64) \<Rightarrow> TaskLogStreamer \<Rightarrow> TaskLogStreamer" where
  "ts_close now s =
     (let s1 = flush_partial now True (flush_partial now False s)
      in if \<not> ts_thread s1 then s1 else s1\<lparr>ts_q := ts_q s1 @ [CLOSE]\<rparr>)"

text \<open>A task's life as the streamer sees it: its writes, then \<open>close\<close>.\<close>

definition stream_task :: "(nat \<Rightarrow> int64) \<Rightarrow> string \<Rightarrow> string \<Rightarrow> (string \<times> bool) list \<Rightarrow> TaskLogStreamer" where
  "stream_task now job_id worker_id writes =
     ts_close now (fold (\<lambda>(text, is_stderr). sink now text is_stderr) writes (new_streamer job_id worker_id))"

section \<open>Separating the tasks\<close>

text \<open>
  \<open>StdIORouter\<close>, which replaces \<open>sys.stdout\<close> or \<open>sys.stderr\<close>: a write goes to the sink of the
  writing thread, if it has one, and to the stream that was replaced (\<open>None\<close> when that one is
  closed). Sinks are named by the streamer they belong to.
\<close>

record StdIORouter =
  rt_is_stderr :: bool
  rt_local :: "nat \<rightharpoonup> nat"
  rt_fallback :: "string option"

definition set_sink :: "nat \<Rightarrow> nat \<Rightarrow> StdIORouter \<Rightarrow> StdIORouter" where
  "set_sink thread k r = r\<lparr>rt_local := (rt_local r)(thread \<mapsto> k)\<rparr>"

definition clear_sink :: "nat \<Rightarrow> StdIORouter \<Rightarrow> StdIORouter" where
  "clear_sink thread r = r\<lparr>rt_local := (rt_local r)(thread := None)\<rparr>"

definition router_write ::
  "(nat \<Rightarrow> int64) \<Rightarrow> nat \<Rightarrow> string \<Rightarrow> StdIORouter \<Rightarrow> (nat \<Rightarrow> TaskLogStreamer) \<Rightarrow> StdIORouter \<times> (nat \<Rightarrow> TaskLogStreamer)" where
  "router_write now thread s r streams =
     (r\<lparr>rt_fallback := map_option (\<lambda>out. out @ s) (rt_fallback r)\<rparr>,
      case rt_local r thread of None \<Rightarrow> streams | Some k \<Rightarrow> streams(k := sink now s (rt_is_stderr r) (streams k)))"

text \<open>Writes of all threads to the two routers, in the order they happen.\<close>

fun routed ::
  "(nat \<Rightarrow> int64) \<Rightarrow> (nat \<times> string \<times> bool) list \<Rightarrow> StdIORouter \<times> StdIORouter \<Rightarrow> (nat \<Rightarrow> TaskLogStreamer) \<Rightarrow> nat \<Rightarrow> TaskLogStreamer" where
  "routed now [] rs streams = streams"
| "routed now ((thread, s, is_stderr) # ws) (out, err) streams =
     (if is_stderr then (case router_write now thread s err streams of (err', streams') \<Rightarrow> routed now ws (out, err') streams')
      else (case router_write now thread s out streams of (out', streams') \<Rightarrow> routed now ws (out', err) streams'))"

text \<open>
  A streamer gets the writes of its own thread and no others, however the threads interleave.
\<close>

lemma routed_apart:
  assumes "rt_is_stderr err" "\<not> rt_is_stderr out" "rt_local out = loc" "rt_local err = loc"
    and "loc thread = Some k" "\<forall>t. t \<noteq> thread \<longrightarrow> loc t \<noteq> Some k"
  shows "routed now ws (out, err) streams k =
    fold (\<lambda>(text, is_stderr). sink now text is_stderr) (map snd (filter (\<lambda>(t, w). t = thread) ws)) (streams k)"
  using assms
proof (induction ws arbitrary: out err streams)
  case (Cons w ws)
  obtain t s e where w: "w = (t, s, e)" by (rule prod_cases3)
  let ?r = "\<lambda>r. r\<lparr>rt_fallback := map_option (\<lambda>out. out @ s) (rt_fallback r)\<rparr>"
  let ?ss = "case loc t of None \<Rightarrow> streams | Some j \<Rightarrow> streams(j := sink now s e (streams j))"
  let ?own = "map snd (filter (\<lambda>(t, w). t = thread) ws)"
  have "routed now ws (out, ?r err) ?ss k = fold (\<lambda>(text, is_stderr). sink now text is_stderr) ?own (?ss k)"
    by (rule Cons.IH) (use Cons.prems in simp_all)
  moreover have "routed now ws (?r out, err) ?ss k = fold (\<lambda>(text, is_stderr). sink now text is_stderr) ?own (?ss k)"
    by (rule Cons.IH) (use Cons.prems in simp_all)
  ultimately have all: "routed now (w # ws) (out, err) streams k = fold (\<lambda>(text, is_stderr). sink now text is_stderr) ?own (?ss k)"
    using Cons.prems(1-4) by (cases e; cases "loc t") (simp_all add: w router_write_def)
  have "?ss k = (if t = thread then sink now s e (streams k) else streams k)"
    using Cons.prems(5,6) by (cases "loc t") auto
  with all show ?case by (simp add: w)
qed simp

section \<open>The chunks\<close>

definition MAX_BATCH :: nat where
  "MAX_BATCH = 256"

text \<open>
  The inner loop of \<open>_chunks\<close>. \<open>put k\<close> is what the producer put before the \<open>k\<close>-th look at
  the queue; \<open>room\<close> is how many lines the batch may still take.
\<close>

fun batch :: "(nat \<Rightarrow> q_item list) \<Rightarrow> nat \<Rightarrow> nat \<Rightarrow> q_item list \<Rightarrow> LogLine list \<Rightarrow> LogLine list \<times> bool \<times> nat \<times> q_item list" where
  "batch put 0 k q lines = (lines, False, k, q)"
| "batch put (Suc room) k q lines =
     (case q @ put k of
        [] \<Rightarrow> (lines, False, Suc k, [])
      | CLOSE # q' \<Rightarrow> (lines, True, Suc k, q')
      | Ln l # q' \<Rightarrow> batch put room (Suc k) q' (lines @ [l]))"

text \<open>
  The generator, with the blocking \<open>get\<close> as looks that find the queue empty. \<open>None\<close>: still
  waiting when the fuel is used up.
\<close>

fun chunks :: "(nat \<Rightarrow> q_item list) \<Rightarrow> string \<Rightarrow> string \<Rightarrow> nat \<Rightarrow> nat \<Rightarrow> q_item list \<Rightarrow> TaskLogChunk list option" where
  "chunks put job_id worker_id 0 k q = None"
| "chunks put job_id worker_id (Suc fuel) k q =
     (case q @ put k of
        [] \<Rightarrow> chunks put job_id worker_id fuel (Suc k) []
      | CLOSE # q' \<Rightarrow> Some []
      | Ln l # q' \<Rightarrow>
          (case batch put (MAX_BATCH - 1) (Suc k) q' [l] of
             (lines, closing, k', q'') \<Rightarrow>
               (let c = \<lparr>c_JobId = job_id, c_WorkerId = worker_id, c_Lines = lines\<rparr>
                in if closing then Some [c]
                   else map_option (\<lambda>cs. c # cs) (chunks put job_id worker_id fuel k' q''))))"

section \<open>What the consumer delivers\<close>

text \<open>Everything that is put from the \<open>k\<close>-th look on, up to look \<open>n\<close>.\<close>

definition coming :: "(nat \<Rightarrow> q_item list) \<Rightarrow> nat \<Rightarrow> nat \<Rightarrow> q_item list" where
  "coming put n k = concat (map put [k..<n])"

lemma coming_Suc: "k < n \<Longrightarrow> coming put n k = put k @ coming put n (Suc k)"
  by (simp add: coming_def upt_conv_Cons)

lemma coming_end: "n \<le> k \<Longrightarrow> coming put n k = []"
  by (simp add: coming_def)

lemma coming_more:
  assumes "\<forall>j \<ge> n. put j = []"
  shows "q @ coming put n k = (q @ put k) @ coming put n (Suc k)"
  using assms by (cases "k < n") (simp_all add: coming_Suc coming_end)

lemma batch_takes:
  assumes "\<forall>j \<ge> n. put j = []" "q @ coming put n k = map Ln ls @ [CLOSE]" "batch put room k q lines = (lines', closing, k', q')"
  shows "\<exists>ls1 ls2. ls = ls1 @ ls2 \<and> lines' = lines @ ls1 \<and> length ls1 \<le> room \<and> k \<le> k' \<and>
    (if closing then ls2 = [] else q' @ coming put n k' = map Ln ls2 @ [CLOSE])"
  using assms(2,3)
proof (induction room arbitrary: k q lines ls)
  case 0
  then show ?case by (intro exI [of _ "[]"] exI [of _ ls]) simp
next
  case (Suc room)
  have eq: "(q @ put k) @ coming put n (Suc k) = map Ln ls @ [CLOSE]"
    by (rule trans [OF coming_more [OF assms(1), symmetric] Suc.prems(1)])
  show ?case
  proof (cases "q @ put k")
    case Nil
    from Suc.prems(2) have "lines' = lines" "\<not> closing" "k' = Suc k" "q' = []" unfolding batch.simps Nil by simp_all
    with eq Nil show ?thesis by (intro exI [of _ "[]"] exI [of _ ls]) simp
  next
    case (Cons x q1)
    show ?thesis
    proof (cases x)
      case CLOSE
      from Suc.prems(2) have "lines' = lines" "closing" "k' = Suc k" unfolding batch.simps Cons CLOSE by simp_all
      moreover from eq have "ls = []" unfolding Cons CLOSE by (cases ls) simp_all
      ultimately show ?thesis by (intro exI [of _ "[]"]) simp
    next
      case (Ln l)
      from eq obtain ls' where ls: "ls = l # ls'" "q1 @ coming put n (Suc k) = map Ln ls' @ [CLOSE]"
        unfolding Cons Ln by (cases ls) simp_all
      from Suc.prems(2) have "batch put room (Suc k) q1 (lines @ [l]) = (lines', closing, k', q')" unfolding batch.simps Cons Ln by simp
      from Suc.IH [OF ls(2) this] obtain ls1 ls2 where
        "ls' = ls1 @ ls2" "lines' = (lines @ [l]) @ ls1" "length ls1 \<le> room" "Suc k \<le> k'"
        "if closing then ls2 = [] else q' @ coming put n k' = map Ln ls2 @ [CLOSE]" by blast
      with ls(1) show ?thesis by (intro exI [of _ "l # ls1"] exI [of _ ls2]) simp
    qed
  qed
qed

lemma chunks_deliver:
  assumes "\<forall>j \<ge> n. put j = []" "q @ coming put n k = map Ln ls @ [CLOSE]" "fuel > length ls + (n - k)"
  shows "\<exists>cs. chunks put job_id worker_id fuel k q = Some cs \<and> concat (map c_Lines cs) = ls \<and>
    (\<forall>c \<in> set cs. c_JobId c = job_id \<and> c_WorkerId c = worker_id \<and> c_Lines c \<noteq> [] \<and> length (c_Lines c) \<le> MAX_BATCH)"
  using assms(2,3)
proof (induction fuel arbitrary: k q ls)
  case 0
  then show ?case by simp
next
  case (Suc fuel)
  have eq: "(q @ put k) @ coming put n (Suc k) = map Ln ls @ [CLOSE]"
    by (rule trans [OF coming_more [OF assms(1), symmetric] Suc.prems(1)])
  show ?case
  proof (cases "q @ put k")
    case Nil
    then have "k < n" using eq coming_end [of n "Suc k" put] by (cases "k < n") simp_all
    moreover from eq Nil have "[] @ coming put n (Suc k) = map Ln ls @ [CLOSE]" by simp
    ultimately have "\<exists>cs. chunks put job_id worker_id fuel (Suc k) [] = Some cs \<and> concat (map c_Lines cs) = ls \<and>
      (\<forall>c \<in> set cs. c_JobId c = job_id \<and> c_WorkerId c = worker_id \<and> c_Lines c \<noteq> [] \<and> length (c_Lines c) \<le> MAX_BATCH)"
      using Suc.IH [of "[]" "Suc k" ls] Suc.prems(2) by simp
    then show ?thesis unfolding chunks.simps Nil by simp
  next
    case (Cons x q1)
    show ?thesis
    proof (cases x)
      case CLOSE
      from eq have "ls = []" unfolding Cons CLOSE by (cases ls) simp_all
      then show ?thesis unfolding chunks.simps Cons CLOSE by simp
    next
      case (Ln l)
      from eq obtain ls' where ls: "ls = l # ls'" "q1 @ coming put n (Suc k) = map Ln ls' @ [CLOSE]"
        unfolding Cons Ln by (cases ls) simp_all
      obtain lines closing k' q' where b: "batch put (MAX_BATCH - 1) (Suc k) q1 [l] = (lines, closing, k', q')" by (rule prod_cases4)
      from batch_takes [OF assms(1) ls(2) b] obtain ls1 ls2 where
        t: "ls' = ls1 @ ls2" "lines = [l] @ ls1" "length ls1 \<le> MAX_BATCH - 1" "Suc k \<le> k'"
          "if closing then ls2 = [] else q' @ coming put n k' = map Ln ls2 @ [CLOSE]" by blast
      let ?c = "\<lparr>c_JobId = job_id, c_WorkerId = worker_id, c_Lines = lines\<rparr>"
      have c: "lines \<noteq> [] \<and> length lines \<le> MAX_BATCH" using t(2,3) by (simp add: MAX_BATCH_def)
      have step: "chunks put job_id worker_id (Suc fuel) k q =
          (if closing then Some [?c] else map_option (\<lambda>cs. ?c # cs) (chunks put job_id worker_id fuel k' q'))"
        unfolding chunks.simps Cons Ln list.case q_item.case b prod.case Let_def ..
      show ?thesis
      proof (cases closing)
        case True
        with t ls(1) c show ?thesis unfolding step by simp
      next
        case False
        with t(5) have "q' @ coming put n k' = map Ln ls2 @ [CLOSE]" by simp
        moreover have "fuel > length ls2 + (n - k')" using Suc.prems(2) ls(1) t(1,4) by simp
        ultimately obtain cs where cs: "chunks put job_id worker_id fuel k' q' = Some cs" "concat (map c_Lines cs) = ls2"
          "\<forall>c \<in> set cs. c_JobId c = job_id \<and> c_WorkerId c = worker_id \<and> c_Lines c \<noteq> [] \<and> length (c_Lines c) \<le> MAX_BATCH"
          using Suc.IH by blast
        with t(1,2) ls(1) c False show ?thesis unfolding step by simp
      qed
    qed
  qed
qed

section \<open>What the producer queues\<close>

definition text_of :: "bool \<Rightarrow> (string \<times> bool) list \<Rightarrow> string" where
  "text_of e writes = concat (map (\<lambda>(text, is_stderr). if is_stderr = e then text else []) writes)"

definition joined :: "bool \<Rightarrow> LogLine list \<Rightarrow> string" where
  "joined e ls = concat (map (\<lambda>l. Line l @ [LF]) (filter (\<lambda>l. IsStderr l = e) ls))"

text \<open>A text with its last line ended.\<close>

definition ended :: "string \<Rightarrow> string" where
  "ended text = (if text = [] \<or> last text = LF then text else text @ [LF])"

lemma joined_append [simp]: "joined e (a @ b) = joined e a @ joined e b"
  by (simp add: joined_def)

lemma joined_Nil [simp]: "joined e [] = []"
  by (simp add: joined_def)

lemma joined_all:
  "\<forall>l \<in> set new. IsStderr l = x \<Longrightarrow> joined e new = (if x = e then concat (map (\<lambda>l. l @ [LF]) (map Line new)) else [])"
  by (induction new) (auto simp: joined_def)

lemma write_loop_spec:
  "write_loop b = (ls, rest) \<Longrightarrow> concat (map (\<lambda>l. l @ [LF]) ls) @ rest = b \<and> LF \<notin> set rest \<and> (\<forall>l \<in> set ls. LF \<notin> set l)"
proof (induction b arbitrary: ls rest rule: write_loop.induct)
  case (1 b)
  show ?case
  proof (cases "LF \<in> set b")
    case False
    with "1.prems" have "ls = []" "rest = b" by (simp_all add: write_loop.simps [of b])
    with False show ?thesis by simp
  next
    case True
    obtain line b1 where sp: "split1 b = (line, b1)" by (rule prod.exhaust)
    obtain ls1 rest1 where w: "write_loop b1 = (ls1, rest1)" by (rule prod.exhaust)
    from "1.prems" True sp w have eq: "ls = line # ls1" "rest = rest1" by (simp_all add: write_loop.simps [of b])
    note b = split1_eq [OF True sp]
    from "1.IH" [OF True sp [symmetric] w] b show ?thesis unfolding eq by simp
  qed
qed

lemma fold_enqueue:
  "\<exists>new. map Line new = ls \<and> (\<forall>l \<in> set new. IsStderr l = e) \<and>
     fold (ts_enqueue now e) ls s = s\<lparr>ts_q := ts_q s @ map Ln new, ts_thread := (ts_thread s \<or> new \<noteq> [])\<rparr>"
proof (induction ls arbitrary: s)
  case (Cons l ls)
  from Cons.IH [of "ts_enqueue now e l s"] obtain new where "map Line new = ls" "\<forall>l \<in> set new. IsStderr l = e"
    "fold (ts_enqueue now e) (l # ls) s = (ts_enqueue now e l s)\<lparr>ts_q := ts_q (ts_enqueue now e l s) @ map Ln new,
       ts_thread := (ts_thread (ts_enqueue now e l s) \<or> new \<noteq> [])\<rparr>" by auto
  then show ?case
    by (intro exI [of _ "\<lparr>Line = l, IsStderr = e, TsUnixMs = now (length (ts_q s))\<rparr> # new"])
      (simp add: ts_enqueue_def [of now e l s])
qed simp

definition streamed :: "TaskLogStreamer \<Rightarrow> (bool \<Rightarrow> string) \<Rightarrow> LogLine list \<Rightarrow> bool" where
  "streamed s tx ls \<longleftrightarrow> ts_q s = map Ln ls \<and> ts_thread s = (ls \<noteq> []) \<and> (\<forall>l \<in> set ls. LF \<notin> set (Line l)) \<and>
     (\<forall>e. lb_is_stderr (ts_buffer e s) = e \<and> LF \<notin> set (lb_buf (ts_buffer e s)) \<and> joined e ls @ lb_buf (ts_buffer e s) = tx e)"

lemma streamed_put:
  assumes "streamed s tx ls" "concat (map (\<lambda>l. l @ [LF]) new) @ rest = lb_buf (ts_buffer x s) @ piece" "LF \<notin> set rest" "\<forall>l \<in> set new. LF \<notin> set l"
  shows "\<exists>ls'. streamed (ts_set_buf x rest (fold (ts_enqueue now x) new s)) (tx(x := tx x @ piece)) ls'"
proof -
  let ?s = "ts_set_buf x rest (fold (ts_enqueue now x) new s)"
  obtain add where add: "map Line add = new" "\<forall>l \<in> set add. IsStderr l = x"
    "fold (ts_enqueue now x) new s = s\<lparr>ts_q := ts_q s @ map Ln add, ts_thread := (ts_thread s \<or> add \<noteq> [])\<rparr>"
    using fold_enqueue [of new x now s] by blast
  have q: "ts_q ?s = map Ln (ls @ add)" "ts_thread ?s = (ls @ add \<noteq> [])"
    using assms(1) by (auto simp: add(3) ts_set_buf_def streamed_def)
  have b: "lb_buf (ts_buffer e ?s) = (if e = x then rest else lb_buf (ts_buffer e s))" "lb_is_stderr (ts_buffer e ?s) = lb_is_stderr (ts_buffer e s)" for e
    by (simp_all add: add(3) ts_set_buf_def ts_buffer_def)
  have "joined e (ls @ add) @ lb_buf (ts_buffer e ?s) = (tx(x := tx x @ piece)) e" for e
  proof (cases "e = x")
    case False
    then show ?thesis using assms(1) by (auto simp: b joined_all [OF add(2)] streamed_def)
  next
    case True
    have "joined x ls @ lb_buf (ts_buffer x s) = tx x" using assms(1) by (simp add: streamed_def)
    then have "tx x @ piece = joined x ls @ concat (map (\<lambda>l. l @ [LF]) new) @ rest" using assms(2) by (metis append_assoc)
    then show ?thesis unfolding True by (simp add: b joined_all [OF add(2)] add(1))
  qed
  moreover have "\<forall>l \<in> set (ls @ add). LF \<notin> set (Line l)"
    using assms(1,4) unfolding add(1) [symmetric] streamed_def by auto
  ultimately have "streamed ?s (tx(x := tx x @ piece)) (ls @ add)"
    using assms(1,3) q unfolding streamed_def by (simp add: b)
  then show ?thesis ..
qed

lemma sink_streamed:
  assumes "streamed s tx ls"
  shows "\<exists>ls'. streamed (sink now piece x s) (tx(x := tx x @ piece)) ls'"
proof -
  obtain new rest where w: "write_loop (lb_buf (ts_buffer x s) @ piece) = (new, rest)" by (rule prod.exhaust)
  have x: "lb_is_stderr (ts_buffer x s) = x" using assms by (simp add: streamed_def)
  have "sink now piece x s = ts_set_buf x rest (fold (ts_enqueue now x) new s)" by (simp add: sink_def w x)
  with streamed_put [OF assms, of new rest x piece now] write_loop_spec [OF w] show ?thesis by simp
qed

lemma sinks_streamed:
  "streamed s tx ls \<Longrightarrow> \<exists>ls'. streamed (fold (\<lambda>(text, is_stderr). sink now text is_stderr) writes s) (\<lambda>e. tx e @ text_of e writes) ls'"
proof (induction writes arbitrary: s tx ls)
  case Nil
  then show ?case by (auto simp: text_of_def)
next
  case (Cons w writes)
  obtain piece x where w: "w = (piece, x)" by (rule prod.exhaust)
  from sink_streamed [OF Cons.prems, of now piece x] obtain ls1 where "streamed (sink now piece x s) (tx(x := tx x @ piece)) ls1" by blast
  from Cons.IH [OF this] obtain ls' where
    "streamed (fold (\<lambda>(text, is_stderr). sink now text is_stderr) writes (sink now piece x s)) (\<lambda>e. (tx(x := tx x @ piece)) e @ text_of e writes) ls'" by blast
  moreover have "(\<lambda>e. (tx(x := tx x @ piece)) e @ text_of e writes) = (\<lambda>e. tx e @ text_of e (w # writes))"
    by (auto simp: w text_of_def fun_eq_iff)
  ultimately show ?case by (auto simp: w)
qed

text \<open>After a flush the stream's last line is ended and its buffer empty.\<close>

lemma flush_streamed:
  assumes "streamed s tx ls"
  shows "\<exists>ls'. streamed (flush_partial now x s) (tx(x := ended (tx x))) ls' \<and> lb_buf (ts_buffer x (flush_partial now x s)) = [] \<and>
    (\<forall>e. e \<noteq> x \<longrightarrow> lb_buf (ts_buffer e (flush_partial now x s)) = lb_buf (ts_buffer e s))"
proof -
  let ?b = "lb_buf (ts_buffer x s)"
  have x: "lb_is_stderr (ts_buffer x s) = x" "joined x ls @ ?b = tx x" "LF \<notin> set ?b" using assms by (simp_all add: streamed_def)
  show ?thesis
  proof (cases "?b = []")
    case True
    have "tx x = [] \<or> last (tx x) = LF"
    proof (cases "filter (\<lambda>l. IsStderr l = x) ls" rule: rev_cases)
      case Nil
      then show ?thesis using x(2) True by (simp add: joined_def)
    next
      case (snoc ys y)
      then have "last (joined x ls) = LF" by (simp add: joined_def)
      then show ?thesis using x(2) True by simp
    qed
    then have "tx(x := ended (tx x)) = tx" by (simp add: ended_def fun_eq_iff)
    moreover have "flush_partial now x s = s" using True by (simp add: flush_partial_def)
    ultimately show ?thesis using assms True by metis
  next
    case False
    then have "last (tx x) \<noteq> LF" "tx x \<noteq> []" using x(3) False unfolding x(2) [symmetric] by (auto dest: last_in_set)
    then have e: "ended (tx x) = tx x @ [LF]" by (simp add: ended_def)
    have f: "flush_partial now x s = ts_set_buf x [] (fold (ts_enqueue now x) [?b] s)" using False x(1) by (simp add: flush_partial_def Let_def)
    have "\<exists>ls'. streamed (flush_partial now x s) (tx(x := ended (tx x))) ls'"
      unfolding f e by (rule streamed_put [OF assms]) (use x(3) in simp_all)
    moreover have "lb_buf (ts_buffer e (flush_partial now x s)) = (if e = x then [] else lb_buf (ts_buffer e s))" for e
      by (simp add: f ts_set_buf_def ts_buffer_def ts_enqueue_def)
    ultimately show ?thesis by auto
  qed
qed

lemma stream_task_queue:
  "\<exists>ls. ts_q (stream_task now job_id worker_id writes) = map Ln ls @ (if ls = [] then [] else [CLOSE]) \<and>
     ts_thread (stream_task now job_id worker_id writes) = (ls \<noteq> []) \<and>
     (\<forall>e. joined e ls = ended (text_of e writes)) \<and> (\<forall>l \<in> set ls. LF \<notin> set (Line l))"
proof -
  have "streamed (new_streamer job_id worker_id) (\<lambda>e. []) []"
    by (simp add: streamed_def new_streamer_def ts_buffer_def)
  from sinks_streamed [OF this, of now writes] obtain ls0 where
    s0: "streamed (fold (\<lambda>(text, is_stderr). sink now text is_stderr) writes (new_streamer job_id worker_id)) (\<lambda>e. text_of e writes) ls0" by auto
  define s where "s = fold (\<lambda>(text, is_stderr). sink now text is_stderr) writes (new_streamer job_id worker_id)"
  note s0 = s0 [folded s_def]
  from flush_streamed [OF s0, of now False] obtain ls1 where
    s1: "streamed (flush_partial now False s) ((\<lambda>e. text_of e writes)(False := ended (text_of False writes))) ls1"
      "lb_buf (ts_buffer False (flush_partial now False s)) = []" by auto
  let ?s2 = "flush_partial now True (flush_partial now False s)"
  from flush_streamed [OF s1(1), of now True] obtain ls2 where
    s2: "streamed ?s2 ((\<lambda>e. text_of e writes)(False := ended (text_of False writes), True := ended (text_of True writes))) ls2"
      "lb_buf (ts_buffer True ?s2) = []" "lb_buf (ts_buffer False ?s2) = []" using s1(2) by auto
  have j: "joined e ls2 = ended (text_of e writes)" for e
    using s2 unfolding streamed_def by (cases e) (auto dest: spec [of _ True] spec [of _ False])
  have "stream_task now job_id worker_id writes = (if ls2 = [] then ?s2 else ?s2\<lparr>ts_q := ts_q ?s2 @ [CLOSE]\<rparr>)"
    using s2(1) by (simp add: stream_task_def s_def [symmetric] ts_close_def Let_def streamed_def)
  then show ?thesis using s2(1) j by (intro exI [of _ ls2]) (simp add: streamed_def)
qed

section \<open>Properties\<close>

text \<open>
  C18: a task's output arrives whole. However the task's writes to its two streams are cut
  into pieces and however the sending thread interleaves with it, the chunks of the
  \<open>StreamTaskLogs\<close> call, each of 1 to 256 lines of that job, together hold exactly the lines
  written to each stream, in order, an unfinished last line included; and no call is made
  only if nothing was written.
\<close>
theorem log_lines_delivered:
  assumes "s = stream_task now job_id worker_id writes" "\<forall>j \<ge> n. put j = []" "concat (map put [0..<n]) = ts_q s"
    and "fuel > length (ts_q s) + n"
  shows "if ts_thread s
    then \<exists>cs. chunks put job_id worker_id fuel 0 [] = Some cs \<and>
      (\<forall>e. joined e (concat (map c_Lines cs)) = ended (text_of e writes)) \<and>
      (\<forall>c \<in> set cs. c_JobId c = job_id \<and> c_Lines c \<noteq> [] \<and> length (c_Lines c) \<le> 256 \<and> (\<forall>l \<in> set (c_Lines c). LF \<notin> set (Line l)))
    else \<forall>e. text_of e writes = []"
proof -
  obtain ls where ls: "ts_q s = map Ln ls @ (if ls = [] then [] else [CLOSE])" "ts_thread s = (ls \<noteq> [])"
    "\<forall>e. joined e ls = ended (text_of e writes)" "\<forall>l \<in> set ls. LF \<notin> set (Line l)"
    using stream_task_queue [of now job_id worker_id writes] unfolding assms(1) by blast
  show ?thesis
  proof (cases "ls = []")
    case True
    then show ?thesis using ls(2,3) by (auto simp: ended_def split: if_splits)
  next
    case False
    then have q: "[] @ coming put n 0 = map Ln ls @ [CLOSE]" using assms(3) ls(1) by (simp add: coming_def)
    have "fuel > length ls + (n - 0)" using assms(4) ls(1) False by simp
    from chunks_deliver [OF assms(2) q this] obtain cs where cs: "chunks put job_id worker_id fuel 0 [] = Some cs"
      "concat (map c_Lines cs) = ls"
      "\<forall>c \<in> set cs. c_JobId c = job_id \<and> c_WorkerId c = worker_id \<and> c_Lines c \<noteq> [] \<and> length (c_Lines c) \<le> MAX_BATCH" by blast
    have "LF \<notin> set (Line l)" if "c \<in> set cs" "l \<in> set (c_Lines c)" for c l
    proof -
      have "l \<in> set ls" using that unfolding cs(2) [symmetric] by auto
      with ls(4) show ?thesis by blast
    qed
    with cs ls(2,3) False show ?thesis by (simp add: MAX_BATCH_def)
  qed
qed

theorem log_lines_delivered_witness:
  "\<exists>cs. chunks (\<lambda>k. if k = 1 then ts_q (stream_task (\<lambda>_. 3) ''j'' ''w'' [(''a'', False), (''b'', False)]) else []) ''j'' ''w'' 9 0 [] = Some cs \<and>
     joined False (concat (map c_Lines cs)) = ''ab'' @ [LF]"
proof -
  define s where "s = stream_task (\<lambda>_. 3) ''j'' ''w'' [(''a'', False), (''b'', False)]"
  have w: "write_loop ''a'' = ([], ''a'')" "write_loop ''ab'' = ([], ''ab'')" by (simp_all add: write_loop.simps LF_def)
  have s: "ts_q s = [Ln \<lparr>Line = ''ab'', IsStderr = False, TsUnixMs = 3\<rparr>, CLOSE]" "ts_thread s"
    unfolding s_def by (simp_all add: stream_task_def sink_def new_streamer_def ts_buffer_def ts_set_buf_def w ts_close_def flush_partial_def ts_enqueue_def)
  have p: "\<forall>j \<ge> 2. (if j = (1 :: nat) then ts_q s else []) = []" "concat (map (\<lambda>k. if k = 1 then ts_q s else []) [0..<2]) = ts_q s"
    by (simp_all add: upt_rec)
  have f: "9 > length (ts_q s) + 2" by (simp add: s)
  have t: "ended (text_of False [(''a'', False), (''b'', False)]) = ''ab'' @ [LF]" by (simp add: text_of_def ended_def LF_def)
  from log_lines_delivered [OF s_def p f] s(2) obtain cs where
    "chunks (\<lambda>k. if k = 1 then ts_q s else []) ''j'' ''w'' 9 0 [] = Some cs"
    "\<forall>e. joined e (concat (map c_Lines cs)) = ended (text_of e [(''a'', False), (''b'', False)])" by (auto split: if_splits)
  with t show ?thesis unfolding s_def by (intro exI [of _ cs]) simp
qed

end
