(* ===== verification/Worker_Exec.thy ===== *)
theory Worker_Exec
  imports Proto Worker_Frames Worker_Logs
begin

text \<open>
  The worker's three ways of running a function: \<open>InprocExecutor\<close> and
  \<open>NaiveSubprocessExecutor\<close> of \<open>executor.py\<close>, the child of the latter
  (\<open>subprocess_runner.py\<close>), and the exchange with a warm child of \<open>warm_pool.py\<close>, both sides.
  cloudpickle and the user's function are parameters (\<open>python\<close>); the clock is one too, its
  readings numbered in the order the code takes them. Durations are in nanoseconds.
\<close>

section \<open>What the code runs\<close>

record ExecutionResult =
  er_success :: bool
  er_result_bytes :: bytes
  er_error :: string
  er_cold_start_ms :: int
  er_execution_ms :: int
  er_stdout :: string
  er_stderr :: string

text \<open>
  The dict a child sends back. A key that may be missing is an option.
\<close>

record envelope =
  env_good :: bool
  env_result_bytes :: "bytes option"
  env_error :: "string option"
  env_execution_ms :: int
  env_stdout :: "string option"
  env_stderr :: "string option"

text \<open>
  A call of the user's function returns, raises an \<open>Exception\<close> (with its traceback), leaves
  by \<open>sys.exit\<close>, which no \<open>except Exception\<close> catches, or never returns.
\<close>

datatype 'v call_end = Returns 'v | Raises string | Exits int | Hangs

text \<open>The same for a part of the worker: it ends, is left by \<open>SystemExit\<close> with a status, or never ends.\<close>

datatype 'a fate = Ends 'a | Escapes int | Forever

record ('f, 'a, 'v) python =
  loads_fn :: "bytes \<Rightarrow> string + 'f"
  loads_args :: "bytes \<Rightarrow> string + 'a"
  call :: "'f \<Rightarrow> 'a \<Rightarrow> 'v call_end"
  prints :: "'f \<Rightarrow> 'a \<Rightarrow> (string \<times> bool) list"
  dumps :: "'v \<Rightarrow> string + bytes"
  dumps_env :: "envelope \<Rightarrow> bytes"
  loads_env :: "bytes \<Rightarrow> envelope py"
  dumps_req :: "bytes \<times> bytes \<Rightarrow> bytes"
  loads_req :: "bytes \<Rightarrow> (bytes \<times> bytes) option"
  show_exc :: "py_error \<Rightarrow> string"

definition ms :: "int \<Rightarrow> int \<Rightarrow> int" where
  "ms a b = (b - a) div 1000000"

definition failed :: "string \<Rightarrow> int \<Rightarrow> ExecutionResult" where
  "failed err cold = \<lparr>er_success = False, er_result_bytes = [], er_error = err, er_cold_start_ms = cold, er_execution_ms = 0,
     er_stdout = [], er_stderr = []\<rparr>"

section \<open>In the worker's own interpreter\<close>

definition inproc_execute :: "('f, 'a, 'v) python \<Rightarrow> (nat \<Rightarrow> int) \<Rightarrow> bytes \<Rightarrow> bytes \<Rightarrow> ExecutionResult fate" where
  "inproc_execute P clock function_bytes args_bytes =
     (let failure = \<lambda>k tb ws. Ends \<lparr>er_success = False, er_result_bytes = [], er_error = tb,
            er_cold_start_ms = ms (clock 0) (clock k), er_execution_ms = 0, er_stdout = text_of False ws, er_stderr = text_of True ws\<rparr>
      in case loads_fn P function_bytes of
           Inl tb \<Rightarrow> failure 1 tb []
         | Inr fn \<Rightarrow>
             (case loads_args P args_bytes of
                Inl tb \<Rightarrow> failure 1 tb []
              | Inr args \<Rightarrow>
                  (case call P fn args of
                     Hangs \<Rightarrow> Forever
                   | Exits c \<Rightarrow> Escapes c
                   | Raises tb \<Rightarrow> failure 2 tb (prints P fn args)
                   | Returns v \<Rightarrow>
                       (case dumps P v of
                          Inl tb \<Rightarrow> failure 3 tb (prints P fn args)
                        | Inr b \<Rightarrow> Ends \<lparr>er_success = True, er_result_bytes = b, er_error = [],
                            er_cold_start_ms = ms (clock 0) (clock 1), er_execution_ms = ms (clock 1) (clock 2),
                            er_stdout = text_of False (prints P fn args), er_stderr = text_of True (prints P fn args)\<rparr>))))"

text \<open>With a sink, the output goes to it as it happens, and the result carries none.\<close>

definition inproc_streaming :: "('f, 'a, 'v) python \<Rightarrow> (nat \<Rightarrow> int) \<Rightarrow> bytes \<Rightarrow> bytes \<Rightarrow> ExecutionResult fate \<times> (string \<times> bool) list" where
  "inproc_streaming P clock function_bytes args_bytes =
     (case loads_fn P function_bytes of
        Inl tb \<Rightarrow> (Ends (failed tb (ms (clock 0) (clock 1))), [])
      | Inr fn \<Rightarrow>
          (case loads_args P args_bytes of
             Inl tb \<Rightarrow> (Ends (failed tb (ms (clock 0) (clock 1))), [])
           | Inr args \<Rightarrow>
               ((case call P fn args of
                   Hangs \<Rightarrow> Forever
                 | Exits c \<Rightarrow> Escapes c
                 | Raises tb \<Rightarrow> Ends (failed tb (ms (clock 0) (clock 2)))
                 | Returns v \<Rightarrow>
                     (case dumps P v of
                        Inl tb \<Rightarrow> Ends (failed tb (ms (clock 0) (clock 3)))
                      | Inr b \<Rightarrow> Ends \<lparr>er_success = True, er_result_bytes = b, er_error = [],
                          er_cold_start_ms = ms (clock 0) (clock 1), er_execution_ms = ms (clock 1) (clock 2),
                          er_stdout = [], er_stderr = []\<rparr>)),
                prints P fn args)))"

section \<open>In a fresh interpreter\<close>

definition write_envelope :: "('f, 'a, 'v) python \<Rightarrow> envelope \<Rightarrow> bytes py" where
  "write_envelope P e = send_message (dumps_env P e)"

text \<open>
  The child's main, first as the envelope it means to write, then as its exit code, its stdout
  and its stderr. A failure to write the envelope of a result is an exception of the same
  \<open>try\<close>, answered by an error envelope; one outside of it ends the interpreter with code 1.
\<close>

definition runner_envelope :: "('f, 'a, 'v) python \<Rightarrow> (nat \<Rightarrow> int) \<Rightarrow> bytes \<Rightarrow> bytes \<Rightarrow> envelope fate" where
  "runner_envelope P clock fn_bytes args_bytes =
     (let broken = \<lambda>tb. Ends \<lparr>env_good = False, env_result_bytes = None, env_error = Some (''deserialize failed:'' @ [LF] @ tb),
            env_execution_ms = 0, env_stdout = None, env_stderr = None\<rparr>
      in case loads_fn P fn_bytes of
           Inl tb \<Rightarrow> broken tb
         | Inr fn \<Rightarrow>
             (case loads_args P args_bytes of
                Inl tb \<Rightarrow> broken tb
              | Inr args \<Rightarrow>
                  (let ws = prints P fn args;
                       raised = \<lambda>tb. Ends \<lparr>env_good = False, env_result_bytes = None, env_error = Some tb,
                         env_execution_ms = ms (clock 0) (clock 1), env_stdout = Some (text_of False ws), env_stderr = Some (text_of True ws)\<rparr>
                   in case call P fn args of
                        Hangs \<Rightarrow> Forever
                      | Exits c \<Rightarrow> Escapes c
                      | Raises tb \<Rightarrow> raised tb
                      | Returns v \<Rightarrow>
                          (case dumps P v of
                             Inl tb \<Rightarrow> raised tb
                           | Inr b \<Rightarrow> Ends \<lparr>env_good = True, env_result_bytes = Some b, env_error = None,
                               env_execution_ms = ms (clock 0) (clock 1),
                               env_stdout = Some (text_of False ws), env_stderr = Some (text_of True ws)\<rparr>))))"

definition runner_main :: "('f, 'a, 'v) python \<Rightarrow> (nat \<Rightarrow> int) \<Rightarrow> stream \<Rightarrow> (int \<times> bytes \<times> string) fate" where
  "runner_main P clock stdin =
     (let wrote = \<lambda>e. (case write_envelope P e of Inl x \<Rightarrow> Ends (1, [], show_exc P x) | Inr out \<Rightarrow> Ends (0, out, []))
      in case read_request stdin of
           Inl x \<Rightarrow> Ends (2, [], ''subprocess_runner: read request failed: '' @ show_exc P x @ [LF])
         | Inr ((fn_bytes, args_bytes), s') \<Rightarrow>
             (case runner_envelope P clock fn_bytes args_bytes of
                Forever \<Rightarrow> Forever
              | Escapes c \<Rightarrow> Ends (c, [], [])
              | Ends e \<Rightarrow>
                  (case write_envelope P e of
                     Inr out \<Rightarrow> Ends (0, out, [])
                   | Inl x \<Rightarrow>
                       (if env_good e
                        then wrote (e\<lparr>env_good := False, env_result_bytes := None, env_error := Some (show_exc P x),
                               env_execution_ms := ms (clock 0) (clock 2)\<rparr>)
                        else Ends (1, [], show_exc P x)))))"

text \<open>
  The parent's answer from an envelope, common to the two strategies with a child.
\<close>

definition from_envelope :: "int \<Rightarrow> envelope \<Rightarrow> ExecutionResult py" where
  "from_envelope wall_ms e =
     (let cold = max 0 (wall_ms - env_execution_ms e);
          out = (case env_stdout e of Some t \<Rightarrow> t | None \<Rightarrow> []);
          err = (case env_stderr e of Some t \<Rightarrow> t | None \<Rightarrow> [])
      in if env_good e
         then (case env_result_bytes e of
                 None \<Rightarrow> Inl (Raised ''KeyError'')
               | Some b \<Rightarrow> Inr \<lparr>er_success = True, er_result_bytes = b, er_error = [], er_cold_start_ms = cold,
                   er_execution_ms = env_execution_ms e, er_stdout = out, er_stderr = err\<rparr>)
         else Inr \<lparr>er_success = False, er_result_bytes = [],
                er_error = (case env_error e of Some t \<Rightarrow> t | None \<Rightarrow> ''unknown error''), er_cold_start_ms = cold,
                er_execution_ms = env_execution_ms e, er_stdout = out, er_stderr = err\<rparr>)"

text \<open>
  The surroundings of one \<open>execute\<close>: whether \<open>Popen\<close> fails, how the pipe cuts the request,
  the child's clock, whether the child ends within the 60 s, what else lands on its stderr,
  and how a return code is printed.
\<close>

record process =
  popen :: "string option"
  pipe :: "bytes \<Rightarrow> stream"
  child_clock :: "nat \<Rightarrow> int"
  in_time :: bool
  noise :: string
  show_code :: "int \<Rightarrow> string"

text \<open>The parent's answer from what \<open>communicate\<close> gives.\<close>

definition from_process :: "('f, 'a, 'v) python \<Rightarrow> process \<Rightarrow> int \<Rightarrow> (int \<times> bytes \<times> string) fate \<Rightarrow> ExecutionResult py" where
  "from_process P X wall_ms x =
     (case x of
        Ends (returncode, stdout_data, stderr_data) \<Rightarrow>
          (let errs = noise X @ stderr_data
           in if returncode \<noteq> 0 \<or> length stdout_data < 4
              then Inr ((failed (''subprocess exit='' @ show_code X returncode @ '': '' @ take 500 errs) wall_ms)\<lparr>er_stderr := errs\<rparr>)
              else let envelope_bytes = take (unpack_I (take 4 stdout_data)) (drop 4 stdout_data)
                   in if envelope_bytes = [] then Inl (Raised ''AttributeError'')
                      else (case loads_env P envelope_bytes of
                              Inl e \<Rightarrow> Inl e
                            | Inr e \<Rightarrow> from_envelope wall_ms e))
      | _ \<Rightarrow> Inr ((failed ''subprocess timed out'' wall_ms)\<lparr>er_stderr := noise X\<rparr>))"

definition naive_execute :: "('f, 'a, 'v) python \<Rightarrow> process \<Rightarrow> (nat \<Rightarrow> int) \<Rightarrow> bytes \<Rightarrow> bytes \<Rightarrow> ExecutionResult py" where
  "naive_execute P X clock function_bytes args_bytes =
     (case popen X of
        Some tb \<Rightarrow> Inr (failed (''spawn subprocess: '' @ tb) (ms (clock 0) (clock 1)))
      | None \<Rightarrow>
          (case (send_message function_bytes, send_message args_bytes) of
             (Inl e, _) \<Rightarrow> Inl e
           | (Inr a, Inl e) \<Rightarrow> Inl e
           | (Inr a, Inr b) \<Rightarrow>
               from_process P X (ms (clock 0) (clock 1))
                 (if in_time X then runner_main P (child_clock X) (pipe X (a @ b)) else Forever)))"

section \<open>In a warm child\<close>

definition child_envelope :: "('f, 'a, 'v) python \<Rightarrow> (nat \<Rightarrow> int) \<Rightarrow> bytes \<Rightarrow> bytes \<Rightarrow> envelope fate" where
  "child_envelope P clock fn_bytes args_bytes =
     (let raised = \<lambda>tb. Ends \<lparr>env_good = False, env_result_bytes = None, env_error = Some tb,
            env_execution_ms = ms (clock 0) (clock 1), env_stdout = None, env_stderr = None\<rparr>
      in case loads_fn P fn_bytes of
           Inl tb \<Rightarrow> raised tb
         | Inr fn \<Rightarrow>
             (case loads_args P args_bytes of
                Inl tb \<Rightarrow> raised tb
              | Inr args \<Rightarrow>
                  (case call P fn args of
                     Hangs \<Rightarrow> Forever
                   | Exits c \<Rightarrow> Escapes c
                   | Raises tb \<Rightarrow> raised tb
                   | Returns v \<Rightarrow>
                       (case dumps P v of
                          Inl tb \<Rightarrow> raised tb
                        | Inr b \<Rightarrow> Ends \<lparr>env_good = True, env_result_bytes = Some b, env_error = None,
                            env_execution_ms = ms (clock 0) (clock 1), env_stdout = None, env_stderr = None\<rparr>))))"

text \<open>
  One turn of the loop of \<open>_child_main\<close>: what it sends back on the connection before closing
  it. \<open>Escapes\<close>: the child's process ends, which closes the connection too.
\<close>

definition child_serve :: "('f, 'a, 'v) python \<Rightarrow> (nat \<Rightarrow> int) \<Rightarrow> stream \<Rightarrow> bytes fate" where
  "child_serve P clock conn =
     (case recv_message conn of
        Inl x \<Rightarrow> Ends []
      | Inr (request_bytes, conn') \<Rightarrow>
          (case loads_req P request_bytes of
             None \<Rightarrow> Ends []
           | Some (fn_bytes, args_bytes) \<Rightarrow>
               (case child_envelope P clock fn_bytes args_bytes of
                  Forever \<Rightarrow> Forever
                | Escapes c \<Rightarrow> Escapes c
                | Ends e \<Rightarrow> (case send_message (dumps_env P e) of Inl x \<Rightarrow> Ends [] | Inr m \<Rightarrow> Ends m))))"

text \<open>
  The parent's side between taking a child and giving it back. \<open>connects\<close>: the connection is
  accepted. A child that does not answer within the task timeout leaves the stream broken.
\<close>

record warm =
  connects :: bool
  there :: "bytes \<Rightarrow> stream"
  here :: "bytes \<Rightarrow> bytes list"
  warm_clock :: "nat \<Rightarrow> int"
  warm_in_time :: bool

definition exchange :: "('f, 'a, 'v) python \<Rightarrow> warm \<Rightarrow> bytes \<Rightarrow> bytes py" where
  "exchange P X request =
     (if \<not> connects X then Inl OSError
      else case send_message request of
             Inl e \<Rightarrow> Inl e
           | Inr m \<Rightarrow>
               (let answer = (case (if warm_in_time X then child_serve P (warm_clock X) (there X m) else Forever) of
                                Ends m' \<Rightarrow> \<lparr>pieces = here X m', ending = Eof\<rparr>
                              | Escapes c \<Rightarrow> \<lparr>pieces = [], ending = Eof\<rparr>
                              | Forever \<Rightarrow> \<lparr>pieces = [], ending = Broken\<rparr>)
                in case recv_message answer of Inl e \<Rightarrow> Inl e | Inr (r, s') \<Rightarrow> Inr r))"

text \<open>The first component: whether the child is given back (\<open>healthy\<close>) or replaced.\<close>

definition warm_execute :: "('f, 'a, 'v) python \<Rightarrow> warm \<Rightarrow> (nat \<Rightarrow> int) \<Rightarrow> bytes \<Rightarrow> bytes \<Rightarrow> bool \<times> ExecutionResult py" where
  "warm_execute P X clock function_bytes args_bytes =
     (let r = (case exchange P X (dumps_req P (function_bytes, args_bytes)) of
                 Inl e \<Rightarrow> Inl e
               | Inr response_bytes \<Rightarrow>
                   (case loads_env P response_bytes of
                      Inl e \<Rightarrow> Inl e
                    | Inr e \<Rightarrow> from_envelope (ms (clock 0) (clock 1)) (e\<lparr>env_stdout := None, env_stderr := None\<rparr>)))
      in case r of
           Inr x \<Rightarrow> (True, Inr x)
         | Inl e \<Rightarrow>
             (if e = EOFError \<or> e = OSError
              then (False, Inr (failed (''warm child connection error: '' @ show_exc P e) (ms (clock 0) (clock 1))))
              else (True, Inl e)))"

section \<open>The strategies agree\<close>

text \<open>
  What running the function means: the pickled result, \<open>None\<close> when something raises.
\<close>

definition evaluates :: "('f, 'a, 'v) python \<Rightarrow> bytes \<Rightarrow> bytes \<Rightarrow> bytes option fate" where
  "evaluates P function_bytes args_bytes =
     (case (loads_fn P function_bytes, loads_args P args_bytes) of
        (Inr fn, Inr args) \<Rightarrow>
          (case call P fn args of
             Returns v \<Rightarrow> Ends (case dumps P v of Inl tb \<Rightarrow> None | Inr b \<Rightarrow> Some b)
           | Raises tb \<Rightarrow> Ends None
           | Exits c \<Rightarrow> Escapes c
           | Hangs \<Rightarrow> Forever)
      | _ \<Rightarrow> Ends None)"

text \<open>A result that says what \<open>evaluates\<close> says.\<close>

definition says :: "bytes option \<Rightarrow> ExecutionResult \<Rightarrow> bool" where
  "says v r \<longleftrightarrow> er_success r = (v \<noteq> None) \<and> er_result_bytes r = (case v of Some b \<Rightarrow> b | None \<Rightarrow> [])"

lemma inproc_agrees:
  "case evaluates P f a of
     Ends v \<Rightarrow> (\<exists>r. inproc_execute P clock f a = Ends r \<and> says v r)
   | Escapes c \<Rightarrow> inproc_execute P clock f a = Escapes c
   | Forever \<Rightarrow> inproc_execute P clock f a = Forever"
  by (auto simp: evaluates_def inproc_execute_def says_def Let_def split: sum.splits call_end.splits)

lemma streaming_agrees:
  "case evaluates P f a of
     Ends v \<Rightarrow> (\<exists>r. fst (inproc_streaming P clock f a) = Ends r \<and> says v r \<and> er_stdout r = [] \<and> er_stderr r = [])
   | Escapes c \<Rightarrow> fst (inproc_streaming P clock f a) = Escapes c
   | Forever \<Rightarrow> fst (inproc_streaming P clock f a) = Forever"
  by (auto simp: evaluates_def inproc_streaming_def says_def failed_def split: sum.splits call_end.splits)

text \<open>
  The documented behaviour of cloudpickle that a child relies on: an envelope and a request
  come back from their bytes, and no pickle is empty.
\<close>

definition pickles :: "('f, 'a, 'v) python \<Rightarrow> bool" where
  "pickles P \<longleftrightarrow> (\<forall>e. loads_env P (dumps_env P e) = Inr e \<and> dumps_env P e \<noteq> []) \<and> (\<forall>q. loads_req P (dumps_req P q) = Some q)"

text \<open>A process that starts, whose pipe delivers all it is given, and that is fast enough.\<close>

definition sound_process :: "process \<Rightarrow> bool" where
  "sound_process X \<longleftrightarrow> popen X = None \<and> in_time X \<and> (\<forall>m. wf_stream (pipe X m) \<and> data (pipe X m) = m)"

definition sound_warm :: "warm \<Rightarrow> bool" where
  "sound_warm X \<longleftrightarrow> connects X \<and> warm_in_time X \<and> (\<forall>m. wf_stream (there X m) \<and> data (there X m) = m) \<and> (\<forall>m. [] \<notin> set (here X m) \<and> concat (here X m) = m)"

lemma send_message_fits: "length b < 2 ^ 32 \<Longrightarrow> \<exists>h. send_message b = Inr (h @ b) \<and> length h = 4 \<and> unpack_I h = length b"
proof -
  assume "length b < 2 ^ 32"
  then obtain h where h: "pack_I (length b) = Inr h" by (simp add: pack_I_def)
  then show ?thesis using unpack_pack [OF h] by (simp add: send_message_def)
qed

lemma runner_envelope_evaluates:
  "case evaluates P f a of
     Ends v \<Rightarrow> (\<exists>e. runner_envelope P clock f a = Ends e \<and> (\<forall>w. \<exists>r. from_envelope w e = Inr r \<and> says v r))
   | Escapes c \<Rightarrow> runner_envelope P clock f a = Escapes c
   | Forever \<Rightarrow> runner_envelope P clock f a = Forever"
  by (auto simp: evaluates_def runner_envelope_def from_envelope_def says_def Let_def split: sum.splits call_end.splits)

lemma child_envelope_evaluates:
  "case evaluates P f a of
     Ends v \<Rightarrow> (\<exists>e. child_envelope P clock f a = Ends e \<and> (\<forall>w. \<exists>r. from_envelope w (e\<lparr>env_stdout := None, env_stderr := None\<rparr>) = Inr r \<and> says v r))
   | Escapes c \<Rightarrow> child_envelope P clock f a = Escapes c
   | Forever \<Rightarrow> child_envelope P clock f a = Forever"
  by (auto simp: evaluates_def child_envelope_def from_envelope_def says_def Let_def split: sum.splits call_end.splits)

lemma naive_runs:
  assumes "sound_process X" "length f < 2 ^ 32" "length a < 2 ^ 32"
  obtains m s' where "naive_execute P X clock f a = from_process P X (ms (clock 0) (clock 1)) (runner_main P (child_clock X) (pipe X m))"
    "read_request (pipe X m) = Inr ((f, a), s')"
proof -
  obtain h k where h: "send_message f = Inr (h @ f)" "send_message a = Inr (k @ a)"
    using send_message_fits assms(2,3) by metis
  let ?m = "(h @ f) @ (k @ a)"
  have s: "wf_stream (pipe X ?m)" "data (pipe X ?m) = ?m" using assms(1) by (simp_all add: sound_process_def)
  obtain s' where "read_request (pipe X ?m) = Inr ((f, a), s')" by (rule read_request_gets [OF s(1) h s(2)])
  then show ?thesis using assms(1) h by (intro that [of ?m s']) (simp_all add: naive_execute_def sound_process_def)
qed

lemma naive_agrees:
  assumes "sound_process X" "pickles P" "length f < 2 ^ 32" "length a < 2 ^ 32"
    and fits: "\<forall>e. runner_envelope P (child_clock X) f a = Ends e \<longrightarrow> length (dumps_env P e) < 2 ^ 32"
  shows "\<exists>r. naive_execute P X clock f a = Inr r \<and> says (case evaluates P f a of Ends v \<Rightarrow> v | _ \<Rightarrow> None) r"
proof -
  obtain m s' where m: "naive_execute P X clock f a = from_process P X (ms (clock 0) (clock 1)) (runner_main P (child_clock X) (pipe X m))"
    and q: "read_request (pipe X m) = Inr ((f, a), s')" by (rule naive_runs [OF assms(1,3,4)])
  note ev = runner_envelope_evaluates [where P = P and f = f and a = a and clock = "child_clock X"]
  show ?thesis
  proof (cases "evaluates P f a")
    case (Ends v)
    with ev obtain e where e: "runner_envelope P (child_clock X) f a = Ends e" "\<forall>w. \<exists>r. from_envelope w e = Inr r \<and> says v r" by auto
    obtain h where h: "send_message (dumps_env P e) = Inr (h @ dumps_env P e)" "length h = 4" "unpack_I h = length (dumps_env P e)"
      using send_message_fits fits e(1) by blast
    have "runner_main P (child_clock X) (pipe X m) = Ends (0, h @ dumps_env P e, [])"
      by (simp add: runner_main_def q e(1) write_envelope_def h(1))
    then show ?thesis unfolding m using assms(2) e(2) h by (simp add: from_process_def pickles_def Ends)
  next
    case (Escapes c)
    with ev have "runner_main P (child_clock X) (pipe X m) = Ends (c, [], [])" by (simp add: runner_main_def q)
    then show ?thesis unfolding m by (simp add: from_process_def Escapes says_def failed_def)
  next
    case Forever
    with ev have "runner_main P (child_clock X) (pipe X m) = Forever" by (simp add: runner_main_def q)
    then show ?thesis unfolding m by (simp add: from_process_def Forever says_def failed_def)
  qed
qed

lemma warm_agrees:
  assumes "sound_warm X" "pickles P" "length (dumps_req P (f, a)) < 2 ^ 32"
    and fits: "\<forall>e. child_envelope P (warm_clock X) f a = Ends e \<longrightarrow> length (dumps_env P e) < 2 ^ 32"
  shows "\<exists>r. warm_execute P X clock f a = (case evaluates P f a of Ends v \<Rightarrow> True | _ \<Rightarrow> False, Inr r) \<and>
    says (case evaluates P f a of Ends v \<Rightarrow> v | _ \<Rightarrow> None) r"
proof -
  let ?q = "dumps_req P (f, a)"
  obtain h where h: "send_message ?q = Inr (h @ ?q)" using send_message_fits [OF assms(3)] by blast
  have t: "wf_stream (there X (h @ ?q))" "data (there X (h @ ?q)) = (h @ ?q) @ []" using assms(1) by (simp_all add: sound_warm_def)
  obtain s' where q: "recv_message (there X (h @ ?q)) = Inr (?q, s')" by (rule recv_message_gets [OF t(1) h t(2)])
  have l: "loads_req P ?q = Some (f, a)" using assms(2) by (simp add: pickles_def)
  have up: "connects X" "warm_in_time X" using assms(1) by (simp_all add: sound_warm_def)
  note ev = child_envelope_evaluates [where P = P and f = f and a = a and clock = "warm_clock X"]
  have short: "recv_message \<lparr>pieces = [], ending = z\<rparr> = Inl (case z of Eof \<Rightarrow> EOFError | Broken \<Rightarrow> OSError)" for z
    using recv_exact_short [of "\<lparr>pieces = [], ending = z\<rparr>" 4] by (simp add: recv_message_def wf_stream_def data_def)
  show ?thesis
  proof (cases "evaluates P f a")
    case (Ends v)
    with ev obtain e where e: "child_envelope P (warm_clock X) f a = Ends e"
      "\<forall>w. \<exists>r. from_envelope w (e\<lparr>env_stdout := None, env_stderr := None\<rparr>) = Inr r \<and> says v r" by auto
    obtain k where k: "send_message (dumps_env P e) = Inr (k @ dumps_env P e)" using send_message_fits fits e(1) by blast
    have b: "wf_stream \<lparr>pieces = here X (k @ dumps_env P e), ending = Eof\<rparr>"
      "data \<lparr>pieces = here X (k @ dumps_env P e), ending = Eof\<rparr> = (k @ dumps_env P e) @ []" using assms(1)
      by (simp_all add: sound_warm_def wf_stream_def data_def)
    obtain s2 where "recv_message \<lparr>pieces = here X (k @ dumps_env P e), ending = Eof\<rparr> = Inr (dumps_env P e, s2)"
      by (rule recv_message_gets [OF b(1) k b(2)])
    then have "exchange P X ?q = Inr (dumps_env P e)" by (simp add: exchange_def up h child_serve_def q l e(1) k)
    moreover have "loads_env P (dumps_env P e) = Inr e" using assms(2) by (simp add: pickles_def)
    moreover obtain r where "from_envelope (ms (clock 0) (clock 1)) (e\<lparr>env_stdout := None, env_stderr := None\<rparr>) = Inr r" "says v r" using e(2) by blast
    ultimately show ?thesis by (simp add: warm_execute_def Ends)
  next
    case (Escapes c)
    with ev have "exchange P X ?q = Inl EOFError" by (simp add: exchange_def up h child_serve_def q l short)
    then show ?thesis by (simp add: warm_execute_def Escapes says_def failed_def)
  next
    case Forever
    with ev have "exchange P X ?q = Inl OSError" by (simp add: exchange_def up h child_serve_def q l short)
    then show ?thesis by (simp add: warm_execute_def Forever says_def failed_def)
  qed
qed

section \<open>Properties\<close>

text \<open>
  C13: the three strategies agree. For a function and arguments that fit their frames, running
  in the worker, in a fresh interpreter or in a warm child all report the same: success with
  the same pickled result when the call returns, failure when anything raises. A call that
  leaves by \<open>sys.exit\<close> or never returns is reported as a failure by both strategies with a
  child, and the warm child is then replaced and otherwise kept; in the worker itself it
  escapes, or blocks, and no result is made.
\<close>
theorem strategies_agree:
  assumes "pickles P" "sound_process X" "sound_warm Y" "length f < 2 ^ 32" "length a < 2 ^ 32" "length (dumps_req P (f, a)) < 2 ^ 32"
    and "\<forall>e. runner_envelope P (child_clock X) f a = Ends e \<or> child_envelope P (warm_clock Y) f a = Ends e \<longrightarrow> length (dumps_env P e) < 2 ^ 32"
  shows "\<exists>r2 r3. naive_execute P X clock f a = Inr r2 \<and>
    (case evaluates P f a of
       Ends v \<Rightarrow> (\<exists>r0 r1. inproc_execute P clock f a = Ends r0 \<and> fst (inproc_streaming P clock f a) = Ends r1 \<and>
         warm_execute P Y clock f a = (True, Inr r3) \<and> says v r0 \<and> says v r1 \<and> says v r2 \<and> says v r3)
     | Escapes c \<Rightarrow> inproc_execute P clock f a = Escapes c \<and> fst (inproc_streaming P clock f a) = Escapes c \<and>
         warm_execute P Y clock f a = (False, Inr r3) \<and> says None r2 \<and> says None r3
     | Forever \<Rightarrow> inproc_execute P clock f a = Forever \<and> fst (inproc_streaming P clock f a) = Forever \<and>
         warm_execute P Y clock f a = (False, Inr r3) \<and> says None r2 \<and> says None r3)"
proof -
  obtain r2 where r2: "naive_execute P X clock f a = Inr r2" "says (case evaluates P f a of Ends v \<Rightarrow> v | _ \<Rightarrow> None) r2"
    using naive_agrees [OF assms(2,1,4,5)] assms(7) by blast
  obtain r3 where r3: "warm_execute P Y clock f a = (case evaluates P f a of Ends v \<Rightarrow> True | _ \<Rightarrow> False, Inr r3)"
    "says (case evaluates P f a of Ends v \<Rightarrow> v | _ \<Rightarrow> None) r3"
    using warm_agrees [OF assms(3,1,6)] assms(7) by blast
  show ?thesis using r2 r3 inproc_agrees [where P = P and f = f and a = a and clock = clock]
      streaming_agrees [where P = P and f = f and a = a and clock = clock]
    by (intro exI [of _ r2] exI [of _ r3]) (auto split: fate.splits)
qed

text \<open>
  An interpreter for the witness: a pickle that writes every field, and one function, which
  prints and returns.
\<close>

definition enc_bytes :: "bytes \<Rightarrow> bytes" where
  "enc_bytes bs = concat (map (\<lambda>b. [1, b]) bs) @ [0]"

fun un_bytes :: "bytes \<Rightarrow> bytes \<times> bytes" where
  "un_bytes (x # b # r) = (if x = 1 then (case un_bytes r of (bs, r') \<Rightarrow> (b # bs, r')) else ([], b # r))"
| "un_bytes (x # []) = ([], [])"
| "un_bytes [] = ([], [])"

lemma un_enc_bytes [simp]: "un_bytes (enc_bytes bs @ r) = (bs, r)"
proof (induction bs)
  case Nil
  then show ?case by (cases r) (simp_all add: enc_bytes_def)
qed (simp add: enc_bytes_def)

definition enc_string :: "string \<Rightarrow> bytes" where
  "enc_string s = enc_bytes (map (\<lambda>c. of_nat (of_char c)) s)"

definition dec_string :: "bytes \<Rightarrow> string \<times> bytes" where
  "dec_string r = (case un_bytes r of (bs, r') \<Rightarrow> (map (\<lambda>b. char_of (unat b)) bs, r'))"

lemma dec_enc_string [simp]: "dec_string (enc_string s @ r) = (s, r)"
proof -
  have "char_of (unat (of_nat (of_char c) :: byte)) = c" for c
  proof -
    have "of_char c < (256 :: nat)" by simp
    then show ?thesis by (simp add: unat_byte)
  qed
  then show ?thesis by (simp add: dec_string_def enc_string_def o_def)
qed

definition enc_int :: "int \<Rightarrow> bytes" where
  "enc_int i = (if i < 0 then 1 else 0) # enc_bytes (replicate (nat \<bar>i\<bar>) 0)"

definition dec_int :: "bytes \<Rightarrow> int \<times> bytes" where
  "dec_int r = (case un_bytes (tl r) of (bs, r') \<Rightarrow> ((if hd r = 1 then - int (length bs) else int (length bs)), r'))"

lemma dec_enc_int [simp]: "dec_int (enc_int i @ r) = (i, r)"
  by (simp add: dec_int_def enc_int_def)

definition enc_option :: "('x \<Rightarrow> bytes) \<Rightarrow> 'x option \<Rightarrow> bytes" where
  "enc_option enc v = (case v of None \<Rightarrow> [0] | Some x \<Rightarrow> 1 # enc x)"

definition dec_option :: "(bytes \<Rightarrow> 'x \<times> bytes) \<Rightarrow> bytes \<Rightarrow> 'x option \<times> bytes" where
  "dec_option dec r = (if hd r = 0 then (None, tl r) else case dec (tl r) of (x, r') \<Rightarrow> (Some x, r'))"

lemma dec_enc_option:
  "(\<And>x r. dec (enc x @ r) = (x, r)) \<Longrightarrow> dec_option dec (enc_option enc v @ r) = (v, r)"
  by (simp add: dec_option_def enc_option_def split: option.splits)

definition demo_dumps_env :: "envelope \<Rightarrow> bytes" where
  "demo_dumps_env e = (if env_good e then 1 else 0) # enc_option enc_bytes (env_result_bytes e) @ enc_option enc_string (env_error e) @
     enc_int (env_execution_ms e) @ enc_option enc_string (env_stdout e) @ enc_option enc_string (env_stderr e)"

definition demo_loads_env :: "bytes \<Rightarrow> envelope py" where
  "demo_loads_env r0 =
     (let (b, r1) = dec_option un_bytes (tl r0); (x, r2) = dec_option dec_string r1; (i, r3) = dec_int r2;
          (out, r4) = dec_option dec_string r3; (err, r5) = dec_option dec_string r4
      in Inr \<lparr>env_good = (hd r0 = 1), env_result_bytes = b, env_error = x, env_execution_ms = i, env_stdout = out, env_stderr = err\<rparr>)"

lemma demo_env_back: "demo_loads_env (demo_dumps_env e) = Inr e"
proof -
  have "dec_option dec_string (enc_option enc_string v) = (v, [])" for v
    using dec_enc_option [of dec_string enc_string v "[]"] by simp
  then show ?thesis by (simp add: demo_loads_env_def demo_dumps_env_def dec_enc_option)
qed

definition demo_python :: "(unit, unit, unit) python" where
  "demo_python = \<lparr>loads_fn = (\<lambda>b. if b = [1] then Inr () else Inl ''bad''), loads_args = (\<lambda>b. Inr ()), call = (\<lambda>_ _. Returns ()),
     prints = (\<lambda>_ _. [(''hi'', False)]), dumps = (\<lambda>_. Inr [7]), dumps_env = demo_dumps_env, loads_env = demo_loads_env,
     dumps_req = (\<lambda>(f, a). enc_bytes f @ enc_bytes a), loads_req = (\<lambda>r. case un_bytes r of (f, r') \<Rightarrow> Some (f, fst (un_bytes r'))),
     show_exc = (\<lambda>_. ''error'')\<rparr>"

definition demo_process :: process where
  "demo_process = \<lparr>popen = None, pipe = (\<lambda>m. \<lparr>pieces = map (\<lambda>b. [b]) m, ending = Eof\<rparr>), child_clock = int, in_time = True, noise = [], show_code = (\<lambda>_. [])\<rparr>"

definition demo_warm :: warm where
  "demo_warm = \<lparr>connects = True, there = (\<lambda>m. \<lparr>pieces = map (\<lambda>b. [b]) m, ending = Eof\<rparr>), here = map (\<lambda>b. [b]), warm_clock = int, warm_in_time = True\<rparr>"

lemma demo_sound: "pickles demo_python" "sound_process demo_process" "sound_warm demo_warm"
proof -
  have "concat (map (\<lambda>b. [b]) m) = m" for m :: bytes by (induction m) simp_all
  moreover have "fst (un_bytes (enc_bytes a)) = a" for a using un_enc_bytes [of a "[]"] by simp
  moreover have "demo_dumps_env e \<noteq> []" for e by (simp add: demo_dumps_env_def)
  ultimately show "pickles demo_python" "sound_process demo_process" "sound_warm demo_warm"
    by (simp_all add: pickles_def demo_python_def demo_env_back sound_process_def demo_process_def sound_warm_def demo_warm_def wf_stream_def data_def image_iff)
qed

theorem strategies_agree_witness:
  "\<exists>r2 r3. naive_execute demo_python demo_process int [1] [] = Inr r2 \<and> warm_execute demo_python demo_warm int [1] [] = (True, Inr r3) \<and>
     er_success r2 \<and> er_result_bytes r2 = [7] \<and> er_success r3 \<and> er_result_bytes r3 = [7]"
proof -
  have ev: "evaluates demo_python [1] [] = Ends (Some [7])" by (simp add: evaluates_def demo_python_def)
  have fits: "\<forall>e. runner_envelope demo_python (child_clock demo_process) [1] [] = Ends e \<or>
      child_envelope demo_python (warm_clock demo_warm) [1] [] = Ends e \<longrightarrow> length (dumps_env demo_python e) < 2 ^ 32"
    by (auto simp: runner_envelope_def child_envelope_def demo_python_def demo_process_def demo_warm_def demo_dumps_env_def
        enc_option_def enc_bytes_def enc_string_def enc_int_def ms_def text_of_def)
  have req: "length (dumps_req demo_python ([1], [])) < 2 ^ 32" by (simp add: demo_python_def enc_bytes_def)
  from strategies_agree [OF demo_sound _ _ req fits, of int] ev show ?thesis by (auto simp: says_def)
qed

end
