(* ===== verification/Worker_Warm_Pool.thy ===== *)
theory Worker_Warm_Pool
  imports Worker_Exec "HOL-Library.Multiset"
begin

text \<open>
  The pool of \<open>ForkWarmPoolExecutor\<close> in \<open>warm_pool.py\<close>: \<open>start\<close>, \<open>shutdown\<close>, and \<open>execute\<close> cut
  where other threads can run: taking an idle child, giving it back, and the two halves of
  \<open>_replace\<close>. Whether the spawner answers, and with which child, is an argument. The exchange
  with the child is \<^const>\<open>warm_execute\<close>.
\<close>

section \<open>The pool\<close>

record ChildSlot =
  pid :: int
  sock_path :: string

record pool =
  idle_q :: "ChildSlot list"
  slots :: "ChildSlot list"
  spawner_pid :: "int option"
  pool_started :: bool

definition new_pool :: pool where
  "new_pool = \<lparr>idle_q = [], slots = [], spawner_pid = None, pool_started = False\<rparr>"

text \<open>The loop of \<open>start\<close> over the children asked for; a refused one raises.\<close>

fun start_children :: "ChildSlot option list \<Rightarrow> pool \<Rightarrow> pool \<times> bool" where
  "start_children [] p = (p, True)"
| "start_children (None # cs) p = (p, False)"
| "start_children (Some c # cs) p = start_children cs (p\<lparr>slots := slots p @ [c], idle_q := idle_q p @ [c]\<rparr>)"

definition start_pool :: "int option \<Rightarrow> ChildSlot option list \<Rightarrow> pool \<Rightarrow> pool \<times> bool" where
  "start_pool spawner children p =
     (if pool_started p then (p, True)
      else case spawner of
             None \<Rightarrow> (p\<lparr>spawner_pid := None\<rparr>, False)
           | Some n \<Rightarrow>
               (case start_children children (p\<lparr>spawner_pid := Some n\<rparr>) of
                  (p', ok) \<Rightarrow> (if ok then p'\<lparr>pool_started := True\<rparr> else p', ok)))"

definition shutdown_pool :: "pool \<Rightarrow> pool" where
  "shutdown_pool p = p\<lparr>spawner_pid := None, slots := [], pool_started := False\<rparr>"

text \<open>\<open>self._idle.get\<close> with its timeout: \<open>None\<close> when no child came free.\<close>

definition acquire :: "pool \<Rightarrow> (ChildSlot \<times> pool) option" where
  "acquire p = (case idle_q p of [] \<Rightarrow> None | c # cs \<Rightarrow> Some (c, p\<lparr>idle_q := cs\<rparr>))"

definition give_back :: "ChildSlot \<Rightarrow> pool \<Rightarrow> pool" where
  "give_back c p = p\<lparr>idle_q := idle_q p @ [c]\<rparr>"

text \<open>\<open>_replace\<close>: the broken child is forgotten, then a fresh one, if there is one, joins.\<close>

definition discard :: "ChildSlot \<Rightarrow> pool \<Rightarrow> pool" where
  "discard c p = p\<lparr>slots := remove1 c (slots p)\<rparr>"

definition join_fresh :: "ChildSlot option \<Rightarrow> pool \<Rightarrow> pool" where
  "join_fresh fresh p = (case fresh of None \<Rightarrow> p | Some c \<Rightarrow> p\<lparr>slots := slots p @ [c], idle_q := idle_q p @ [c]\<rparr>)"

text \<open>
  \<open>execute\<close> of one thread, with what the others do between its steps (\<open>other\<close>, by step). The
  spawner's answer may depend on the children there are: a new child's socket has a new name.
\<close>

definition fork_execute ::
  "('f, 'a, 'v) python \<Rightarrow> (ChildSlot \<Rightarrow> warm) \<Rightarrow> (nat \<Rightarrow> int) \<Rightarrow> (nat \<Rightarrow> pool \<Rightarrow> pool) \<Rightarrow> (pool \<Rightarrow> ChildSlot option) \<Rightarrow> string \<Rightarrow> bytes \<Rightarrow> bytes \<Rightarrow> pool \<Rightarrow>
   pool \<times> ExecutionResult py" where
  "fork_execute P X tm other fresh limit f a p =
     (if \<not> pool_started p then (p, Inl (Raised ''WarmPool not started''))
      else case acquire (other 0 p) of
             None \<Rightarrow> (other 0 p, Inr (failed (''no warm child available within '' @ limit @ ''s'') (ms (tm 0) (tm 1))))
           | Some (c, p1) \<Rightarrow>
               (case warm_execute P (X c) tm f a of
                  (healthy, r) \<Rightarrow>
                    (if healthy then (give_back c (other 1 p1), r)
                     else let p2 = other 2 (discard c (other 1 p1)) in (join_fresh (fresh p2) p2, r))))"

section \<open>Many threads\<close>

text \<open>
  A thread in \<open>execute\<close> holds a child, or waits for a fresh one. \<open>lost\<close> counts the
  replacements that failed. A fresh child is not one the pool has: its socket's name is new.
\<close>

datatype hold = Holding ChildSlot | Respawning

definition held :: "hold list \<Rightarrow> ChildSlot list" where
  "held hs = List.map_filter (\<lambda>h. case h of Holding c \<Rightarrow> Some c | Respawning \<Rightarrow> None) hs"

inductive pool_run :: "ChildSlot list \<Rightarrow> pool \<Rightarrow> hold list \<Rightarrow> nat \<Rightarrow> bool" for children where
  up: "start_pool (Some n) (map Some children) new_pool = (p, True) \<Longrightarrow> distinct children \<Longrightarrow> pool_run children p [] 0"
| take: "pool_run children p hs lost \<Longrightarrow> acquire p = Some (c, p') \<Longrightarrow> pool_run children p' (Holding c # hs) lost"
| healthy: "pool_run children p (xs @ Holding c # ys) lost \<Longrightarrow> pool_run children (give_back c p) (xs @ ys) lost"
| broken: "pool_run children p (xs @ Holding c # ys) lost \<Longrightarrow> pool_run children (discard c p) (xs @ Respawning # ys) lost"
| respawned: "pool_run children p (xs @ Respawning # ys) lost \<Longrightarrow> c \<notin> set (slots p) \<Longrightarrow>
    pool_run children (join_fresh (Some c) p) (xs @ ys) lost"
| refused: "pool_run children p (xs @ Respawning # ys) lost \<Longrightarrow> pool_run children (join_fresh None p) (xs @ ys) (Suc lost)"

lemma held_simps [simp]:
  "held [] = []" "held (Holding c # hs) = c # held hs" "held (Respawning # hs) = held hs" "held (xs @ ys) = held xs @ held ys"
  by (simp_all add: held_def List.map_filter_def)

lemma start_children_all:
  "start_children (map Some cs) p = (p\<lparr>slots := slots p @ cs, idle_q := idle_q p @ cs\<rparr>, True)"
  by (induction cs arbitrary: p) simp_all

lemma pool_run_inv:
  "pool_run children p hs lost \<Longrightarrow>
     pool_started p \<and> distinct (slots p) \<and> mset (slots p) = mset (idle_q p) + mset (held hs) \<and> length (idle_q p) + length hs + lost = length children"
proof (induction rule: pool_run.induct)
  case (up n p)
  then show ?case by (auto simp: start_pool_def new_pool_def start_children_all)
next
  case (take p hs lost c p')
  then show ?case by (auto simp: acquire_def split: list.splits)
next
  case (healthy p xs c ys lost)
  then show ?case by (simp add: give_back_def)
next
  case (broken p xs c ys lost)
  then show ?case by (simp add: discard_def)
next
  case (respawned p xs ys lost c)
  then show ?case by (simp add: join_fresh_def)
next
  case (refused p xs ys lost)
  then show ?case by (simp add: join_fresh_def)
qed

text \<open>
  \<open>execute\<close> is such a thread: whatever the others do, with this thread's child left alone, the
  pool is in a state of a run after it, and the thread holds nothing.
\<close>

definition leaves_alone :: "ChildSlot list \<Rightarrow> (pool \<Rightarrow> pool) \<Rightarrow> bool" where
  "leaves_alone children other \<longleftrightarrow>
     (\<forall>p hs lost. pool_run children p hs lost \<longrightarrow> (\<exists>hs' lost'. pool_run children (other p) hs' lost')) \<and>
     (\<forall>p h hs lost. pool_run children p (h # hs) lost \<longrightarrow> (\<exists>hs' lost'. pool_run children (other p) (h # hs') lost'))"

lemma fork_execute_runs:
  assumes "pool_run children p hs lost" "\<forall>k. leaves_alone children (other k)"
    and "\<forall>q c. fresh q = Some c \<longrightarrow> c \<notin> set (slots q)"
  shows "\<exists>hs' lost'. pool_run children (fst (fork_execute P X tm other fresh limit f a p)) hs' lost'"
proof -
  have st: "pool_started p" using pool_run_inv [OF assms(1)] by simp
  obtain hs0 l0 where r0: "pool_run children (other 0 p) hs0 l0" using assms(1,2) unfolding leaves_alone_def by metis
  show ?thesis
  proof (cases "acquire (other 0 p)")
    case None
    with st r0 show ?thesis by (auto simp: fork_execute_def)
  next
    case (Some x)
    then obtain c p1 where a: "acquire (other 0 p) = Some (c, p1)" by (cases x) simp
    obtain healthy r where w: "warm_execute P (X c) tm f a = (healthy, r)" by (rule prod.exhaust)
    have "pool_run children p1 (Holding c # hs0) l0" by (rule pool_run.take [OF r0 a])
    then obtain hs1 l1 where r1: "pool_run children (other 1 p1) ([] @ Holding c # hs1) l1" using assms(2) unfolding leaves_alone_def by (metis append_Nil)
    show ?thesis
    proof (cases healthy)
      case True
      with pool_run.healthy [OF r1] st a w show ?thesis by (auto simp: fork_execute_def)
    next
      case False
      from pool_run.broken [OF r1] obtain hs2 l2 where r2: "pool_run children (other 2 (discard c (other 1 p1))) ([] @ Respawning # hs2) l2"
        using assms(2) unfolding leaves_alone_def by (metis append_Nil)
      let ?q = "other 2 (discard c (other 1 p1))"
      have e: "fst (fork_execute P X tm other fresh limit f a p) = join_fresh (fresh ?q) ?q"
        using st a w False by (simp add: fork_execute_def Let_def)
      show ?thesis
      proof (cases "fresh ?q")
        case None
        with pool_run.refused [OF r2] show ?thesis unfolding e by auto
      next
        case (Some d)
        then have "d \<notin> set (slots ?q)" using assms(3) by blast
        from pool_run.respawned [OF r2 this] Some show ?thesis unfolding e by auto
      qed
    qed
  qed
qed

section \<open>Properties\<close>

text \<open>
  C17: a warm child serves one task at a time, and the pool does not run dry. In every
  interleaving of tasks, crashes, timeouts and replacements, no child is idle or held twice,
  every child the pool counts is idle or held, and the pool's size is that of its start less
  the replacements the spawner refused. So while fewer tasks run than the pool has children
  left, the next one gets a child at once.
\<close>
theorem warm_pool_exclusive:
  assumes "pool_run children p hs lost"
  shows "distinct (idle_q p @ held hs) \<and> set (slots p) = set (idle_q p) \<union> set (held hs) \<and>
    length (idle_q p) + length hs + lost = length children \<and>
    (if length hs + lost < length children then \<exists>c p'. acquire p = Some (c, p') \<and> c \<notin> set (held hs) else True)"
proof -
  note i = pool_run_inv [OF assms]
  have m: "mset (idle_q p @ held hs) = mset (slots p)" using i by simp
  have d: "distinct (idle_q p @ held hs)" using i mset_eq_imp_distinct_iff [OF m] by simp
  have s: "set (slots p) = set (idle_q p) \<union> set (held hs)" using mset_eq_setD [OF m] by auto
  have "\<exists>c p'. acquire p = Some (c, p') \<and> c \<notin> set (held hs)" if "length hs + lost < length children"
  proof (cases "idle_q p")
    case Nil
    with that i show ?thesis by simp
  next
    case (Cons c cs)
    with d show ?thesis by (simp add: acquire_def)
  qed
  with i d s show ?thesis by simp
qed

definition demo_children :: "ChildSlot list" where
  "demo_children = [\<lparr>pid = 11, sock_path = ''a''\<rparr>, \<lparr>pid = 12, sock_path = ''b''\<rparr>]"

theorem warm_pool_exclusive_witness:
  "\<exists>p hs. pool_run demo_children p hs 0 \<and> length hs = 1 \<and> distinct (idle_q p @ held hs) \<and> (\<exists>c p'. acquire p = Some (c, p') \<and> c \<notin> set (held hs))"
proof -
  obtain p where s: "start_pool (Some 7) (map Some demo_children) new_pool = (p, True)" and p: "idle_q p = demo_children"
    by (simp add: start_pool_def new_pool_def start_children_all)
  have "pool_run demo_children p [] 0" by (rule pool_run.up [OF s]) (simp add: demo_children_def)
  moreover have "acquire p = Some (hd demo_children, p\<lparr>idle_q := tl demo_children\<rparr>)" using p by (simp add: acquire_def demo_children_def)
  ultimately have r: "pool_run demo_children (p\<lparr>idle_q := tl demo_children\<rparr>) [Holding (hd demo_children)] 0" by (rule pool_run.take)
  have "length [Holding (hd demo_children)] + 0 < length demo_children" by (simp add: demo_children_def)
  with warm_pool_exclusive [OF r] r show ?thesis by (metis length_Cons list.size(3) One_nat_def)
qed

text \<open>
  A refused replacement makes the pool smaller for good.
\<close>

lemma refusal_shrinks:
  assumes "pool_run children p hs lost"
  shows "length (slots p) \<le> length children - lost"
proof -
  note i = pool_run_inv [OF assms]
  have "length (slots p) = length (idle_q p) + length (held hs)" using i by (metis size_mset size_union)
  moreover have "length (held hs) \<le> length hs" by (simp add: held_def List.map_filter_def)
  ultimately show ?thesis using i by linarith
qed

text \<open>
  \<open>shutdown\<close> leaves the idle queue, so a pool that is started again hands out a child that
  is gone and that the pool does not count.
\<close>

lemma restart_hands_out_stale:
  assumes "idle_q p = c # cs" "start_pool (Some n) (map Some ds) (shutdown_pool p) = (p', True)" "c \<notin> set ds"
  shows "(\<exists>p''. acquire p' = Some (c, p'')) \<and> c \<notin> set (slots p')"
  using assms by (auto simp: start_pool_def shutdown_pool_def start_children_all acquire_def)

end
