(* ===== verification/Worker_Service.thy ===== *)
theory Worker_Service
  imports Handlers Worker_Exec
begin

text \<open>
  The worker's \<open>worker.py\<close>: \<open>WorkerServicer\<close> (\<open>ExecuteTask\<close>, \<open>_run_task\<close>, \<open>_report\<close>,
  \<open>_tail_lines\<close>) with its bounded thread pool, \<open>register\<close> and the turns of
  \<open>heartbeat_loop\<close>. The last two call the handlers of \<^const>\<open>RegisterWorker\<close> and
  \<^const>\<open>Heartbeat\<close> on the orchestrator's state, over a network that may lose a call or its
  answer.
\<close>

section \<open>Tail lines\<close>

text \<open>\<open>str.splitlines\<close>, for the line boundaries among the 8-bit characters.\<close>

definition CR :: char where
  "CR = CHR 0x0D"

definition line_break :: "char \<Rightarrow> bool" where
  "line_break c \<longleftrightarrow> c \<in> {LF, CR, CHR 0x0B, CHR 0x0C, CHR 0x1C, CHR 0x1D, CHR 0x1E, CHR 0x85}"

fun splitlines_from :: "string \<Rightarrow> string \<Rightarrow> string list" where
  "splitlines_from line [] = (if line = [] then [] else [line])"
| "splitlines_from line [c] = (if line_break c then [line] else [line @ [c]])"
| "splitlines_from line (c # d # text) =
     (if c = CR \<and> d = LF then line # splitlines_from [] text
      else if line_break c then line # splitlines_from [] (d # text)
      else splitlines_from (line @ [c]) (d # text))"

definition tail_lines :: "int64 \<Rightarrow> ExecutionResult \<Rightarrow> LogLine list" where
  "tail_lines ts result =
     concat (map (\<lambda>(text, is_err). map (\<lambda>l. \<lparr>Line = l, IsStderr = is_err, TsUnixMs = ts\<rparr>) (splitlines_from [] text))
       [(er_stdout result, False), (er_stderr result, True)])"

text \<open>No character is lost but the line breaks.\<close>

lemma splitlines_keep: "concat (splitlines_from line rest) = line @ filter (\<lambda>c. \<not> line_break c) rest"
proof (induction line rest rule: splitlines_from.induct)
  case (3 line c d rest)
  have "line_break CR" "line_break LF" by (simp_all add: line_break_def)
  with 3 show ?case by (cases "c = CR \<and> d = LF"; cases "line_break c") simp_all
qed simp_all

section \<open>One task\<close>

text \<open>An executor, as \<open>_run_task\<close> sees it: how \<open>execute\<close> ends, and what it wrote to the sink.\<close>

type_synonym executor = "bytes \<Rightarrow> bytes \<Rightarrow> ExecutionResult py fate \<times> (string \<times> bool) list"

definition inproc :: "('f, 'a, 'v) python \<Rightarrow> (nat \<Rightarrow> int) \<Rightarrow> executor" where
  "inproc P tm f a =
     (case inproc_streaming P tm f a of
        (Ends r, ws) \<Rightarrow> (Ends (Inr r), ws)
      | (Escapes c, ws) \<Rightarrow> (Escapes c, ws)
      | (Forever, ws) \<Rightarrow> (Forever, ws))"

definition naive :: "('f, 'a, 'v) python \<Rightarrow> process \<Rightarrow> (nat \<Rightarrow> int) \<Rightarrow> executor" where
  "naive P X tm f a = (Ends (naive_execute P X tm f a), [])"

definition result_report :: "string \<Rightarrow> string \<Rightarrow> int64 \<Rightarrow> ExecutionResult \<Rightarrow> ReportTaskResultRequest" where
  "result_report worker_id job_id ts result =
     \<lparr>t_JobId = job_id, t_WorkerId = worker_id, Success = er_success result, t_ResultBytes = er_result_bytes result,
      t_Error = er_error result, t_ColdStartMs = word_of_int (er_cold_start_ms result),
      t_ExecutionMs = word_of_int (er_execution_ms result), TailLines = tail_lines ts result\<rparr>"

text \<open>
  What a finished task leaves: the log stream and the report. An exit by \<open>SystemExit\<close> is
  caught by neither handler, so the streamer is not closed and nothing is reported.
\<close>

definition run_task ::
  "executor \<Rightarrow> (py_error \<Rightarrow> string) \<Rightarrow> (nat \<Rightarrow> int64) \<Rightarrow> string \<Rightarrow> ExecuteTaskRequest \<Rightarrow> (TaskLogStreamer \<times> ReportTaskResultRequest option) fate" where
  "run_task execute show_e now worker_id req =
     (case execute (x_FunctionBytes req) (x_ArgsBytes req) of
        (Forever, ws) \<Rightarrow> Forever
      | (Escapes c, ws) \<Rightarrow>
          Ends (fold (\<lambda>(text, is_stderr). sink now text is_stderr) ws (new_streamer (x_JobId req) worker_id), None)
      | (Ends r, ws) \<Rightarrow>
          (let streamer = stream_task now (x_JobId req) worker_id ws
           in Ends (streamer, Some
             (case r of
                Inr result \<Rightarrow> result_report worker_id (x_JobId req) (now (length (ts_q streamer))) result
              | Inl e \<Rightarrow> \<lparr>t_JobId = x_JobId req, t_WorkerId = worker_id, Success = False, t_ResultBytes = [],
                  t_Error = ''worker internal error: '' @ show_e e, t_ColdStartMs = 0, t_ExecutionMs = 0, TailLines = []\<rparr>))))"

definition report_of :: "executor \<Rightarrow> (py_error \<Rightarrow> string) \<Rightarrow> (nat \<Rightarrow> int64) \<Rightarrow> string \<Rightarrow> ExecuteTaskRequest \<Rightarrow> ReportTaskResultRequest option" where
  "report_of execute show_e now worker_id req =
     (case run_task execute show_e now worker_id req of Ends (s, r) \<Rightarrow> r | _ \<Rightarrow> None)"

section \<open>The servicer\<close>

text \<open>
  \<open>sv_queue\<close> and \<open>sv_running\<close> are the thread pool's: tasks submitted and not yet picked up, and
  tasks its at most \<open>max_workers\<close> threads run. \<open>sv_sent\<close> are the reports sent, in order.
\<close>

record servicer =
  sv_active :: int
  sv_queue :: "ExecuteTaskRequest list"
  sv_running :: "ExecuteTaskRequest list"
  sv_sent :: "ReportTaskResultRequest list"

definition new_servicer :: servicer where
  "new_servicer = \<lparr>sv_active = 0, sv_queue = [], sv_running = [], sv_sent = []\<rparr>"

definition ExecuteTask :: "ExecuteTaskRequest \<Rightarrow> servicer \<Rightarrow> servicer \<times> ExecuteTaskResponse" where
  "ExecuteTask req v = (v\<lparr>sv_active := sv_active v + 1, sv_queue := sv_queue v @ [req]\<rparr>, \<lparr>Accepted = True, RejectionReason = []\<rparr>)"

definition task_done :: "ExecuteTaskRequest \<Rightarrow> ReportTaskResultRequest option \<Rightarrow> servicer \<Rightarrow> servicer" where
  "task_done req r v =
     v\<lparr>sv_active := sv_active v - 1, sv_running := remove1 req (sv_running v),
       sv_sent := sv_sent v @ (case r of None \<Rightarrow> [] | Some m \<Rightarrow> [m])\<rparr>"

text \<open>
  The servicer's runs: \<open>accepted\<close> and \<open>finished\<close> are the tasks so far, in order. A task that
  never ends stays among the running ones.
\<close>

inductive serves ::
  "executor \<Rightarrow> (py_error \<Rightarrow> string) \<Rightarrow> (nat \<Rightarrow> int64) \<Rightarrow> string \<Rightarrow> nat \<Rightarrow> ExecuteTaskRequest list \<Rightarrow> ExecuteTaskRequest list \<Rightarrow> servicer \<Rightarrow> bool"
  for execute show_e now worker_id max_workers where
  fresh: "serves execute show_e now worker_id max_workers [] [] new_servicer"
| accept: "serves execute show_e now worker_id max_workers accepted finished v \<Longrightarrow>
    serves execute show_e now worker_id max_workers (accepted @ [req]) finished (fst (ExecuteTask req v))"
| start: "serves execute show_e now worker_id max_workers accepted finished v \<Longrightarrow> sv_queue v = req # q \<Longrightarrow> length (sv_running v) < max_workers \<Longrightarrow>
    serves execute show_e now worker_id max_workers accepted finished (v\<lparr>sv_queue := q, sv_running := sv_running v @ [req]\<rparr>)"
| finish: "serves execute show_e now worker_id max_workers accepted finished v \<Longrightarrow> req \<in> set (sv_running v) \<Longrightarrow>
    run_task execute show_e now worker_id req = Ends (s, r) \<Longrightarrow>
    serves execute show_e now worker_id max_workers accepted (finished @ [req]) (task_done req r v)"

lemma serves_counts:
  "serves execute show_e now worker_id max_workers accepted finished v \<Longrightarrow>
     sv_active v = int (length (sv_queue v) + length (sv_running v)) \<and> length (sv_running v) \<le> max_workers \<and>
     mset accepted = mset (sv_queue v) + mset (sv_running v) + mset finished \<and>
     sv_sent v = List.map_filter (report_of execute show_e now worker_id) finished"
proof (induction rule: serves.induct)
  case fresh
  then show ?case by (simp add: new_servicer_def List.map_filter_def)
next
  case (accept accepted finished v req)
  then show ?case by (simp add: ExecuteTask_def)
next
  case (start accepted finished v req q)
  then show ?case by simp
next
  case (finish accepted finished v req s r)
  from finish.hyps(2) have "0 < length (sv_running v)" by (cases "sv_running v") auto
  then have "int (length (sv_running v) - Suc 0) = int (length (sv_running v)) - 1" by linarith
  with finish show ?case
    by (auto simp: task_done_def length_remove1 report_of_def List.map_filter_def multiset_eq_iff split: option.splits)
qed

lemma report_of_job:
  "report_of execute show_e now worker_id req = Some m \<Longrightarrow> t_JobId m = x_JobId req \<and> t_WorkerId m = worker_id"
  by (auto simp: report_of_def run_task_def result_report_def Let_def split: prod.splits fate.splits sum.splits)

text \<open>Every task of an executor that always ends is reported.\<close>

lemma report_of_ends:
  "execute (x_FunctionBytes req) (x_ArgsBytes req) = (Ends r, ws) \<Longrightarrow> \<exists>m. report_of execute show_e now worker_id req = Some m"
  by (simp add: report_of_def run_task_def Let_def)

text \<open>A function that calls \<open>sys.exit\<close> in the worker's own interpreter is not.\<close>

lemma exit_unreported:
  assumes "loads_fn P (x_FunctionBytes req) = Inr f" "loads_args P (x_ArgsBytes req) = Inr a" "call P f a = Exits c"
  shows "report_of (inproc P tm) show_e now worker_id req = None"
  using assms by (simp add: report_of_def run_task_def inproc_def inproc_streaming_def)

lemma sent_jobs:
  assumes "\<forall>req \<in> set finished. \<exists>m. report_of execute show_e now worker_id req = Some m"
  shows "map t_JobId (List.map_filter (report_of execute show_e now worker_id) finished) = map x_JobId finished"
  using assms by (induction finished) (auto simp: List.map_filter_def dest: report_of_job)

section \<open>Registration and heartbeats\<close>

datatype link = Through | Lost | Unanswered

definition ms_or :: "int32 \<Rightarrow> int" where
  "ms_or i = (if i = 0 then 2000 else sint i)"

text \<open>
  \<open>register\<close>: the orchestrator's state after it, the heartbeat interval in milliseconds and the
  waits. \<open>other k\<close> is what the orchestrator does before the \<open>k\<close>-th call. \<open>None\<close>: not registered
  within the fuel.
\<close>

fun register ::
  "(nat \<Rightarrow> link) \<Rightarrow> (nat \<Rightarrow> 'st Server \<Rightarrow> 'st Server) \<Rightarrow> (nat \<Rightarrow> gotime) \<Rightarrow> RegisterWorkerRequest \<Rightarrow> nat \<Rightarrow> nat \<Rightarrow> duration \<Rightarrow> 'st Server \<Rightarrow>
   ('st Server \<times> int \<times> duration list) option" where
  "register net other tm req 0 k backoff s = None"
| "register net other tm req (Suc fuel) k backoff s =
     (let s1 = other k s;
          retry = \<lambda>s2. map_option (\<lambda>(s', i, ws). (s', i, backoff # ws))
            (register net other tm req fuel (Suc k) (min (backoff * 2) (5 * Second)) s2)
      in case net k of
           Lost \<Rightarrow> retry s1
         | Unanswered \<Rightarrow> retry (fst (RegisterWorker (tm k) req s1))
         | Through \<Rightarrow>
             (case RegisterWorker (tm k) req s1 of
                (s2, Inl e) \<Rightarrow> retry s2
              | (s2, Inr resp) \<Rightarrow> Some (s2, ms_or (HeartbeatIntervalMs resp), [])))"

text \<open>One turn of \<open>heartbeat_loop\<close>, before its wait.\<close>

definition heartbeat_turn ::
  "link \<Rightarrow> (nat \<Rightarrow> link) \<Rightarrow> (nat \<Rightarrow> 'st Server \<Rightarrow> 'st Server) \<Rightarrow> gotime \<Rightarrow> (nat \<Rightarrow> gotime) \<Rightarrow> nat \<Rightarrow> RegisterWorkerRequest \<Rightarrow> servicer \<Rightarrow> 'st Server \<Rightarrow>
   'st Server option" where
  "heartbeat_turn reach net other now tm fuel req v s =
     (let hb = \<lparr>h_WorkerId = w_WorkerId req, h_ActiveTasks = word_of_int (sv_active v)\<rparr>
      in case reach of
           Lost \<Rightarrow> Some s
         | Unanswered \<Rightarrow> Some (fst (Heartbeat now hb s))
         | Through \<Rightarrow>
             (case Heartbeat now hb s of
                (s1, Inl e) \<Rightarrow> Some s1
              | (s1, Inr should_drain) \<Rightarrow>
                  (if should_drain then map_option fst (register net other tm req fuel 0 (Second div 2) s1) else Some s1)))"

definition known_alive :: "string \<Rightarrow> 'st Server \<Rightarrow> bool" where
  "known_alive i s \<longleftrightarrow> (\<exists>w. workers (workerPool s) i = Some w \<and> alive w)"

lemma RegisterWorker_alive:
  "w_WorkerId req \<noteq> [] \<Longrightarrow> w_Address req \<noteq> [] \<Longrightarrow>
     known_alive (w_WorkerId req) (fst (RegisterWorker t req s)) \<and> (\<exists>resp. snd (RegisterWorker t req s) = Inr resp)"
  by (simp add: RegisterWorker_def known_alive_def Register_def Let_def)

lemma register_spec:
  assumes "w_WorkerId req \<noteq> []" "w_Address req \<noteq> []"
  shows "net (k + n) = Through \<Longrightarrow> \<forall>j < n. net (k + j) \<noteq> Through \<Longrightarrow> fuel > n \<Longrightarrow> 0 \<le> backoff \<Longrightarrow> backoff \<le> 5 * Second \<Longrightarrow>
    \<exists>s' i ws. register net other tm req fuel k backoff s = Some (s', i, ws) \<and> known_alive (w_WorkerId req) s' \<and>
      length ws = n \<and> (\<forall>w \<in> set ws. w \<le> 5 * Second)"
proof (induction n arbitrary: fuel k backoff s)
  case 0
  then obtain g where g: "fuel = Suc g" by (cases fuel) auto
  obtain s2 resp where r: "RegisterWorker (tm k) req (other k s) = (s2, Inr resp)" "known_alive (w_WorkerId req) s2"
    using RegisterWorker_alive [OF assms, of "tm k" "other k s"] by (metis prod.collapse)
  with 0 show ?case by (simp add: g)
next
  case (Suc n)
  then obtain g where g: "fuel = Suc g" by (cases fuel) auto
  have k: "net k \<noteq> Through" using Suc.prems(2) by (metis add.right_neutral zero_less_Suc)
  have n: "net (Suc k + n) = Through" "\<forall>j < n. net (Suc k + j) \<noteq> Through" using Suc.prems(1,2) by auto
  have b: "0 \<le> min (backoff * 2) (5 * Second)" "min (backoff * 2) (5 * Second) \<le> 5 * Second" using Suc.prems(4,5) by auto
  have "\<exists>s' i ws. register net other tm req g (Suc k) (min (backoff * 2) (5 * Second)) s2 = Some (s', i, ws) \<and>
      known_alive (w_WorkerId req) s' \<and> length ws = n \<and> (\<forall>w \<in> set ws. w \<le> 5 * Second)" for s2
    using Suc.IH [OF n _ b] Suc.prems(3) g by simp
  note ih = this [of "other k s"] this [of "fst (RegisterWorker (tm k) req (other k s))"]
  from ih k Suc.prems(5) show ?case by (cases "net k") (auto simp: g Let_def)
qed

section \<open>Properties\<close>


definition demo_task :: ExecuteTaskRequest where
  "demo_task = \<lparr>x_JobId = ''j1'', x_FunctionBytes = [1], x_ArgsBytes = [], x_FunctionName = ''hello''\<rparr>"


text \<open>
  C35: heartbeats keep a worker in service. When a heartbeat gets through and, if the
  orchestrator no longer knows the worker, one of the registration calls it then repeats
  does, the orchestrator has the worker, alive, at the end of that turn, however many calls
  or answers were lost before and whatever else the orchestrator did meanwhile; the waits
  between the calls never exceed 5 s.
\<close>
theorem heartbeat_keeps_worker:
  assumes "w_WorkerId req \<noteq> []" "w_Address req \<noteq> []" "net n = Through" "\<forall>j < n. net j \<noteq> Through" "fuel > n"
  shows "(\<exists>s'. heartbeat_turn Through net other now tm fuel req v s = Some s' \<and> known_alive (w_WorkerId req) s') \<and>
    (\<exists>s' i ws. register net other tm req fuel 0 (Second div 2) s = Some (s', i, ws) \<and> length ws = n \<and> (\<forall>w \<in> set ws. w \<le> 5 * Second))"
proof -
  have b: "0 \<le> Second div 2" "Second div 2 \<le> 5 * Second" by (simp_all add: Second_def Millisecond_def)
  have n: "net (0 + n) = Through" "\<forall>j < n. net (0 + j) \<noteq> Through" using assms(3,4) by simp_all
  note r = register_spec [OF assms(1,2) n assms(5) b]
  let ?hb = "\<lparr>h_WorkerId = w_WorkerId req, h_ActiveTasks = word_of_int (sv_active v)\<rparr>"
  have "\<exists>s'. heartbeat_turn Through net other now tm fuel req v s = Some s' \<and> known_alive (w_WorkerId req) s'"
  proof (cases "workers (workerPool s) (w_WorkerId req)")
    case None
    then have "Heartbeat now ?hb s = (s, Inr True)" using assms(1) by (simp add: Heartbeat_def RecordHeartbeat_def)
    then show ?thesis using r [of other tm s] by (auto simp: heartbeat_turn_def)
  next
    case (Some w)
    then have "snd (Heartbeat now ?hb s) = Inr False \<and> known_alive (w_WorkerId req) (fst (Heartbeat now ?hb s))"
      using assms(1) by (simp add: Heartbeat_def RecordHeartbeat_def Let_def known_alive_def)
    then show ?thesis by (cases "Heartbeat now ?hb s") (simp add: heartbeat_turn_def)
  qed
  with r [of other tm s] show ?thesis by metis
qed

theorem heartbeat_keeps_worker_witness:
  "\<exists>s'. heartbeat_turn Through (\<lambda>k. if k = 2 then Through else Lost) (\<lambda>_ s. s) 9 (\<lambda>_. 9) 3
     \<lparr>w_WorkerId = ''w9'', w_Address = ''h:1'', w_Capacity = 4\<rparr> new_servicer demo_server = Some s' \<and> known_alive ''w9'' s'"
  using heartbeat_keeps_worker [where req = "\<lparr>w_WorkerId = ''w9'', w_Address = ''h:1'', w_Capacity = 4\<rparr>" and n = 2 and fuel = 3 and
      net = "\<lambda>k. if k = 2 then Through else Lost" and other = "\<lambda>_ s. s" and now = 9 and tm = "\<lambda>_. 9" and v = new_servicer and s = demo_server]
  by simp

end
