(* ===== verification/Sdk.thy ===== *)
theory Sdk
  imports Watch Worker_Service
begin

text \<open>
  The Python SDK: \<open>Future\<close> of \<open>future.py\<close>, \<open>Func.spawn\<close> of \<open>app.py\<close> with the serialization
  wrappers of \<open>serialization.py\<close>. Its calls are \<^const>\<open>InvokeFunction\<close> and \<^const>\<open>WatchJob\<close> on
  the orchestrator's state. cloudpickle is a parameter.
\<close>

section \<open>Submitting\<close>

record ('f, 'a, 'v) client =
  dumps_fn :: "'f \<Rightarrow> string + bytes"
  dumps_args :: "'a \<Rightarrow> string + bytes"
  loads_value :: "bytes \<Rightarrow> string + 'v"
  None_value :: 'v

definition serialize_callable :: "('f, 'a, 'v) client \<Rightarrow> 'f \<Rightarrow> string + bytes" where
  "serialize_callable C fn = (case dumps_fn C fn of Inl e \<Rightarrow> Inl (''function not picklable: '' @ e) | Inr b \<Rightarrow> Inr b)"

definition serialize_args :: "('f, 'a, 'v) client \<Rightarrow> 'a \<Rightarrow> string + bytes" where
  "serialize_args C args = (case dumps_args C args of Inl e \<Rightarrow> Inl (''args not picklable: '' @ e) | Inr b \<Rightarrow> Inr b)"

definition deserialize_result :: "('f, 'a, 'v) client \<Rightarrow> bytes \<Rightarrow> string + 'v" where
  "deserialize_result C payload = (if payload = [] then Inr (None_value C) else loads_value C payload)"

record 'v Future =
  fu_job_id :: string
  fu_cached :: "'v option"
  fu_logs :: "(string \<times> bool) list"
  fu_cold_start_ms :: int
  fu_total_duration_ms :: int
  fu_execution_ms :: int
  fu_worker_id :: string

definition new_future :: "string \<Rightarrow> 'v Future" where
  "new_future i = \<lparr>fu_job_id = i, fu_cached = None, fu_logs = [], fu_cold_start_ms = 0, fu_total_duration_ms = 0,
     fu_execution_ms = 0, fu_worker_id = []\<rparr>"

text \<open>
  \<open>spawn\<close>: a text is the serialization error raised before anything is sent. \<open>None\<close>: the call
  blocks on the pending queue.
\<close>

definition spawn ::
  "('f, 'a, 'v) client \<Rightarrow> 'st Store \<Rightarrow> 'st handler_env \<Rightarrow> string \<Rightarrow> string \<Rightarrow> string \<Rightarrow> 'f \<Rightarrow> 'a \<Rightarrow> 'st Server \<Rightarrow>
   ('st Server \<times> ((string + grpc_error) + 'v Future)) option" where
  "spawn C S E uuid qualname idem_key fn args s =
     (case serialize_callable C fn of
        Inl e \<Rightarrow> Some (s, Inl (Inl e))
      | Inr function_bytes \<Rightarrow>
          (case serialize_args C args of
             Inl e \<Rightarrow> Some (s, Inl (Inl e))
           | Inr args_bytes \<Rightarrow>
               map_option (\<lambda>(s', resp). (s', case resp of Inl e \<Rightarrow> Inl (Inr e) | Inr job_id \<Rightarrow> Inr (new_future job_id)))
                 (InvokeFunction S E uuid \<lparr>i_FunctionBytes = function_bytes, i_ArgsBytes = args_bytes,
                    i_FunctionName = qualname, i_IdempotencyKey = idem_key\<rparr> s)))"

section \<open>Waiting for the result\<close>

text \<open>How the client sees the stream end, after its events; a deadline comes with its printed length.\<close>

datatype client_end = StreamDone | DeadlineExceeded string | RpcFailed string

datatype 'v got = Value 'v | FutureError string | TimeoutError string | RpcError string | Unpickling string

definition on_log :: "LogLine \<Rightarrow> 'v Future \<Rightarrow> 'v Future" where
  "on_log l fu = fu\<lparr>fu_logs := fu_logs fu @ [(Line l, IsStderr l)]\<rparr>"

definition finish_future :: "('f, 'a, 'v) client \<Rightarrow> JobResult \<Rightarrow> 'v Future \<Rightarrow> 'v Future \<times> 'v got" where
  "finish_future C r fu =
     (let fu1 = fu\<lparr>fu_cold_start_ms := sint (r_ColdStartMs r), fu_total_duration_ms := sint (r_TotalDurationMs r),
            fu_execution_ms := max 0 (sint (r_TotalDurationMs r) - sint (r_ColdStartMs r)), fu_worker_id := r_WorkerId r\<rparr>
      in if r_Status r = JOB_STATUS_DONE
         then (case deserialize_result C (r_ResultBytes r) of
                 Inl e \<Rightarrow> (fu1, Unpickling e)
               | Inr v \<Rightarrow> (fu1\<lparr>fu_cached := Some v\<rparr>, Value v))
         else (fu1, FutureError (''job '' @ fu_job_id fu @ '' failed: '' @ r_Error r)))"

fun get_events :: "('f, 'a, 'v) client \<Rightarrow> JobEvent list \<Rightarrow> client_end \<Rightarrow> 'v Future \<Rightarrow> 'v Future \<times> 'v got" where
  "get_events C [] e fu =
     (fu, case e of
            StreamDone \<Rightarrow> FutureError (''job '' @ fu_job_id fu @ '': watch stream ended without a result'')
          | DeadlineExceeded limit \<Rightarrow> TimeoutError (''job '' @ fu_job_id fu @ '' did not complete within '' @ limit @ ''s'')
          | RpcFailed x \<Rightarrow> RpcError x)"
| "get_events C (ev # evs) e fu =
     (case Event ev of
        EvLog l \<Rightarrow> get_events C evs e (on_log l fu)
      | EvResult r \<Rightarrow> finish_future C r fu
      | EvStatus st \<Rightarrow> get_events C evs e fu)"

definition future_get :: "('f, 'a, 'v) client \<Rightarrow> JobEvent list \<Rightarrow> client_end \<Rightarrow> 'v Future \<Rightarrow> 'v Future \<times> 'v got" where
  "future_get C evs e fu = (case fu_cached fu of Some v \<Rightarrow> (fu, Value v) | None \<Rightarrow> get_events C evs e fu)"

section \<open>What \<open>get\<close> gives\<close>

definition log_lines :: "JobEvent list \<Rightarrow> (string \<times> bool) list" where
  "log_lines evs = List.map_filter (\<lambda>ev. case Event ev of EvLog l \<Rightarrow> Some (Line l, IsStderr l) | _ \<Rightarrow> None) evs"

lemma get_events_result:
  assumes "no_result evs" "Event ev = EvResult r"
  shows "get_events C (evs @ ev # rest) e fu = finish_future C r (fu\<lparr>fu_logs := fu_logs fu @ log_lines evs\<rparr>)"
  using assms(1)
proof (induction evs arbitrary: fu)
  case Nil
  then show ?case using assms(2) by (simp add: log_lines_def List.map_filter_def)
next
  case (Cons x evs)
  from Cons.prems have "no_result evs" "GetResult (Event x) = None" by (simp_all add: no_result_def)
  with Cons.IH show ?case by (cases "Event x") (simp_all add: on_log_def log_lines_def List.map_filter_def)
qed

lemma finish_future_logs: "fu_logs (fst (finish_future C r fu)) = fu_logs fu"
  by (simp add: finish_future_def Let_def split: sum.splits)

lemma finish_future_job: "fu_job_id (fst (finish_future C r fu)) = fu_job_id fu"
  by (simp add: finish_future_def Let_def split: sum.splits)

lemma finish_future_got:
  "snd (finish_future C r fu) =
     (if r_Status r = JOB_STATUS_DONE
      then (case deserialize_result C (r_ResultBytes r) of Inl e \<Rightarrow> Unpickling e | Inr v \<Rightarrow> Value v)
      else FutureError (''job '' @ fu_job_id fu @ '' failed: '' @ r_Error r))"
  by (simp add: finish_future_def Let_def split: sum.splits)

lemma finish_future_caches: "snd (finish_future C r fu) = Value v \<Longrightarrow> fu_cached (fst (finish_future C r fu)) = Some v"
  by (auto simp: finish_future_def Let_def split: sum.splits if_splits)

section \<open>From a worker's report to the caller\<close>

definition unfinished_hub :: "string \<Rightarrow> LogHub \<Rightarrow> bool" where
  "unfinished_hub i h \<longleftrightarrow> final (hub_get i h) = None"

lemma Finish_final:
  "final (hub_get i h) = None \<Longrightarrow> final (hub_get i (Finish i ev h)) \<in> {None, Some ev}"
  by (auto simp: Finish_def hub_get_def broadcast_def new_state_def Let_def split: option.splits)

definition quiet_watch :: "'st watch_env" where
  "quiet_watch = \<lparr>w_others = (\<lambda>_ s. s), w_send = (\<lambda>_. None), w_wake = (\<lambda>_. Tick)\<rparr>"

lemma quiet_watch_simps [simp]: "w_others quiet_watch k = (\<lambda>s. s)" "w_send quiet_watch n = None" "w_wake quiet_watch k = Tick"
  by (simp_all add: quiet_watch_def)

context live_server
begin

lemma ReportTaskResult_hub:
  assumes "srv_ok A I s" "a_jobs (A (jobStore s)) (t_JobId req) = Some r" "\<not> terminal r" "t_JobId req \<noteq> []" "time_ok t"
    and "ReportTaskResult S (quiet_env t) req s = (s', resp)" "unfinished_hub (t_JobId req) (logHub s)"
    and "a_jobs (A (jobStore s')) (t_JobId req) = Some r'"
  shows "final (hub_get (t_JobId req) (logHub s')) \<in> {None, Some (jobResultEvent r')}"
proof -
  let ?i = "t_JobId req"
  let ?s = "s\<lparr>results := lru_Put ?i (result_entry req) (results s), logHub := Append ?i (TailLines req) (logHub s)\<rparr>"
  obtain s3 c e runs where t: "Transition (on_store S) t ?i (report req) ?s = (s3, c, e, runs)" by (rule prod_cases4)
  have inv: "I (jobStore ?s)" using srv_okD(1) [OF assms(1)] by simp
  note sp = lv.Transition_reliable [OF inv mutators_ok(6) assms(5) t]
  from report_cases [of req r] assms(3) obtain r1 where r1: "report req r = Inr r1" "reported req r1" by blast
  with sp assms(2) have e: "e = None" by (auto simp: spec_Transition_def)
  have inv3: "I (jobStore s3)" using sv.Transition_fallible [OF inv mutators_ok(6) t] by blast
  from t have hub: "logHub s3 = Append ?i (TailLines req) (logHub s)" by (auto simp: on_store_Transition)
  from assms(4,6) t e have s': "jobStore s' = jobStore s3" "logHub s' = logHub (notifyTerminal S (\<lambda>s. s) ?i s3)"
    by (auto simp: ReportTaskResult_def Let_def)
  have g: "GetJob (on_store S) ?i s3 = Inr (Some r')" using lv.GetJob_reliable [OF inv3, of ?i] assms(8) s'(1) by simp
  have f: "final (hub_get ?i (logHub s3)) = None" using assms(7) by (simp add: hub Append_final unfinished_hub_def)
  show ?thesis unfolding s'(2) using g f Finish_final [OF f] by (auto simp: notifyTerminal_def)
qed

lemma WatchJob_terminal:
  assumes "I (jobStore s)" "i \<noteq> []" "a_jobs (A (jobStore s)) i = Some r" "terminal r"
    and "final (hub_get i (logHub s)) \<in> {None, Some (jobResultEvent r)}" "fuel \<ge> 2"
  shows "\<exists>s' replay. WatchJob S quiet_watch fuel i s = Some (s', replay @ [jobResultEvent r], Ended) \<and> no_result replay"
proof -
  have g: "GetJob S i (jobStore s) = Inr (Some r)" using lv.GetJob_reliable [OF assms(1), of i] assms(3) by simp
  obtain h sub replay fe where sb: "Subscribe i (logHub s) = (h, sub, replay, fe)" by (rule prod_cases4)
  then have fe: "fe = final (hub_get i (logHub s))" and re: "no_result replay" and mb: "recv sub h = (h, None)"
    by (auto simp: Subscribe_def Let_def no_result_def recv_def)
  obtain n where n: "fuel = Suc (Suc n)" using assms(6) by (metis add_2_eq_Suc le_Suc_ex)
  have sends: "send_all quiet_watch evs sent = (sent @ evs, None)" for evs sent
    by (induction evs arbitrary: sent) simp_all
  have tm: "stored_terminal (Inr (Some r)) = Some r" using assms(4) by (simp add: stored_terminal_def terminal_def)
  have "watch_loop S quiet_watch fuel 1 i sub st sent (s\<lparr>logHub := h\<rparr>) = Some (s\<lparr>logHub := h\<rparr>, sent @ [jobResultEvent r], Ended)" for st sent
    by (simp add: n g tm Let_def mb send_last_def)
  moreover have "no_result (statusEvent i (Status r) # replay)" using re by (simp add: no_result_def)
  ultimately show ?thesis using g sb fe assms(2,5)
    by (auto simp: WatchJob_def sends Let_def send_last_def intro!: exI [of _ "statusEvent i (Status r) # replay"])
qed

lemma report_reaches_future:
  assumes "srv_ok A I s" "a_jobs (A (jobStore s)) i = Some r" "\<not> terminal r" "i \<noteq> []" "time_ok t"
    and "unfinished_hub i (logHub s)" "t_JobId m = i"
  shows "\<exists>s1 s2 sent fu. ReportTaskResult S (quiet_env t) m s = (s1, Inr True) \<and>
    WatchJob S quiet_watch 2 i s1 = Some (s2, sent, Ended) \<and>
    future_get C sent StreamDone (new_future i) =
      (fu, if Success m then (case deserialize_result C (t_ResultBytes m) of Inl e \<Rightarrow> Unpickling e | Inr v \<Rightarrow> Value v)
           else FutureError (''job '' @ i @ '' failed: '' @ t_Error m)) \<and>
    fu_logs fu = log_lines sent"
proof -
  obtain s1 resp where rep: "ReportTaskResult S (quiet_env t) m s = (s1, resp)" by (rule prod.exhaust)
  have j: "a_jobs (A (jobStore s)) (t_JobId m) = Some r" "t_JobId m \<noteq> []" using assms(2,4,7) by simp_all
  from ReportTaskResult_quiet [OF assms(1) j(1) assms(3) j(2) assms(5) rep] obtain r' where
    q: "resp = Inr True" "I (jobStore s1)" "a_jobs (A (jobStore s1)) i = Some r'" "reported m r'" using assms(7) by blast
  have f: "final (hub_get i (logHub s1)) \<in> {None, Some (jobResultEvent r')}"
    using ReportTaskResult_hub [OF assms(1) j(1) assms(3) j(2) assms(5) rep] assms(6,7) q(3) by simp
  have t: "terminal r'" using q(4) by (auto simp: reported_def terminal_def)
  obtain s2 replay where w: "WatchJob S quiet_watch 2 i s1 = Some (s2, replay @ [jobResultEvent r'], Ended)" "no_result replay"
    using WatchJob_terminal [OF q(2) assms(4) q(3) t f, of 2] by auto
  obtain z where z: "Event (jobResultEvent r') = EvResult z" "r_Status z = mapStatus (Status r')" "r_ResultBytes z = ResultBytes r'" "r_Error z = Error r'"
    by (simp add: jobResultEvent_def)
  have l: "log_lines (replay @ [jobResultEvent r']) = log_lines replay" by (simp add: log_lines_def List.map_filter_def z(1))
  have g: "future_get C (replay @ [jobResultEvent r']) StreamDone (new_future i) =
      finish_future C z ((new_future i)\<lparr>fu_logs := log_lines replay\<rparr>)"
    using get_events_result [OF w(2) z(1), of C "[]" StreamDone "new_future i"] by (simp add: future_get_def new_future_def)
  let ?x = "finish_future C z ((new_future i)\<lparr>fu_logs := log_lines replay\<rparr>)"
  have st: "mapStatus StatusDone = JOB_STATUS_DONE" "mapStatus StatusFailed \<noteq> JOB_STATUS_DONE" by (simp_all add: mapStatus_def status_defs)
  have "snd ?x = (if Success m then (case deserialize_result C (t_ResultBytes m) of Inl e \<Rightarrow> Unpickling e | Inr v \<Rightarrow> Value v)
      else FutureError (''job '' @ i @ '' failed: '' @ t_Error m))"
    using q(4) st by (simp add: finish_future_got z(2-4) reported_def new_future_def)
  moreover have "fu_logs (fst ?x) = log_lines replay" by (simp add: finish_future_logs)
  ultimately show ?thesis using rep q(1) w(1) g l
    by (intro exI [of _ s1] exI [of _ s2] exI [of _ "replay @ [jobResultEvent r']"] exI [of _ "fst ?x"]) (simp add: prod_eq_iff)
qed

end

section \<open>Properties\<close>

text \<open>
  C7: a remote call returns what the function returns. Take a job that is not finished, and
  the task the scheduler makes of it, run by a worker in its own interpreter. If evaluating
  the job's function on its arguments gives the pickled value \<open>b\<close>, the worker's report is
  acknowledged, the watch stream that the caller's \<open>get\<close> opens afterwards ends by itself, and
  \<open>get\<close> returns the value that \<open>b\<close> unpickles to, with the log lines of the stream collected in
  order; if it raises, \<open>get\<close> raises a \<open>FutureError\<close> with the worker's traceback.
\<close>
theorem remote_call_returns:
  assumes "bolt_live B" "srv_ok (store_abs B) (store_wf B) s" "time_ok t"
    and "a_jobs (store_abs B (jobStore s)) i = Some rec" "\<not> terminal rec" "i \<noteq> []" "unfinished_hub i (logHub s)"
    and "evaluates P (FunctionBytes rec) (ArgsBytes rec) = Ends out"
  shows "\<exists>m s1 s2 sent fu.
    report_of (inproc P tm) show_e now worker_id (exec_request rec) = Some m \<and>
    ReportTaskResult (BoltStore B) (quiet_env t) m s = (s1, Inr True) \<and>
    WatchJob (BoltStore B) quiet_watch 2 i s1 = Some (s2, sent, Ended) \<and>
    future_get C sent StreamDone (new_future i) =
      (fu, case out of
             Some b \<Rightarrow> (case deserialize_result C b of Inl e \<Rightarrow> Unpickling e | Inr v \<Rightarrow> Value v)
           | None \<Rightarrow> FutureError (''job '' @ i @ '' failed: '' @ t_Error m)) \<and>
    fu_logs fu = log_lines sent"
proof -
  let ?e = "exec_request rec"
  have inv: "store_wf B (jobStore s)" by (rule srv_okD(1) [OF assms(2)])
have B: "bolt_db B" using assms(1) by (simp add: bolt_live_def)
  have id: "ID rec = i" by (rule fallible_store.abs_ID [OF served.store [OF bolt_served [OF B]] inv assms(4)])
  obtain r ws where x: "inproc P tm (x_FunctionBytes ?e) (x_ArgsBytes ?e) = (Ends (Inr r), ws)" and r: "says out r"
    using streaming_agrees [where P = P and f = "FunctionBytes rec" and a = "ArgsBytes rec" and clock = tm] assms(8)
    by (cases "inproc_streaming P tm (FunctionBytes rec) (ArgsBytes rec)") (auto simp: inproc_def exec_request_def)
  obtain ts where m: "report_of (inproc P tm) show_e now worker_id ?e = Some (result_report worker_id i ts r)"
    using x by (simp add: report_of_def run_task_def Let_def id exec_request_def)
  let ?m = "result_report worker_id i ts r"
  have "t_JobId ?m = i" "Success ?m = (out \<noteq> None)" "out = Some b \<Longrightarrow> t_ResultBytes ?m = b" for b
    using r by (simp_all add: result_report_def says_def)
  note f = this
  from live_server.report_reaches_future [OF bolt_live_server [OF assms(1)] assms(2,4-6,3,7) f(1), of C] obtain s1 s2 sent fu where
    g: "ReportTaskResult (BoltStore B) (quiet_env t) ?m s = (s1, Inr True)" "WatchJob (BoltStore B) quiet_watch 2 i s1 = Some (s2, sent, Ended)"
      "future_get C sent StreamDone (new_future i) =
        (fu, if Success ?m then (case deserialize_result C (t_ResultBytes ?m) of Inl e \<Rightarrow> Unpickling e | Inr v \<Rightarrow> Value v)
             else FutureError (''job '' @ i @ '' failed: '' @ t_Error ?m))" "fu_logs fu = log_lines sent" by blast
  have "future_get C sent StreamDone (new_future i) =
      (fu, case out of
             Some b \<Rightarrow> (case deserialize_result C b of Inl e \<Rightarrow> Unpickling e | Inr v \<Rightarrow> Value v)
           | None \<Rightarrow> FutureError (''job '' @ i @ '' failed: '' @ t_Error ?m))"
    unfolding g(3) using f(2,3) by (cases out) simp_all
  with m g(1,2,4) show ?thesis by blast
qed

definition demo_client :: "(unit, unit, nat) client" where
  "demo_client = \<lparr>dumps_fn = (\<lambda>_. Inr [1]), dumps_args = (\<lambda>_. Inr []), loads_value = (\<lambda>b. if b = [7] then Inr 42 else Inl ''bad''), None_value = 0\<rparr>"

theorem remote_call_returns_witness:
  "\<exists>m s1 s2 sent fu. report_of (inproc demo_python int) (\<lambda>_. []) (\<lambda>_. 5) ''w1'' (exec_request demo_job) = Some m \<and>
     ReportTaskResult (BoltStore mem_bolt) (quiet_env 9) m demo_server = (s1, Inr True) \<and>
     WatchJob (BoltStore mem_bolt) quiet_watch 2 ''j1'' s1 = Some (s2, sent, Ended) \<and>
     future_get demo_client sent StreamDone (new_future ''j1'') = (fu, Value 42)"
proof -
  have j: "a_jobs (store_abs mem_bolt (jobStore demo_server)) ''j1'' = Some demo_job" by (simp add: demo_abs)
  have u: "unfinished_hub ''j1'' (logHub demo_server)"
    by (simp add: unfinished_hub_def demo_server_def NewServerWithStore_def Let_def NewLogHub_def hub_get_def new_state_def)
  have n: "\<not> terminal demo_job" by (simp add: terminal_def demo_job_def status_defs)
  have t: "time_ok 9" by (simp add: time_ok_def Second_def Millisecond_def)
  have e: "evaluates demo_python (FunctionBytes demo_job) (ArgsBytes demo_job) = Ends (Some [7])"
    by (simp add: evaluates_def demo_python_def demo_job_def zeroJob_def)
  have v: "deserialize_result demo_client [7] = Inr 42" by (simp add: deserialize_result_def demo_client_def)
  from remote_call_returns [OF mem_bolt_live demo_server_ok t j n _ u e, where C = demo_client and tm = int and show_e = "\<lambda>_. []" and now = "\<lambda>_. 5" and worker_id = "''w1''"] v
  show ?thesis by auto
qed



end
