(* ===== verification/Spec2Isabelle.thy ===== *)
theory Spec2Isabelle
  imports System Worker_Warm_Pool Sdk
begin

text \<open>
  Verification of minimodal: the orchestrator (Go, \<open>src/orchestrator\<close>), the worker and the
  SDK (Python, \<open>src/worker\<close> and \<open>src/sdk/minimodal\<close>).

  \<^bold>\<open>The program.\<close> A client pickles a function and its arguments and calls
  \<open>InvokeFunction\<close>. The orchestrator stores a job, under an idempotency key if there is one,
  and puts its ID into a bounded queue. The drainer takes IDs from it and lets the scheduler
  pick the least loaded live worker, mark the job RUNNING and send it by \<open>ExecuteTask\<close>.
  The worker runs the function, streams its output by \<open>StreamTaskLogs\<close> and reports the
  result by \<open>ReportTaskResult\<close>. The client waits on the event stream of \<open>WatchJob\<close>. Workers
  register and send heartbeats; a fault detector declares silent ones dead and has their
  jobs reassigned; an autoscaler starts and stops worker processes. Jobs live in a local
  bbolt database, or in one that raft replicates. On a restart, or on becoming raft leader,
  unfinished jobs are queued again.

  \<^bold>\<open>Conventions.\<close> A struct is a record, a machine integer a word of its width, an error a
  value of a sum type; \<open>None\<close> stands for a call that panics, blocks or does not return, as
  the text at each definition says. Clocks, map iteration orders, generated IDs, the network
  and the operating system are arguments. bbolt, hashicorp/raft, cloudpickle and the user's
  functions are parameters, with their documented behaviour as the hypotheses \<open>bolt_db\<close>,
  \<open>bolt_live\<close>, \<open>pickles\<close>, \<open>sound_process\<close> and \<open>sound_warm\<close>; an in-memory database, a raft
  node and a small interpreter that meet them make the theorems' hypotheses concrete.
  Concurrency is explicit: a handler takes what all the others do between two of its atomic
  actions as an argument (\<open>others\<close>, \<open>w_others\<close>, \<open>env_\<close>...), and its theorems hold for every
  such environment that moves the server as the handlers themselves do (\<open>srv_moves\<close>); that
  they all do is proved for each of them.

  \<^bold>\<open>The theories, in the order of their imports.\<close>

  \<^item> \<open>Prelude\<close>, \<open>Proto\<close>: integers, times, error values (\<open>job_store.go\<close>, \<open>errors.Is\<close>);
    the messages of \<open>minimodal.proto\<close>.
  \<^item> \<open>Config\<close> (\<open>config.go\<close>): parsing of the settings; each setting reads back.
  \<^item> \<open>Job_Record\<close> (\<open>job_store.go\<close>): the record and its JSON form, a round trip.
  \<^item> \<open>Store_Interface\<close> (\<open>Store\<close> of \<open>job_store.go\<close>): the methods, the abstract store and one
    specification per method; the contracts \<open>fallible_store\<close> and \<open>reliable_store\<close>.
  \<^item> \<open>Bolt_API\<close>, \<open>Bolt_Store\<close> (\<open>BoltStore\<close>): every method refines its specification, is all
    or nothing under database faults, and a repeated submission changes nothing.
  \<^item> \<open>Raft_FSM\<close> (\<open>raft_fsm.go\<close>), \<open>Raft_Store\<close> (\<open>raft_store.go\<close>), \<open>Raft_Cluster\<close>: commands and
    snapshots; replicas agree, also through a snapshot; the optimistic transition loop is
    atomic; a node's start and its join.
  \<^item> \<open>LRU\<close> (\<open>lru.go\<close>), \<open>Log_Hub\<close> (\<open>loghub.go\<close>), \<open>Metrics\<close> (\<open>metrics.go\<close>), \<open>Worker_Pool\<close>
    (\<open>worker_pool.go\<close>): the in-memory structures, with a reference list for the cache, a
    publication log for the hub, exact sweeps and a minimal choice for the pool.
  \<^item> \<open>Job_Lifecycle\<close>: the mutators of \<open>scheduler.go\<close> and \<open>server.go\<close> and the step relation of
    the store under all of them; terminal jobs stay, payloads and versions behave.
  \<^item> \<open>Scheduler\<close> (\<open>scheduler.go\<close>): \<open>Dispatch\<close>; a job is RUNNING in the store before its
    worker hears of it, and the outcome is the one returned.
  \<^item> \<open>Server\<close>, \<open>Handlers\<close>, \<open>Dispatcher\<close>, \<open>Recovery\<close> (\<open>server.go\<close>), \<open>Watch\<close> (\<open>watch.go\<close>): the
    server's state and invariant \<open>srv_ok\<close>, the RPC handlers, the drainer, the reaper and
    recovery, the streams. Accepted jobs are stored and queued, the first result wins,
    every job the drainer takes is dispatched, failed or left to a shutdown, watchers get
    the result.
  \<^item> \<open>Filepath\<close>, \<open>Launcher\<close> (\<open>launcher.go\<close>), \<open>Autoscaler\<close> (\<open>autoscaler.go\<close>): worker processes
    with exclusive ports and no orphans; a ceiling on launches, only idle workers stopped.
  \<^item> \<open>Http_Server\<close> (\<open>http.go\<close>): the routes, and the join protocol between two nodes.
  \<^item> \<open>Main_Program\<close> (\<open>main.go\<close>, \<open>recovery.go\<close>): start and shutdown, leadership, the fault
    detector's tick, the panic interceptor.
  \<^item> \<open>System\<close>: the composition. \<open>sys_run\<close> is everything the server does while it is up, any
    handler or loop running between two actions of any other, nested to any depth; \<open>lives\<close>
    adds crashes at any moment and restarts by \<open>main\<close>. Every reachable state satisfies the
    server's invariant and accounts for every unfinished job; an accepted job survives any
    number of crashes with its payload.
  \<^item> \<open>Worker_Logs\<close> (\<open>logstream.py\<close>), \<open>Worker_Frames\<close>, \<open>Worker_Exec\<close> (\<open>executor.py\<close>,
    \<open>subprocess_runner.py\<close>, \<open>warm_pool.py\<close>), \<open>Worker_Warm_Pool\<close> (\<open>warm_pool.py\<close>),
    \<open>Worker_Service\<close> (\<open>worker.py\<close>): output arrives whole, frames survive any segmentation,
    the three ways of running a function agree, a warm child serves one task at a time,
    every task that ends is reported once, heartbeats keep the worker registered.
  \<^item> \<open>Sdk\<close> (\<open>future.py\<close>, \<open>app.py\<close>, \<open>serialization.py\<close>): a future resolves, and a remote call
    returns what the function returns, through the worker's report and the orchestrator.

  \<^bold>\<open>Interfaces.\<close> Locales state what one part relies on: \<open>bolt_db\<close> and \<open>bolt_live\<close> of the
  database, \<open>fallible_store\<close> and \<open>reliable_store\<close> of a store, \<open>served\<close> and \<open>live_server\<close> of the
  server's store as the handlers see it, \<open>launcher\<close> of a process launcher. They are
  interpreted on \<open>BoltStore\<close> over any database with these laws, on the server over it, on
  the in-memory database and on \<open>ProcessLauncher\<close>; \<open>any_served\<close> and \<open>any_live_server\<close> carry
  them to the server that \<open>main\<close> builds, whose store is chosen at run time. The handlers'
  lemmas are proved once, in \<open>served\<close> or \<open>live_server\<close>. The operations of \<open>RaftStore\<close> interleave
  with other proposers inside one call, which these contracts do not describe: it has
  theorems of its own.

  \<^bold>\<open>Bounds and fuel.\<close> A loop that need not end has fuel, \<open>None\<close> when it is used up, and a
  theorem that enough fuel gives a result: dispatch needs one more than there are worker
  IDs, since it tries each at most once; a watcher needs 1026 more than the step from which
  its job is finished, since a mailbox holds 1024 events; the log sender needs one more than
  the lines queued and the looks at an empty queue; registration needs one more than the
  calls that are lost. Joining makes 30 attempts as the code does, leasing a port at most
  one attempt more than there are ports leased. Times are those that JSON can carry
  (\<open>time_ok\<close>).

  \<^bold>\<open>Not modelled.\<close> The generated protobuf code, gRPC and HTTP transport, sockets, TLS and
  keepalive parameters: what they deliver are arguments. The internals of bbolt, raft and
  cloudpickle. The Go scheduler: interleavings are between atomic actions, whose atomicity
  comes from the mutexes and transactions the code uses. The handlers and
  whole-system runs are composed with the local store; of the replicated store the theorems
  are about its own operations.
  Floating point in reports is the exact value that is rounded. Log output. Of the worker:
  \<open>main\<close>, \<open>make_executor\<close>, \<open>install_routers\<close>, the spawner process, fork and signals, the CRIU
  stubs of \<open>snapshot.py\<close>; of the SDK: \<open>App\<close>, local calls and the channel. Python strings are
  lists of 8-bit characters. The dashboard, the examples and the benchmarks only call the
  services.
\<close>

end
